(* ===== verification/Prelude.thy ===== *)
theory Prelude
  imports Main "HOL-Library.Word"
begin

text \<open>
  Shared vocabulary of the development: the machine integer types of the Rust sources on a
  64-bit target, the outcome type of operations that may panic, run into undefined behaviour
  or spin, the fact collections of the component theories, and generic lemmas on lists.
\<close>

type_synonym usize = "64 word"
type_synonym isize = "64 word"
type_synonym u64 = "64 word"
type_synonym u32 = "32 word"
type_synonym u8 = "8 word"

type_synonym tid = nat
type_synonym cpu = nat

text \<open>
  What a call can do besides returning: fail an assertion or an \<open>unwrap\<close> (a panic), read
  memory that was never initialised (undefined behaviour in Rust), or spin for ever in a
  busy-wait loop whose condition no one else can change while the call runs alone.
\<close>

datatype fault = Panic | Undefined | Spin

type_synonym 'a outcome = "fault + 'a"

definition bind_outcome :: "'a outcome \<Rightarrow> ('a \<Rightarrow> 'b outcome) \<Rightarrow> 'b outcome" where
  "bind_outcome m f = (case m of Inl e \<Rightarrow> Inl e | Inr a \<Rightarrow> f a)"

definition assert_outcome :: "bool \<Rightarrow> unit outcome" where
  "assert_outcome b = (if b then Inr () else Inl Panic)"

named_theorems outcome_simps
named_theorems ring_simps
named_theorems deque_defs

lemma bind_outcome_Inr [simp]: "bind_outcome (Inr a) f = f a"
  by (simp add: bind_outcome_def)

lemma bind_outcome_Inl [simp]: "bind_outcome (Inl e) f = Inl e"
  by (simp add: bind_outcome_def)

lemma bind_outcome_eq_Inr:
  "bind_outcome m f = Inr b \<longleftrightarrow> (\<exists>a. m = Inr a \<and> f a = Inr b)"
  by (cases m) auto

lemma assert_outcome_True [simp]: "assert_outcome True = Inr ()"
  by (simp add: assert_outcome_def)

lemma assert_outcome_False [simp]: "assert_outcome False = Inl Panic"
  by (simp add: assert_outcome_def)

lemma assert_outcome_eq_Inr [simp]: "assert_outcome b = Inr u \<longleftrightarrow> b"
  by (simp add: assert_outcome_def)

lemma nth_list_update_if: "i < length xs \<Longrightarrow> xs[i := x] ! j = (if i = j then x else xs ! j)"
  by (simp add: nth_list_update)

lemma map_fun_upd_notin: "k \<notin> set xs \<Longrightarrow> map (f(k := v)) xs = map f xs"
  by (induction xs) auto

text \<open>For runs that are evaluated: a result that is not a fault.\<close>

lemma case_sum_ok: "(case r of Inl x \<Rightarrow> False | Inr y \<Rightarrow> P y) \<longleftrightarrow> (\<exists>y. r = Inr y \<and> P y)"
  by (cases r) simp_all

end
