(* ===== verification/Ring.thy ===== *)
theory Ring
  imports Prelude
begin

text \<open>
  Index arithmetic of a ring buffer of \<open>cap\<close> slots, as \<^verbatim>\<open>utils/src/deque.rs\<close> writes it out:
  the successor and predecessor of an index and the list of occupied indices between
  \<open>head\<close> (first element) and \<open>tail\<close> (one past the last).
\<close>

definition ring_next :: "nat \<Rightarrow> nat \<Rightarrow> nat" where
  "ring_next cap i = (i + 1) mod cap"

definition ring_prev :: "nat \<Rightarrow> nat \<Rightarrow> nat" where
  "ring_prev cap i = (if i = 0 then cap - 1 else i - 1)"

definition ring_len :: "nat \<Rightarrow> nat \<Rightarrow> nat \<Rightarrow> nat" where
  "ring_len cap h t = (if t \<ge> h then t - h else cap - h + t)"

definition ring_range :: "nat \<Rightarrow> nat \<Rightarrow> nat \<Rightarrow> nat list" where
  "ring_range cap h t = (if h \<le> t then [h..<t] else [h..<cap] @ [0..<t])"

lemma ring_next_if: "i < cap \<Longrightarrow> ring_next cap i = (if Suc i = cap then 0 else Suc i)"
  by (auto simp: ring_next_def)

lemma ring_next_less [simp]: "0 < cap \<Longrightarrow> ring_next cap i < cap"
  by (simp add: ring_next_def)

lemma ring_prev_less [simp]: "i < cap \<Longrightarrow> ring_prev cap i < cap"
  by (auto simp: ring_prev_def)

lemma ring_next_prev [simp]: "i < cap \<Longrightarrow> ring_next cap (ring_prev cap i) = i"
  by (auto simp: ring_next_def ring_prev_def)

lemma ring_prev_next [simp]: "i < cap \<Longrightarrow> ring_prev cap (ring_next cap i) = i"
  by (auto simp: ring_next_if ring_prev_def)

lemma ring_next_inj: "i < cap \<Longrightarrow> j < cap \<Longrightarrow> ring_next cap i = ring_next cap j \<longleftrightarrow> i = j"
  by (metis ring_prev_next)

lemma length_ring_range: "h < cap \<Longrightarrow> t < cap \<Longrightarrow> length (ring_range cap h t) = ring_len cap h t"
  by (auto simp: ring_range_def ring_len_def)

lemma ring_len_less: "h < cap \<Longrightarrow> t < cap \<Longrightarrow> ring_len cap h t < cap"
  by (auto simp: ring_len_def)

lemma ring_len_0: "h < cap \<Longrightarrow> t < cap \<Longrightarrow> ring_len cap h t = 0 \<longleftrightarrow> h = t"
  by (auto simp: ring_len_def)

lemma ring_range_Nil: "h < cap \<Longrightarrow> t < cap \<Longrightarrow> ring_range cap h t = [] \<longleftrightarrow> h = t"
  by (auto simp: ring_range_def)

lemma ring_range_same [simp]: "ring_range cap h h = []"
  by (simp add: ring_range_def)

lemma distinct_ring_range: "distinct (ring_range cap h t)"
  by (auto simp: ring_range_def)

lemma ring_range_less: "j \<in> set (ring_range cap h t) \<Longrightarrow> h < cap \<Longrightarrow> t < cap \<Longrightarrow> j < cap"
  by (auto simp: ring_range_def split: if_splits)

lemma ring_full_iff_next:
  "h < cap \<Longrightarrow> t < cap \<Longrightarrow> ring_next cap t = h \<longleftrightarrow> ring_len cap h t = cap - 1"
  by (auto simp: ring_next_if ring_len_def)

lemma ring_full_iff_prev:
  "h < cap \<Longrightarrow> t < cap \<Longrightarrow> ring_prev cap h = t \<longleftrightarrow> ring_len cap h t = cap - 1"
  by (auto simp: ring_prev_def ring_len_def)

text \<open>The occupied indices grow and shrink at either end by exactly one slot.\<close>

lemma ring_range_push_back:
  assumes "h < cap" "t < cap" "ring_next cap t \<noteq> h"
  shows "ring_range cap h (ring_next cap t) = ring_range cap h t @ [t]"
  using assms by (cases "Suc t = cap") (auto simp: ring_range_def ring_next_if)

lemma ring_range_push_front:
  assumes "h < cap" "t < cap" "ring_prev cap h \<noteq> t"
  shows "ring_range cap (ring_prev cap h) t = ring_prev cap h # ring_range cap h t"
  using assms by (cases h) (auto simp: ring_range_def ring_prev_def upt_conv_Cons)

lemma ring_range_pop_front:
  assumes "h < cap" "t < cap" "h \<noteq> t"
  shows "ring_range cap h t = h # ring_range cap (ring_next cap h) t"
  using ring_range_push_front [of "ring_next cap h" cap t] assms by simp

lemma ring_range_pop_back:
  assumes "h < cap" "t < cap" "h \<noteq> t"
  shows "ring_range cap h t = ring_range cap h (ring_prev cap t) @ [ring_prev cap t]"
  using ring_range_push_back [of h cap "ring_prev cap t"] assms by simp

end
