(* ===== verification/Deque.thy ===== *)
theory Deque
  imports Ring
begin

text \<open>
  The bounded double-ended queue \<^verbatim>\<open>LockFreeDeque\<close> of \<^verbatim>\<open>utils/src/deque.rs\<close>: its shared state, the
  program of each operation as a machine whose steps are the single shared memory accesses of
  the Rust loop bodies, and the operations as run by one thread alone.

  Interleaving is sequentially consistent: one step is one atomic load, store or
  compare-exchange (\<^verbatim>\<open>compare_exchange_weak\<close> may fail spuriously, the flag \<open>sp\<close> of a step) or one
  access to the slot's payload. Back-off loops of \<^verbatim>\<open>spin_loop\<close> hints access nothing and are not
  steps. A payload that is \<open>None\<close> is uninitialised or moved out; reading it is undefined
  behaviour and ends in \<open>DqUndefined\<close>. The array length \<open>CAPACITY\<close> is the length of the buffer.
\<close>

subsection \<open>Shared state\<close>

datatype slot_state = SLOT_EMPTY | SLOT_WRITING | SLOT_READY | SLOT_READING

record 'a slot =
  slot_data :: "'a option"
  slot_state :: slot_state

record 'a deque =
  buffer :: "'a slot list"
  head :: nat
  tail :: nat

definition empty_slot :: "'a slot" where
  "empty_slot = \<lparr>slot_data = None, slot_state = SLOT_EMPTY\<rparr>"

definition dq_new :: "nat \<Rightarrow> 'a deque" where
  "dq_new cap = \<lparr>buffer = replicate cap empty_slot, head = 0, tail = 0\<rparr>"

definition dq_capacity :: "'a deque \<Rightarrow> nat" where
  "dq_capacity q = length (buffer q)"

abbreviation state_at :: "'a deque \<Rightarrow> nat \<Rightarrow> slot_state" where
  "state_at q k \<equiv> slot_state (buffer q ! k)"

abbreviation data_at :: "'a deque \<Rightarrow> nat \<Rightarrow> 'a option" where
  "data_at q k \<equiv> slot_data (buffer q ! k)"

definition set_slot_state :: "nat \<Rightarrow> slot_state \<Rightarrow> 'a deque \<Rightarrow> 'a deque" where
  "set_slot_state k st q = q\<lparr>buffer := (buffer q)[k := (buffer q ! k)\<lparr>slot_state := st\<rparr>]\<rparr>"

definition set_slot_data :: "nat \<Rightarrow> 'a option \<Rightarrow> 'a deque \<Rightarrow> 'a deque" where
  "set_slot_data k d q = q\<lparr>buffer := (buffer q)[k := (buffer q ! k)\<lparr>slot_data := d\<rparr>]\<rparr>"

subsection \<open>The two ends\<close>

text \<open>
  The four operations come in two mirrored pairs. \<open>own_index\<close> is the index an operation at the
  given end loads first, re-reads and finally moves; \<open>other_index\<close> is the one it compares with.
\<close>

datatype side = Front | Back

fun own_index :: "side \<Rightarrow> 'a deque \<Rightarrow> nat" where
  "own_index Front q = head q"
| "own_index Back q = tail q"

fun other_index :: "side \<Rightarrow> 'a deque \<Rightarrow> nat" where
  "other_index Front q = tail q"
| "other_index Back q = head q"

fun set_own_index :: "side \<Rightarrow> nat \<Rightarrow> 'a deque \<Rightarrow> 'a deque" where
  "set_own_index Front i q = q\<lparr>head := i\<rparr>"
| "set_own_index Back i q = q\<lparr>tail := i\<rparr>"

text \<open>
  \<open>push_target\<close>: \<^verbatim>\<open>new_head\<close> (moving backwards) or \<^verbatim>\<open>new_tail\<close>; \<open>push_slot\<close>: the slot written.
  \<open>pop_target\<close>: \<^verbatim>\<open>new_head\<close> or \<^verbatim>\<open>last_pos\<close>; \<open>pop_slot\<close>: the slot read.
\<close>

fun push_target :: "side \<Rightarrow> nat \<Rightarrow> nat \<Rightarrow> nat" where
  "push_target Front cap i = ring_prev cap i"
| "push_target Back cap i = ring_next cap i"

fun push_slot :: "side \<Rightarrow> nat \<Rightarrow> nat \<Rightarrow> nat" where
  "push_slot Front cap i = ring_prev cap i"
| "push_slot Back cap i = i"

fun pop_target :: "side \<Rightarrow> nat \<Rightarrow> nat \<Rightarrow> nat" where
  "pop_target Front cap i = ring_next cap i"
| "pop_target Back cap i = ring_prev cap i"

fun pop_slot :: "side \<Rightarrow> nat \<Rightarrow> nat \<Rightarrow> nat" where
  "pop_slot Front cap i = i"
| "pop_slot Back cap i = ring_prev cap i"

subsection \<open>The operations as step machines\<close>

text \<open>What an operation returns; \<open>Snapshot\<close> is the pair read by \<^verbatim>\<open>len\<close> and \<^verbatim>\<open>is_empty\<close>.\<close>

datatype 'a dq_result =
  PushOk
| PushErr 'a
| PopSome 'a
| PopNone
| Snapshot nat nat
| DqPanic
| DqUndefined

text \<open>
  Program points. Each names the access performed next and carries the live locals: the item,
  the loaded own index, the loaded other index, or the claimed slot.
\<close>

datatype 'a pc =
  PushLoad side 'a
| PushLoadOther side 'a nat
| PushReload side 'a nat nat
| PushClaim side 'a nat
| PushCas side 'a nat
| PushRelease side 'a nat
| PushWrite 'a nat
| PushReady nat
| PopLoad side
| PopLoadOther side nat
| PopReload side nat nat
| PopClaim side nat
| PopCas side nat
| PopRestore side nat
| PopRead nat
| PopFree nat 'a
| ObsLoad
| ObsLoadTail nat
| ObsReload nat nat
| Finished "'a dq_result"

fun dq_push_step :: "bool \<Rightarrow> 'a deque \<Rightarrow> 'a pc \<Rightarrow> 'a deque \<times> 'a pc" where
  "dq_push_step sp q (PushLoad sd x) = (q, PushLoadOther sd x (own_index sd q))"
| "dq_push_step sp q (PushLoadOther sd x i) = (q, PushReload sd x i (other_index sd q))"
| "dq_push_step sp q (PushReload sd x i j) =
     (q, if own_index sd q \<noteq> i then PushLoad sd x
         else if dq_capacity q = 0 then Finished DqPanic
         else if push_target sd (dq_capacity q) i = j then Finished (PushErr x)
         else PushClaim sd x i)"
| "dq_push_step sp q (PushClaim sd x i) =
     (let k = push_slot sd (dq_capacity q) i in
      if \<not> sp \<and> state_at q k = SLOT_EMPTY
      then (set_slot_state k SLOT_WRITING q, PushCas sd x i)
      else (q, PushLoad sd x))"
| "dq_push_step sp q (PushCas sd x i) =
     (let k = push_slot sd (dq_capacity q) i in
      if \<not> sp \<and> own_index sd q = i
      then (set_own_index sd (push_target sd (dq_capacity q) i) q, PushWrite x k)
      else (q, PushRelease sd x k))"
| "dq_push_step sp q (PushRelease sd x k) = (set_slot_state k SLOT_EMPTY q, PushLoad sd x)"
| "dq_push_step sp q (PushWrite x k) = (set_slot_data k (Some x) q, PushReady k)"
| "dq_push_step sp q (PushReady k) = (set_slot_state k SLOT_READY q, Finished PushOk)"
| "dq_push_step sp q p = (q, p)"

fun dq_pop_step :: "bool \<Rightarrow> 'a deque \<Rightarrow> 'a pc \<Rightarrow> 'a deque \<times> 'a pc" where
  "dq_pop_step sp q (PopLoad sd) = (q, PopLoadOther sd (own_index sd q))"
| "dq_pop_step sp q (PopLoadOther sd i) = (q, PopReload sd i (other_index sd q))"
| "dq_pop_step sp q (PopReload sd i j) =
     (q, if own_index sd q \<noteq> i then PopLoad sd
         else if i = j then Finished PopNone
         else PopClaim sd i)"
| "dq_pop_step sp q (PopClaim sd i) =
     (let k = pop_slot sd (dq_capacity q) i in
      if \<not> sp \<and> state_at q k = SLOT_READY
      then (set_slot_state k SLOT_READING q, PopCas sd i)
      else if state_at q k = SLOT_EMPTY then (q, Finished PopNone)
      else (q, PopLoad sd))"
| "dq_pop_step sp q (PopCas sd i) =
     (let k = pop_slot sd (dq_capacity q) i in
      if \<not> sp \<and> own_index sd q = i
      then (set_own_index sd (pop_target sd (dq_capacity q) i) q, PopRead k)
      else (q, PopRestore sd k))"
| "dq_pop_step sp q (PopRestore sd k) = (set_slot_state k SLOT_READY q, PopLoad sd)"
| "dq_pop_step sp q (PopRead k) =
     (case data_at q k of
        None \<Rightarrow> (q, Finished DqUndefined)
      | Some x \<Rightarrow> (set_slot_data k None q, PopFree k x))"
| "dq_pop_step sp q (PopFree k x) = (set_slot_state k SLOT_EMPTY q, Finished (PopSome x))"
| "dq_pop_step sp q p = (q, p)"

fun dq_obs_step :: "'a deque \<Rightarrow> 'a pc \<Rightarrow> 'a pc" where
  "dq_obs_step q ObsLoad = ObsLoadTail (head q)"
| "dq_obs_step q (ObsLoadTail h) = ObsReload h (tail q)"
| "dq_obs_step q (ObsReload h t) = (if head q = h then Finished (Snapshot h t) else ObsLoad)"
| "dq_obs_step q p = p"

fun is_push_pc :: "'a pc \<Rightarrow> bool" where
  "is_push_pc (PushLoad sd x) = True"
| "is_push_pc (PushLoadOther sd x i) = True"
| "is_push_pc (PushReload sd x i j) = True"
| "is_push_pc (PushClaim sd x i) = True"
| "is_push_pc (PushCas sd x i) = True"
| "is_push_pc (PushRelease sd x k) = True"
| "is_push_pc (PushWrite x k) = True"
| "is_push_pc (PushReady k) = True"
| "is_push_pc p = False"

fun is_obs_pc :: "'a pc \<Rightarrow> bool" where
  "is_obs_pc ObsLoad = True"
| "is_obs_pc (ObsLoadTail h) = True"
| "is_obs_pc (ObsReload h t) = True"
| "is_obs_pc p = False"

definition dq_step :: "bool \<Rightarrow> 'a deque \<Rightarrow> 'a pc \<Rightarrow> 'a deque \<times> 'a pc" where
  "dq_step sp q p =
     (if is_push_pc p then dq_push_step sp q p
      else if is_obs_pc p then (q, dq_obs_step q p)
      else dq_pop_step sp q p)"

subsection \<open>The operations run alone\<close>

text \<open>
  One thread runs to completion while the others rest, and no compare-exchange fails
  spuriously. \<open>None\<close> is a retry loop that never ends.
\<close>

fun is_finished :: "'a pc \<Rightarrow> bool" where
  "is_finished (Finished r) = True"
| "is_finished p = False"

fun finished_result :: "'a pc \<Rightarrow> 'a dq_result" where
  "finished_result (Finished r) = r"
| "finished_result p = DqUndefined"

partial_function (option) dq_exec :: "'a deque \<Rightarrow> 'a pc \<Rightarrow> ('a deque \<times> 'a dq_result) option" where
  "dq_exec q p =
     (if is_finished p then Some (q, finished_result p)
      else dq_exec (fst (dq_step False q p)) (snd (dq_step False q p)))"

definition push_front :: "'a deque \<Rightarrow> 'a \<Rightarrow> ('a deque \<times> 'a dq_result) option" where
  "push_front q x = dq_exec q (PushLoad Front x)"

definition push_back :: "'a deque \<Rightarrow> 'a \<Rightarrow> ('a deque \<times> 'a dq_result) option" where
  "push_back q x = dq_exec q (PushLoad Back x)"

definition pop_front :: "'a deque \<Rightarrow> ('a deque \<times> 'a dq_result) option" where
  "pop_front q = dq_exec q (PopLoad Front)"

definition pop_back :: "'a deque \<Rightarrow> ('a deque \<times> 'a dq_result) option" where
  "pop_back q = dq_exec q (PopLoad Back)"

text \<open>\<^verbatim>\<open>len\<close> and \<^verbatim>\<open>is_empty\<close> take the same snapshot of the two indices and differ in what they compute.\<close>

definition dq_snapshot :: "'a deque \<Rightarrow> ('a deque \<times> 'a dq_result) option" where
  "dq_snapshot q = dq_exec q ObsLoad"

definition dq_len :: "'a deque \<Rightarrow> nat option" where
  "dq_len q = (case dq_snapshot q of
     Some (_, Snapshot h t) \<Rightarrow> Some (ring_len (dq_capacity q) h t) | _ \<Rightarrow> None)"

definition dq_is_empty :: "'a deque \<Rightarrow> bool option" where
  "dq_is_empty q = (case dq_snapshot q of Some (_, Snapshot h t) \<Rightarrow> Some (h = t) | _ \<Rightarrow> None)"

text \<open>\<^verbatim>\<open>Drop\<close>: \<open>while self.pop_front().is_some() {}\<close>, dropping each item.\<close>

partial_function (option) dq_drop :: "'a deque \<Rightarrow> 'a deque option" where
  "dq_drop q = Option.bind (pop_front q) (\<lambda>r.
     case snd r of PopSome x \<Rightarrow> dq_drop (fst r) | _ \<Rightarrow> Some (fst r))"

lemmas dq_update_defs = set_slot_state_def set_slot_data_def dq_capacity_def

declare dq_exec.simps [code]

end
