(* ===== verification/Deque_Seq.thy ===== *)
theory Deque_Seq
  imports Deque
begin

text \<open>
  The deque used by one thread at a time: a quiescent deque is a finite sequence, and the four
  operations are the two-ended queue operations on it, bounded by \<open>CAPACITY - 1\<close> elements. The
  contract is the locale \<open>bounded_deque\<close>, interpreted on the model at the end; the lemmas of
  the locale are what the round-robin scheduler uses.
\<close>

subsection \<open>Quiescent deques and the sequence they hold\<close>

definition dq_range :: "'a deque \<Rightarrow> nat list" where
  "dq_range q = ring_range (dq_capacity q) (head q) (tail q)"

definition wf_deque :: "'a deque \<Rightarrow> bool" where
  "wf_deque q \<longleftrightarrow>
     head q < dq_capacity q \<and> tail q < dq_capacity q \<and>
     (\<forall>k < dq_capacity q.
        if k \<in> set (dq_range q) then state_at q k = SLOT_READY \<and> data_at q k \<noteq> None
        else state_at q k = SLOT_EMPTY)"

definition dq_list :: "'a deque \<Rightarrow> 'a list" where
  "dq_list q = map (\<lambda>k. the (data_at q k)) (dq_range q)"

lemma wf_dequeD:
  assumes "wf_deque q"
  shows "head q < dq_capacity q" "tail q < dq_capacity q"
    and "k \<in> set (dq_range q) \<Longrightarrow> k < dq_capacity q"
    and "k \<in> set (dq_range q) \<Longrightarrow> state_at q k = SLOT_READY"
    and "k \<in> set (dq_range q) \<Longrightarrow> \<exists>x. data_at q k = Some x"
    and "k < dq_capacity q \<Longrightarrow> k \<notin> set (dq_range q) \<Longrightarrow> state_at q k = SLOT_EMPTY"
  using assms by (auto simp: wf_deque_def dq_range_def dest: ring_range_less)

lemma wf_dq_new: "0 < cap \<Longrightarrow> wf_deque (dq_new cap)"
  by (simp add: wf_deque_def dq_new_def dq_capacity_def dq_range_def empty_slot_def)

lemma dq_capacity_new [simp]: "dq_capacity (dq_new cap) = cap"
  by (simp add: dq_new_def dq_capacity_def)

lemma dq_list_new [simp]: "dq_list (dq_new cap) = []"
  by (simp add: dq_list_def dq_range_def dq_new_def)

lemma dq_capacity_simps [simp]:
  "dq_capacity (set_slot_state k st q) = dq_capacity q"
  "dq_capacity (set_slot_data k d q) = dq_capacity q"
  "dq_capacity (set_own_index sd i q) = dq_capacity q"
  "dq_capacity (q\<lparr>head := i\<rparr>) = dq_capacity q"
  "dq_capacity (q\<lparr>tail := i\<rparr>) = dq_capacity q"
  by (cases sd; simp add: dq_update_defs)+

lemma dq_index_simps [simp]:
  "head (set_slot_state k st q) = head q" "tail (set_slot_state k st q) = tail q"
  "head (set_slot_data k d q) = head q" "tail (set_slot_data k d q) = tail q"
  "own_index sd (set_slot_state k st q) = own_index sd q"
  "own_index sd (set_slot_data k d q) = own_index sd q"
  by (cases sd; simp add: dq_update_defs)+

lemma dq_slot_simps [simp]:
  "buffer (set_own_index sd i q) = buffer q"
  "k < dq_capacity q \<Longrightarrow>
     state_at (set_slot_state k st q) j = (if j = k then st else state_at q j)"
  "k < dq_capacity q \<Longrightarrow>
     state_at (set_slot_data k d q) j = state_at q j"
  "k < dq_capacity q \<Longrightarrow>
     data_at (set_slot_state k st q) j = data_at q j"
  "k < dq_capacity q \<Longrightarrow>
     data_at (set_slot_data k d q) j = (if j = k then d else data_at q j)"
  by (cases sd; auto simp: dq_update_defs nth_list_update)+

lemma push_slot_less: "i < cap \<Longrightarrow> push_slot sd cap i < cap"
  by (cases sd) simp_all

lemma pop_slot_less: "i < cap \<Longrightarrow> pop_slot sd cap i < cap"
  by (cases sd) simp_all

lemma push_target_less: "i < cap \<Longrightarrow> push_target sd cap i < cap"
  by (cases sd) simp_all

lemma pop_target_less: "i < cap \<Longrightarrow> pop_target sd cap i < cap"
  by (cases sd) simp_all

lemma own_index_less: "wf_deque q \<Longrightarrow> own_index sd q < dq_capacity q"
  by (cases sd) (simp_all add: wf_dequeD)

lemma length_dq_range: "wf_deque q \<Longrightarrow> length (dq_range q) = ring_len (dq_capacity q) (head q) (tail q)"
  by (simp add: dq_range_def length_ring_range wf_dequeD)

lemma length_dq_list: "wf_deque q \<Longrightarrow> length (dq_list q) < dq_capacity q"
  by (simp add: dq_list_def length_dq_range ring_len_less wf_dequeD)

text \<open>The full and empty tests of the code, read on the sequence.\<close>

lemma push_full_iff:
  assumes "wf_deque q"
  shows "push_target sd (dq_capacity q) (own_index sd q) = other_index sd q
    \<longleftrightarrow> length (dq_list q) = dq_capacity q - 1"
  using assms
  by (cases sd) (simp_all add: dq_list_def length_dq_range ring_full_iff_next ring_full_iff_prev wf_dequeD)

lemma pop_empty_iff: "wf_deque q \<Longrightarrow> own_index sd q = other_index sd q \<longleftrightarrow> dq_list q = []"
  by (cases sd) (auto simp: dq_list_def dq_range_def ring_range_Nil wf_dequeD)

subsection \<open>One operation, step by step\<close>

text \<open>The state a successful push or pop leaves behind: its stores, in the order of the code.\<close>

definition push_commit :: "side \<Rightarrow> 'a \<Rightarrow> 'a deque \<Rightarrow> 'a deque" where
  "push_commit sd x q =
     (let i = own_index sd q; k = push_slot sd (dq_capacity q) i in
      set_slot_state k SLOT_READY (set_slot_data k (Some x)
        (set_own_index sd (push_target sd (dq_capacity q) i) (set_slot_state k SLOT_WRITING q))))"

definition pop_commit :: "side \<Rightarrow> 'a deque \<Rightarrow> 'a deque" where
  "pop_commit sd q =
     (let i = own_index sd q; k = pop_slot sd (dq_capacity q) i in
      set_slot_state k SLOT_EMPTY (set_slot_data k None
        (set_own_index sd (pop_target sd (dq_capacity q) i) (set_slot_state k SLOT_READING q))))"

lemma dq_exec_finished [simp]: "dq_exec q (Finished r) = Some (q, r)"
  by (simp add: dq_exec.simps)

lemma dq_exec_step:
  "\<not> is_finished p \<Longrightarrow> dq_step False q p = (q', p') \<Longrightarrow> dq_exec q p = dq_exec q' p'"
  by (simp add: dq_exec.simps [of q p])

lemma dq_exec_push_full:
  assumes "0 < dq_capacity q" "push_target sd (dq_capacity q) (own_index sd q) = other_index sd q"
  shows "dq_exec q (PushLoad sd x) = Some (q, PushErr x)"
  using assms by (simp add: dq_exec.simps dq_step_def)

lemma dq_exec_push_ok:
  assumes "0 < dq_capacity q" "push_target sd (dq_capacity q) (own_index sd q) \<noteq> other_index sd q"
    and "state_at q (push_slot sd (dq_capacity q) (own_index sd q)) = SLOT_EMPTY"
  shows "dq_exec q (PushLoad sd x) = Some (push_commit sd x q, PushOk)"
  using assms by (simp add: dq_exec.simps dq_step_def push_commit_def Let_def)

lemma dq_exec_pop_empty:
  assumes "own_index sd q = other_index sd q"
  shows "dq_exec q (PopLoad sd) = Some (q, PopNone)"
  using assms by (simp add: dq_exec.simps dq_step_def)

lemma dq_exec_pop_ok:
  assumes "own_index sd q \<noteq> other_index sd q" "own_index sd q < dq_capacity q"
    and "state_at q (pop_slot sd (dq_capacity q) (own_index sd q)) = SLOT_READY"
    and "data_at q (pop_slot sd (dq_capacity q) (own_index sd q)) = Some x"
  shows "dq_exec q (PopLoad sd) = Some (pop_commit sd q, PopSome x)"
proof -
  let ?k = "pop_slot sd (dq_capacity q) (own_index sd q)"
  have "?k < dq_capacity q" using assms(2) by (rule pop_slot_less)
  then have "data_at (set_own_index sd j (set_slot_state ?k SLOT_READING q)) ?k = Some x" for j
    using assms(4) by simp
  then show ?thesis
    using assms(1-3) by (simp add: dq_exec.simps dq_step_def pop_commit_def Let_def)
qed

subsection \<open>The range of occupied slots under the four commits\<close>

fun add_at :: "side \<Rightarrow> 'b \<Rightarrow> 'b list \<Rightarrow> 'b list" where
  "add_at Front x xs = x # xs"
| "add_at Back x xs = xs @ [x]"

lemma set_add_at [simp]: "set (add_at sd x xs) = insert x (set xs)"
  by (cases sd) auto

lemma map_add_at [simp]: "map f (add_at sd x xs) = add_at sd (f x) (map f xs)"
  by (cases sd) auto

lemma length_add_at [simp]: "length (add_at sd x xs) = Suc (length xs)"
  by (cases sd) auto

lemma distinct_add_at [simp]: "distinct (add_at sd x xs) \<longleftrightarrow> x \<notin> set xs \<and> distinct xs"
  by (cases sd) auto

lemma dq_range_simps [simp]:
  "dq_range (set_slot_state k st q) = dq_range q"
  "dq_range (set_slot_data k d q) = dq_range q"
  by (simp_all add: dq_range_def)

lemma dq_range_push:
  assumes "head q < dq_capacity q" "tail q < dq_capacity q"
    and "push_target sd (dq_capacity q) (own_index sd q) \<noteq> other_index sd q"
  shows "dq_range (set_own_index sd (push_target sd (dq_capacity q) (own_index sd q)) q)
    = add_at sd (push_slot sd (dq_capacity q) (own_index sd q)) (dq_range q)"
  using assms by (cases sd) (auto simp: dq_range_def ring_range_push_front ring_range_push_back)

lemma dq_range_pop:
  assumes "head q < dq_capacity q" "tail q < dq_capacity q" "own_index sd q \<noteq> other_index sd q"
  shows "dq_range q = add_at sd (pop_slot sd (dq_capacity q) (own_index sd q))
    (dq_range (set_own_index sd (pop_target sd (dq_capacity q) (own_index sd q)) q))"
proof (cases sd)
  case Front
  with assms show ?thesis by (simp add: dq_range_def ring_range_pop_front)
next
  case Back
  with assms ring_range_pop_back show ?thesis by (simp add: dq_range_def)
qed

lemma distinct_dq_range: "distinct (dq_range q)"
  by (simp add: dq_range_def distinct_ring_range)

lemma dq_range_slot_update:
  "dq_range (set_own_index sd i (set_slot_state k st q)) = dq_range (set_own_index sd i q)"
  by (cases sd) (simp_all add: dq_range_def dq_update_defs)

lemma set_own_index_less:
  assumes "head q < dq_capacity q" "tail q < dq_capacity q" "i < dq_capacity q"
  shows "head (set_own_index sd i q) < dq_capacity q" "tail (set_own_index sd i q) < dq_capacity q"
  using assms by (cases sd; simp)+

lemma push_commit_wf:
  assumes wf: "wf_deque q" and room: "length (dq_list q) < dq_capacity q - 1"
  shows "wf_deque (push_commit sd x q)" "dq_list (push_commit sd x q) = add_at sd x (dq_list q)"
    "state_at q (push_slot sd (dq_capacity q) (own_index sd q)) = SLOT_EMPTY"
    "dq_capacity (push_commit sd x q) = dq_capacity q"
proof -
  let ?c = "dq_capacity q" and ?i = "own_index sd q"
  let ?k = "push_slot sd ?c ?i" and ?t = "push_target sd ?c ?i"
  note idx = wf_dequeD(1,2) [OF wf]
  have nf: "?t \<noteq> other_index sd q" using wf room by (simp add: push_full_iff)
  note R = dq_range_push [OF idx nf]
  have i: "?i < ?c" using wf by (rule own_index_less)
  then have k: "?k < ?c" and t: "?t < ?c" by (rule push_slot_less, rule push_target_less)
  have "distinct (add_at sd ?k (dq_range q))" by (subst R [symmetric]) (rule distinct_dq_range)
  then have out: "?k \<notin> set (dq_range q)" by simp
  have range': "dq_range (push_commit sd x q) = add_at sd ?k (dq_range q)"
    by (simp add: push_commit_def Let_def dq_range_slot_update R)
  show "state_at q ?k = SLOT_EMPTY" using wf k out by (rule wf_dequeD(6))
  show cap': "dq_capacity (push_commit sd x q) = ?c" by (simp add: push_commit_def Let_def)
  have data': "data_at (push_commit sd x q) j = (if j = ?k then Some x else data_at q j)" for j
    using k by (simp add: push_commit_def Let_def)
  have state': "state_at (push_commit sd x q) j = (if j = ?k then SLOT_READY else state_at q j)" for j
    using k by (simp add: push_commit_def Let_def)
  have hd': "head (push_commit sd x q) < ?c" "tail (push_commit sd x q) < ?c"
    using set_own_index_less [OF idx t] idx t
    by (cases sd; simp add: push_commit_def Let_def)+
  show "wf_deque (push_commit sd x q)"
    unfolding wf_deque_def range' cap' using hd' wf
    by (auto simp: data' state' wf_deque_def)
  show "dq_list (push_commit sd x q) = add_at sd x (dq_list q)"
    unfolding dq_list_def range' using out
    by (auto simp: data' intro!: arg_cong [where f = "add_at sd x"])
qed

lemma pop_commit_wf:
  assumes wf: "wf_deque q" and ne: "dq_list q \<noteq> []"
  obtains x where
    "data_at q (pop_slot sd (dq_capacity q) (own_index sd q)) = Some x"
    "state_at q (pop_slot sd (dq_capacity q) (own_index sd q)) = SLOT_READY"
    "dq_list q = add_at sd x (dq_list (pop_commit sd q))"
    "wf_deque (pop_commit sd q)" "dq_capacity (pop_commit sd q) = dq_capacity q"
proof -
  let ?c = "dq_capacity q" and ?i = "own_index sd q"
  let ?k = "pop_slot sd ?c ?i" and ?t = "pop_target sd ?c ?i"
  let ?q = "set_own_index sd ?t q"
  note idx = wf_dequeD(1,2) [OF wf]
  have ne': "?i \<noteq> other_index sd q" using wf ne by (simp add: pop_empty_iff)
  note R = dq_range_pop [OF idx ne']
  have i: "?i < ?c" using wf by (rule own_index_less)
  then have k: "?k < ?c" and t: "?t < ?c" by (rule pop_slot_less, rule pop_target_less)
  have kin: "?k \<in> set (dq_range q)" by (subst R) simp
  obtain x where x: "data_at q ?k = Some x" using wf_dequeD(5) [OF wf kin] by blast
  have "distinct (add_at sd ?k (dq_range ?q))" by (subst R [symmetric]) (rule distinct_dq_range)
  then have out: "?k \<notin> set (dq_range ?q)" by simp
  have range': "dq_range (pop_commit sd q) = dq_range ?q"
    by (simp add: pop_commit_def Let_def dq_range_slot_update)
  have cap': "dq_capacity (pop_commit sd q) = ?c" by (simp add: pop_commit_def Let_def)
  have data': "data_at (pop_commit sd q) j = (if j = ?k then None else data_at q j)" for j
    using k by (simp add: pop_commit_def Let_def)
  have state': "state_at (pop_commit sd q) j = (if j = ?k then SLOT_EMPTY else state_at q j)" for j
    using k by (simp add: pop_commit_def Let_def)
  have hd': "head (pop_commit sd q) < ?c" "tail (pop_commit sd q) < ?c"
    using idx t by (cases sd; simp add: pop_commit_def Let_def)+
  have old: "j \<in> set (dq_range q) \<longleftrightarrow> j = ?k \<or> j \<in> set (dq_range ?q)" for j
    by (subst R) simp
  have wf': "wf_deque (pop_commit sd q)"
    unfolding wf_deque_def range' cap' using hd' wf out
    by (auto simp: data' state' wf_deque_def old)
  have list': "dq_list q = add_at sd x (dq_list (pop_commit sd q))"
  proof -
    have "map (\<lambda>j. the (data_at q j)) (dq_range ?q) = dq_list (pop_commit sd q)"
      unfolding dq_list_def range' using out by (auto simp: data')
    then show ?thesis unfolding dq_list_def [of q] by (subst R) (simp add: x)
  qed
  show thesis by (rule that [OF x wf_dequeD(4) [OF wf kin] list' wf' cap'])
qed


subsection \<open>The contract of a bounded double-ended queue\<close>

text \<open>
  What a client of the deque may rely on: each operation returns, and acts on the sequence
  \<open>list\<close> of a deque that satisfies \<open>invar\<close> as an operation on a two-ended list of at most
  \<open>bound\<close> elements.
\<close>

locale bounded_deque =
  fixes add :: "side \<Rightarrow> 'q \<Rightarrow> 'a \<Rightarrow> ('q \<times> 'a dq_result) option"
    and take_at :: "side \<Rightarrow> 'q \<Rightarrow> ('q \<times> 'a dq_result) option"
    and list :: "'q \<Rightarrow> 'a list"
    and invar :: "'q \<Rightarrow> bool"
    and bound :: "'q \<Rightarrow> nat"
  assumes list_bound: "invar q \<Longrightarrow> length (list q) \<le> bound q"
    and add_full: "invar q \<Longrightarrow> length (list q) = bound q \<Longrightarrow> add sd q x = Some (q, PushErr x)"
    and add_room: "invar q \<Longrightarrow> length (list q) < bound q \<Longrightarrow>
      \<exists>q'. add sd q x = Some (q', PushOk) \<and> invar q' \<and> bound q' = bound q \<and>
        list q' = add_at sd x (list q)"
    and take_empty: "invar q \<Longrightarrow> list q = [] \<Longrightarrow> take_at sd q = Some (q, PopNone)"
    and take_some: "invar q \<Longrightarrow> list q \<noteq> [] \<Longrightarrow>
      \<exists>q' x. take_at sd q = Some (q', PopSome x) \<and> invar q' \<and> bound q' = bound q \<and>
        list q = add_at sd x (list q')"
begin

lemma add_returns: "invar q \<Longrightarrow> \<exists>q' r. add sd q x = Some (q', r) \<and> invar q' \<and> bound q' = bound q"
  using list_bound [of q] add_full [of q] add_room [of q] by (metis le_neq_implies_less)

lemma add_then_take:
  assumes "invar q" "length (list q) < bound q"
  shows "\<exists>q1 q2. add sd q x = Some (q1, PushOk) \<and> take_at sd q1 = Some (q2, PopSome x) \<and>
    invar q2 \<and> list q2 = list q"
proof -
  obtain q1 where q1: "add sd q x = Some (q1, PushOk)" "invar q1" "list q1 = add_at sd x (list q)"
    using add_room [OF assms] by blast
  then have "list q1 \<noteq> []" by (cases sd) simp_all
  then obtain q2 y where q2: "take_at sd q1 = Some (q2, PopSome y)" "invar q2"
      "list q1 = add_at sd y (list q2)"
    using take_some [OF q1(2)] by blast
  then have "y = x" "list q2 = list q" using q1(3) by (cases sd; simp)+
  with q1 q2 show ?thesis by blast
qed

lemma take_front_hd:
  assumes "invar q" "list q = x # xs"
  shows "\<exists>q'. take_at Front q = Some (q', PopSome x) \<and> invar q' \<and> bound q' = bound q \<and> list q' = xs"
  using take_some [OF assms(1), of Front] assms(2) by auto

end

fun dq_add :: "side \<Rightarrow> 'a deque \<Rightarrow> 'a \<Rightarrow> ('a deque \<times> 'a dq_result) option" where
  "dq_add Front q x = push_front q x"
| "dq_add Back q x = push_back q x"

fun dq_take :: "side \<Rightarrow> 'a deque \<Rightarrow> ('a deque \<times> 'a dq_result) option" where
  "dq_take Front q = pop_front q"
| "dq_take Back q = pop_back q"

lemma dq_add_exec: "dq_add sd q x = dq_exec q (PushLoad sd x)"
  by (cases sd) (simp_all add: push_front_def push_back_def)

lemma dq_take_exec: "dq_take sd q = dq_exec q (PopLoad sd)"
  by (cases sd) (simp_all add: pop_front_def pop_back_def)

lemma dq_add_room:
  assumes "wf_deque q" "length (dq_list q) < dq_capacity q - 1"
  shows "dq_add sd q x = Some (push_commit sd x q, PushOk)"
  using assms push_commit_wf(3) [OF assms, of sd]
  by (simp add: dq_add_exec dq_exec_push_ok push_full_iff)

lemma dq_add_full:
  assumes "wf_deque q" "length (dq_list q) = dq_capacity q - 1"
  shows "dq_add sd q x = Some (q, PushErr x)"
  using assms wf_dequeD(1) [of q] by (simp add: dq_add_exec dq_exec_push_full push_full_iff)

lemma dq_take_some:
  assumes "wf_deque q" "dq_list q \<noteq> []"
  obtains x where "dq_take sd q = Some (pop_commit sd q, PopSome x)" "wf_deque (pop_commit sd q)"
    "dq_list q = add_at sd x (dq_list (pop_commit sd q))"
    "dq_capacity (pop_commit sd q) = dq_capacity q"
proof (rule pop_commit_wf [OF assms, of sd])
  fix x
  let ?k = "pop_slot sd (dq_capacity q) (own_index sd q)"
  assume x: "data_at q ?k = Some x" "state_at q ?k = SLOT_READY"
    and rest: "dq_list q = add_at sd x (dq_list (pop_commit sd q))" "wf_deque (pop_commit sd q)"
      "dq_capacity (pop_commit sd q) = dq_capacity q"
  have "own_index sd q \<noteq> other_index sd q" using assms by (simp add: pop_empty_iff)
  then have "dq_take sd q = Some (pop_commit sd q, PopSome x)"
    unfolding dq_take_exec using own_index_less [OF assms(1)] x(2,1) by (rule dq_exec_pop_ok)
  then show thesis using rest(2,1,3) by (rule that)
qed

lemma dq_take_empty: "wf_deque q \<Longrightarrow> dq_list q = [] \<Longrightarrow> dq_take sd q = Some (q, PopNone)"
  by (simp add: dq_take_exec dq_exec_pop_empty pop_empty_iff)

interpretation dq: bounded_deque dq_add dq_take dq_list wf_deque "\<lambda>q. dq_capacity q - 1"
proof
  show "length (dq_list q) \<le> dq_capacity q - 1" if "wf_deque q" for q :: "'a deque"
    using length_dq_list [OF that] by simp
  show "dq_add sd q x = Some (q, PushErr x)"
    if "wf_deque q" "length (dq_list q) = dq_capacity q - 1" for sd q and x :: 'a
    using that by (rule dq_add_full)
  show "\<exists>q'. dq_add sd q x = Some (q', PushOk) \<and> wf_deque q' \<and>
      dq_capacity q' - 1 = dq_capacity q - 1 \<and> dq_list q' = add_at sd x (dq_list q)"
    if "wf_deque q" "length (dq_list q) < dq_capacity q - 1" for sd q and x :: 'a
    using that by (simp add: dq_add_room push_commit_wf)
  show "dq_take sd q = Some (q, PopNone)"
    if "wf_deque q" "dq_list q = []" for sd and q :: "'a deque"
    using that by (rule dq_take_empty)
  show "\<exists>q' x. dq_take sd q = Some (q', PopSome x) \<and> wf_deque q' \<and>
      dq_capacity q' - 1 = dq_capacity q - 1 \<and> dq_list q = add_at sd x (dq_list q')"
    if wf: "wf_deque q" "dq_list q \<noteq> []" for sd and q :: "'a deque"
    by (rule dq_take_some [OF wf, of sd]) metis
qed

subsection \<open>Length, emptiness and drop\<close>

lemma dq_snapshot_eq: "dq_snapshot q = Some (q, Snapshot (head q) (tail q))"
  by (simp add: dq_snapshot_def dq_exec.simps dq_step_def)

lemma dq_len_wf: "wf_deque q \<Longrightarrow> dq_len q = Some (length (dq_list q))"
  by (simp add: dq_len_def dq_snapshot_eq dq_list_def length_dq_range)

lemma dq_is_empty_wf: "wf_deque q \<Longrightarrow> dq_is_empty q = Some (dq_list q = [])"
  using pop_empty_iff [of q Front] by (simp add: dq_is_empty_def dq_snapshot_eq)

lemma dq_drop_wf:
  "wf_deque q \<Longrightarrow> \<exists>q'. dq_drop q = Some q' \<and> wf_deque q' \<and> dq_list q' = [] \<and> dq_capacity q' = dq_capacity q"
proof (induction "dq_list q" arbitrary: q)
  case Nil
  then have "pop_front q = Some (q, PopNone)" using dq_take_empty [of q Front] by simp
  with Nil show ?case by (simp add: dq_drop.simps [of q])
next
  case (Cons x xs)
  then have "dq_list q \<noteq> []" by (metis list.discI)
  then obtain y where y: "pop_front q = Some (pop_commit Front q, PopSome y)"
      "wf_deque (pop_commit Front q)" "dq_list q = y # dq_list (pop_commit Front q)"
      "dq_capacity (pop_commit Front q) = dq_capacity q"
    using dq_take_some [OF Cons.prems, of Front] by (metis add_at.simps(1) dq_take.simps(1))
  then show ?case
    using Cons.hyps(1) [of "pop_commit Front q"] Cons.hyps(2) by (simp add: dq_drop.simps [of q])
qed

end
