(* ===== verification/Deque_Conc.thy ===== *)
theory Deque_Conc
  imports Deque_Seq
begin

text \<open>
  The deque under concurrent use: any number of threads, each running one operation at a time,
  interleaved at the single shared accesses of \<open>dq_step\<close>. A ghost component records for each
  slot the item its current reservation was made for; it is written by the successful
  compare-exchange of a push and read by no code.
\<close>

subsection \<open>Threads sharing one deque\<close>

record 'a dq_sys =
  shared :: "'a deque"
  pcs :: "nat \<Rightarrow> 'a pc"
  ghost :: "nat \<Rightarrow> 'a option"

fun is_start :: "'a pc \<Rightarrow> bool" where
  "is_start (PushLoad sd x) = True"
| "is_start (PopLoad sd) = True"
| "is_start ObsLoad = True"
| "is_start p = False"

fun ghost_step :: "'a pc \<Rightarrow> 'a pc \<Rightarrow> (nat \<Rightarrow> 'a option) \<Rightarrow> (nat \<Rightarrow> 'a option)" where
  "ghost_step (PushCas sd x i) (PushWrite y k) g = g(k := Some x)"
| "ghost_step p p' g = g"

definition sys_new :: "nat \<Rightarrow> 'a dq_sys" where
  "sys_new cap = \<lparr>shared = dq_new cap, pcs = (\<lambda>_. Finished PopNone), ghost = (\<lambda>_. None)\<rparr>"

datatype 'a sys_event = Invoke nat "'a pc" | Run nat bool

fun sys_next :: "'a dq_sys \<Rightarrow> 'a sys_event \<Rightarrow> 'a dq_sys option" where
  "sys_next s (Invoke i p) =
     (if is_finished (pcs s i) \<and> is_start p then Some (s\<lparr>pcs := (pcs s)(i := p)\<rparr>) else None)"
| "sys_next s (Run i sp) =
     (if is_finished (pcs s i) then None
      else case dq_step sp (shared s) (pcs s i) of (q', p') \<Rightarrow>
        Some (s\<lparr>shared := q', pcs := (pcs s)(i := p'), ghost := ghost_step (pcs s i) p' (ghost s)\<rparr>))"

text \<open>
  \<open>pushing\<close>: a push that has not yet won its compare-exchange of the index. \<open>has_room\<close>: the
  elements present and all such pushes together still fit, one slot staying free.
\<close>

fun pushing :: "'a pc \<Rightarrow> bool" where
  "pushing (PushLoad sd x) = True"
| "pushing (PushLoadOther sd x i) = True"
| "pushing (PushReload sd x i j) = True"
| "pushing (PushClaim sd x i) = True"
| "pushing (PushCas sd x i) = True"
| "pushing (PushRelease sd x k) = True"
| "pushing p = False"

definition pushers :: "'a dq_sys \<Rightarrow> nat set" where
  "pushers s = {i. pushing (pcs s i)}"

definition has_room :: "'a dq_sys \<Rightarrow> bool" where
  "has_room s \<longleftrightarrow> finite (pushers s) \<and>
     length (dq_range (shared s)) + card (pushers s) < dq_capacity (shared s)"

inductive sys_reach :: "bool \<Rightarrow> nat \<Rightarrow> 'a dq_sys \<Rightarrow> bool" for roomy cap where
  start: "0 < cap \<Longrightarrow> sys_reach roomy cap (sys_new cap)"
| step: "sys_reach roomy cap s \<Longrightarrow> sys_next s e = Some s' \<Longrightarrow> (roomy \<Longrightarrow> has_room s') \<Longrightarrow>
    sys_reach roomy cap s'"

fun sys_run :: "'a sys_event list \<Rightarrow> 'a dq_sys \<Rightarrow> 'a dq_sys option" where
  "sys_run [] s = Some s"
| "sys_run (e # es) s = (case sys_next s e of None \<Rightarrow> None | Some s' \<Rightarrow> sys_run es s')"

lemma sys_run_reach: "sys_reach False cap s \<Longrightarrow> sys_run es s = Some s' \<Longrightarrow> sys_reach False cap s'"
  by (induction es arbitrary: s) (auto split: option.splits intro: sys_reach.step)

subsection \<open>The abstract queue object\<close>

text \<open>
  The specification: one atomic action between the call and the return of an operation takes
  effect on a list. A push and a pop may also be refused (\<open>PushErr\<close>, \<open>PopNone\<close>) without effect.
\<close>

datatype 'a dq_op = OpPush side 'a | OpPop side | OpObserve

datatype 'a op_status = Pending "'a dq_op" | Linearised "'a dq_result" | Returned "'a dq_result"

inductive op_step :: "'a list \<Rightarrow> 'a op_status \<Rightarrow> 'a list \<Rightarrow> 'a op_status \<Rightarrow> bool" where
  call: "op_step l (Returned r) l (Pending op)"
| push: "op_step l (Pending (OpPush sd x)) (add_at sd x l) (Linearised PushOk)"
| pop: "op_step (add_at sd x l) (Pending (OpPop sd)) l (Linearised (PopSome x))"
| return: "op_step l (Linearised r) l (Returned r)"
| refuse_push: "op_step l (Pending (OpPush sd x)) l (Returned (PushErr x))"
| refuse_pop: "op_step l (Pending (OpPop sd)) l (Returned PopNone)"
| observe: "op_step l (Pending OpObserve) l (Returned (Snapshot h t))"
| internal: "op_step l a l a"

inductive spec_step ::
  "'a list \<times> (nat \<Rightarrow> 'a op_status) \<Rightarrow> 'a list \<times> (nat \<Rightarrow> 'a op_status) \<Rightarrow> bool" where
  thread: "op_step l (st i) l' b \<Longrightarrow> spec_step (l, st) (l', st(i := b))"

fun abs_status :: "(nat \<Rightarrow> 'a option) \<Rightarrow> 'a pc \<Rightarrow> 'a op_status" where
  "abs_status g (PushLoad sd x) = Pending (OpPush sd x)"
| "abs_status g (PushLoadOther sd x i) = Pending (OpPush sd x)"
| "abs_status g (PushReload sd x i j) = Pending (OpPush sd x)"
| "abs_status g (PushClaim sd x i) = Pending (OpPush sd x)"
| "abs_status g (PushCas sd x i) = Pending (OpPush sd x)"
| "abs_status g (PushRelease sd x k) = Pending (OpPush sd x)"
| "abs_status g (PushWrite x k) = Linearised PushOk"
| "abs_status g (PushReady k) = Linearised PushOk"
| "abs_status g (PopLoad sd) = Pending (OpPop sd)"
| "abs_status g (PopLoadOther sd i) = Pending (OpPop sd)"
| "abs_status g (PopReload sd i j) = Pending (OpPop sd)"
| "abs_status g (PopClaim sd i) = Pending (OpPop sd)"
| "abs_status g (PopCas sd i) = Pending (OpPop sd)"
| "abs_status g (PopRestore sd k) = Pending (OpPop sd)"
| "abs_status g (PopRead k) = Linearised (PopSome (the (g k)))"
| "abs_status g (PopFree k x) = Linearised (PopSome x)"
| "abs_status g ObsLoad = Pending OpObserve"
| "abs_status g (ObsLoadTail h) = Pending OpObserve"
| "abs_status g (ObsReload h t) = Pending OpObserve"
| "abs_status g (Finished r) = Returned r"

definition abs_list :: "'a dq_sys \<Rightarrow> 'a list" where
  "abs_list s = map (\<lambda>k. the (ghost s k)) (dq_range (shared s))"

definition abs_sys :: "'a dq_sys \<Rightarrow> 'a list \<times> (nat \<Rightarrow> 'a op_status)" where
  "abs_sys s = (abs_list s, \<lambda>i. abs_status (ghost s) (pcs s i))"

subsection \<open>The invariant\<close>

text \<open>The slot a thread has claimed and not yet given back.\<close>

fun owned :: "nat \<Rightarrow> 'a pc \<Rightarrow> nat option" where
  "owned cap (PushCas sd x i) = Some (push_slot sd cap i)"
| "owned cap (PushRelease sd x k) = Some k"
| "owned cap (PushWrite x k) = Some k"
| "owned cap (PushReady k) = Some k"
| "owned cap (PopCas sd i) = Some (pop_slot sd cap i)"
| "owned cap (PopRestore sd k) = Some k"
| "owned cap (PopRead k) = Some k"
| "owned cap (PopFree k x) = Some k"
| "owned cap p = None"

text \<open>The loaded own index, still to be used.\<close>

fun loaded :: "'a pc \<Rightarrow> nat option" where
  "loaded (PushLoadOther sd x i) = Some i"
| "loaded (PushReload sd x i j) = Some i"
| "loaded (PushClaim sd x i) = Some i"
| "loaded (PushCas sd x i) = Some i"
| "loaded (PopLoadOther sd i) = Some i"
| "loaded (PopReload sd i j) = Some i"
| "loaded (PopClaim sd i) = Some i"
| "loaded (PopCas sd i) = Some i"
| "loaded p = None"

text \<open>What a thread knows of its slot: the slot's state, whether it lies in the occupied range
  \<open>inr\<close>, its payload \<open>d\<close> and its ghost item \<open>g\<close>.\<close>

fun slot_claim :: "'a pc \<Rightarrow> slot_state \<Rightarrow> bool \<Rightarrow> 'a option \<Rightarrow> 'a option \<Rightarrow> bool" where
  "slot_claim (PushCas sd x i) st inr d g = (st = SLOT_WRITING \<and> \<not> inr)"
| "slot_claim (PushRelease sd x k) st inr d g = (st = SLOT_WRITING \<and> \<not> inr)"
| "slot_claim (PushWrite x k) st inr d g = (st = SLOT_WRITING \<and> inr \<and> g = Some x)"
| "slot_claim (PushReady k) st inr d g = (st = SLOT_WRITING \<and> inr \<and> d = g \<and> g \<noteq> None)"
| "slot_claim (PopCas sd i) st inr d g = (st = SLOT_READING \<and> inr)"
| "slot_claim (PopRestore sd k) st inr d g = (st = SLOT_READING \<and> inr)"
| "slot_claim (PopRead k) st inr d g = (st = SLOT_READING \<and> \<not> inr \<and> d = g \<and> g \<noteq> None)"
| "slot_claim (PopFree k x) st inr d g = (st = SLOT_READING \<and> \<not> inr \<and> g = Some x)"
| "slot_claim p st inr d g = True"

definition claim_ok :: "'a deque \<Rightarrow> (nat \<Rightarrow> 'a option) \<Rightarrow> 'a pc \<Rightarrow> nat \<Rightarrow> bool" where
  "claim_ok q g p k \<longleftrightarrow> k < dq_capacity q \<and>
     slot_claim p (state_at q k) (k \<in> set (dq_range q)) (data_at q k) (g k)"

definition pc_ok :: "'a deque \<Rightarrow> (nat \<Rightarrow> 'a option) \<Rightarrow> 'a pc \<Rightarrow> bool" where
  "pc_ok q g p \<longleftrightarrow>
     (\<forall>i. loaded p = Some i \<longrightarrow> i < dq_capacity q) \<and>
     (\<forall>k. owned (dq_capacity q) p = Some k \<longrightarrow> claim_ok q g p k) \<and>
     p \<noteq> Finished DqUndefined \<and> p \<noteq> Finished DqPanic"

definition slot_ok :: "'a deque \<Rightarrow> (nat \<Rightarrow> 'a option) \<Rightarrow> nat \<Rightarrow> bool" where
  "slot_ok q g k \<longleftrightarrow>
     (k \<in> set (dq_range q) \<longrightarrow> state_at q k \<noteq> SLOT_EMPTY \<and> g k \<noteq> None \<and>
        (state_at q k \<noteq> SLOT_WRITING \<longrightarrow> data_at q k = g k)) \<and>
     (state_at q k = SLOT_READY \<longrightarrow> k \<in> set (dq_range q))"

definition busy :: "slot_state \<Rightarrow> bool" where
  "busy st \<longleftrightarrow> st = SLOT_WRITING \<or> st = SLOT_READING"

definition sys_inv :: "nat \<Rightarrow> 'a dq_sys \<Rightarrow> bool" where
  "sys_inv cap s \<longleftrightarrow>
     dq_capacity (shared s) = cap \<and> head (shared s) < cap \<and> tail (shared s) < cap \<and>
     (\<forall>k < cap. slot_ok (shared s) (ghost s) k) \<and>
     (\<forall>i. pc_ok (shared s) (ghost s) (pcs s i)) \<and>
     (\<forall>i j k. owned cap (pcs s i) = Some k \<longrightarrow> owned cap (pcs s j) = Some k \<longrightarrow> i = j) \<and>
     (\<forall>k < cap. busy (state_at (shared s) k) \<longrightarrow> (\<exists>i. owned cap (pcs s i) = Some k)) \<and>
     has_room s"

lemma sys_invD:
  assumes "sys_inv cap s"
  shows "dq_capacity (shared s) = cap" "head (shared s) < cap" "tail (shared s) < cap"
    "k < cap \<Longrightarrow> slot_ok (shared s) (ghost s) k"
    "pc_ok (shared s) (ghost s) (pcs s i)"
    "owned cap (pcs s i) = Some k \<Longrightarrow> owned cap (pcs s j) = Some k \<Longrightarrow> i = j"
    "k < cap \<Longrightarrow> busy (state_at (shared s) k) \<Longrightarrow> \<exists>i. owned cap (pcs s i) = Some k"
    "has_room s"
  using assms unfolding sys_inv_def by blast+

lemma sys_invI:
  assumes "dq_capacity (shared s) = cap" "head (shared s) < cap" "tail (shared s) < cap"
    and "\<And>k. k < cap \<Longrightarrow> slot_ok (shared s) (ghost s) k"
    and "\<And>i. pc_ok (shared s) (ghost s) (pcs s i)"
    and "\<And>i j k. owned cap (pcs s i) = Some k \<Longrightarrow> owned cap (pcs s j) = Some k \<Longrightarrow> i = j"
    and "\<And>k. k < cap \<Longrightarrow> busy (state_at (shared s) k) \<Longrightarrow> \<exists>i. owned cap (pcs s i) = Some k"
    and "has_room s"
  shows "sys_inv cap s"
  using assms unfolding sys_inv_def by blast

lemma sys_inv_new: "0 < cap \<Longrightarrow> sys_inv cap (sys_new cap)"
  by (simp add: sys_inv_def sys_new_def dq_new_def dq_capacity_def slot_ok_def pc_ok_def busy_def
      dq_range_def empty_slot_def has_room_def pushers_def)

text \<open>A claimed slot is in a busy state, so it is no one else's to claim.\<close>

lemma claim_ok_busy: "claim_ok q g p k \<Longrightarrow> owned (dq_capacity q) p = Some k \<Longrightarrow> busy (state_at q k)"
  by (cases p) (auto simp: claim_ok_def busy_def)


subsection \<open>Steps that touch one slot, and steps that touch none\<close>

definition slot_same :: "'a deque \<Rightarrow> (nat \<Rightarrow> 'a option) \<Rightarrow> 'a deque \<Rightarrow> (nat \<Rightarrow> 'a option) \<Rightarrow> nat \<Rightarrow> bool" where
  "slot_same q g q' g' k \<longleftrightarrow>
     state_at q' k = state_at q k \<and> data_at q' k = data_at q k \<and>
     (k \<in> set (dq_range q') \<longleftrightarrow> k \<in> set (dq_range q)) \<and> g' k = g k"

definition quiet_step :: "nat \<Rightarrow> 'a deque \<Rightarrow> (nat \<Rightarrow> 'a option) \<Rightarrow> 'a pc \<Rightarrow> 'a pc \<Rightarrow> bool" where
  "quiet_step cap q g p p' \<longleftrightarrow>
     owned cap p = None \<and> owned cap p' = None \<and> pc_ok q g p' \<and> (pushing p' \<longrightarrow> pushing p)"

definition slot_step ::
  "nat \<Rightarrow> 'a deque \<Rightarrow> (nat \<Rightarrow> 'a option) \<Rightarrow> 'a pc \<Rightarrow> 'a deque \<Rightarrow> (nat \<Rightarrow> 'a option) \<Rightarrow> 'a pc \<Rightarrow> nat \<Rightarrow> bool"
where
  "slot_step cap q g p q' g' p' K \<longleftrightarrow>
     K < cap \<and> dq_capacity q' = cap \<and> head q' < cap \<and> tail q' < cap \<and>
     (owned cap p = Some K \<or> owned cap p = None \<and> \<not> busy (state_at q K)) \<and>
     (\<forall>k < cap. k \<noteq> K \<longrightarrow> slot_same q g q' g' k) \<and>
     (owned cap p' = Some K \<or> owned cap p' = None \<and> \<not> busy (state_at q' K)) \<and>
     slot_ok q' g' K \<and> pc_ok q' g' p' \<and>
     length (dq_range q') + (if pushing p' then 1 else 0) \<le>
     length (dq_range q) + (if pushing p then 1 else 0)"

lemma slot_ok_same: "slot_same q g q' g' k \<Longrightarrow> slot_ok q g k \<Longrightarrow> slot_ok q' g' k"
  by (simp add: slot_same_def slot_ok_def)

lemma pc_ok_same:
  assumes "pc_ok q g p" "dq_capacity q' = dq_capacity q"
    and "\<And>k. owned (dq_capacity q) p = Some k \<Longrightarrow> k < dq_capacity q \<Longrightarrow> slot_same q g q' g' k"
  shows "pc_ok q' g' p"
  using assms by (auto simp: pc_ok_def claim_ok_def slot_same_def)

lemma pushers_update:
  "pushers (s\<lparr>shared := q', pcs := (pcs s)(i := p'), ghost := g'\<rparr>) =
     (if pushing p' then insert i (pushers s) else pushers s - {i})"
  by (auto simp: pushers_def)

lemma card_pushers_update:
  assumes "finite (pushers s)"
  shows "card (pushers (s\<lparr>shared := q', pcs := (pcs s)(i := p'), ghost := g'\<rparr>)) +
      (if pushing (pcs s i) then 1 else 0) = card (pushers s) + (if pushing p' then 1 else 0)"
proof -
  have i: "i \<in> pushers s \<longleftrightarrow> pushing (pcs s i)" by (simp add: pushers_def)
  have "i \<in> pushers s \<Longrightarrow> 0 < card (pushers s)" using assms by (auto simp: card_gt_0_iff)
  then show ?thesis unfolding pushers_update using assms i
    by (auto simp: card_insert_if card_Diff_singleton_if)
qed

lemma has_room_update:
  assumes "has_room s" "dq_capacity q' = dq_capacity (shared s)"
    and "length (dq_range q') + (if pushing p' then 1 else 0) \<le>
      length (dq_range (shared s)) + (if pushing (pcs s i) then 1 else 0)"
  shows "has_room (s\<lparr>shared := q', pcs := (pcs s)(i := p'), ghost := g'\<rparr>)"
proof -
  have fin: "finite (pushers s)" using assms(1) by (simp add: has_room_def)
  have "finite (pushers (s\<lparr>shared := q', pcs := (pcs s)(i := p'), ghost := g'\<rparr>))"
    unfolding pushers_update using fin by simp
  then show ?thesis
    using card_pushers_update [OF fin, where q' = q' and i = i and p' = p' and g' = g'] assms
    by (simp add: has_room_def)
qed

lemma quiet_step_inv:
  assumes inv: "sys_inv cap s"
    and qs: "quiet_step cap (shared s) (ghost s) (pcs s i) p'"
  shows "sys_inv cap (s\<lparr>pcs := (pcs s)(i := p')\<rparr>)" (is "sys_inv cap ?s")
proof -
  have room: "has_room ?s"
    using has_room_update [OF sys_invD(8) [OF inv], where q' = "shared s" and i = i and p' = p'
        and g' = "ghost s"] qs
    by (simp add: quiet_step_def)
  have holder: "\<exists>j. owned cap (pcs ?s j) = Some k"
    if k: "k < cap" "busy (state_at (shared s) k)" for k
  proof -
    obtain j where "owned cap (pcs s j) = Some k" using sys_invD(7) [OF inv k] by blast
    then show ?thesis using qs by (intro exI [of _ j]) (auto simp: quiet_step_def)
  qed
  have own: "owned cap (pcs ?s j) = owned cap (pcs s j)" for j
    using qs by (simp add: quiet_step_def)
  have pcs': "pc_ok (shared s) (ghost s) (pcs ?s j)" for j
    using qs sys_invD(5) [OF inv, of j] by (simp add: quiet_step_def)
  show ?thesis
  proof (rule sys_invI)
    show "j = l" if "owned cap (pcs ?s j) = Some k" "owned cap (pcs ?s l) = Some k" for j l k
      using that unfolding own by (rule sys_invD(6) [OF inv])
    show "pc_ok (shared ?s) (ghost ?s) (pcs ?s j)" for j using pcs' by simp
  qed (use sys_invD(1-4) [OF inv] holder room in simp_all)
qed

lemma slot_step_inv:
  assumes inv: "sys_inv cap s"
    and st: "slot_step cap (shared s) (ghost s) (pcs s i) q' g' p' K"
  shows "sys_inv cap (s\<lparr>shared := q', pcs := (pcs s)(i := p'), ghost := g'\<rparr>)" (is "sys_inv cap ?s")
proof -
  note cap = sys_invD(1) [OF inv]
  have K: "K < cap" and cap': "dq_capacity q' = cap" using st by (simp_all add: slot_step_def)
  have same: "slot_same (shared s) (ghost s) q' g' k" if "k < cap" "k \<noteq> K" for k
    using st that by (simp add: slot_step_def)
  have foreign: "owned cap (pcs s j) \<noteq> Some K" if "j \<noteq> i" for j
  proof
    assume j: "owned cap (pcs s j) = Some K"
    then have "claim_ok (shared s) (ghost s) (pcs s j) K"
      using sys_invD(5) [OF inv, of j] cap by (simp add: pc_ok_def)
    then have "busy (state_at (shared s) K)" using claim_ok_busy j cap by blast
    then have "owned cap (pcs s i) = Some K" using st by (auto simp: slot_step_def)
    then show False using sys_invD(6) [OF inv j] that by blast
  qed
  have room: "has_room ?s"
    using sys_invD(8) [OF inv] by (rule has_room_update) (use st cap in \<open>simp_all add: slot_step_def\<close>)
  have pcs': "pc_ok q' g' (pcs ?s j)" for j
  proof (cases "j = i")
    case True
    with st show ?thesis by (simp add: slot_step_def)
  next
    case False
    have "pc_ok q' g' (pcs s j)"
      using sys_invD(5) [OF inv, of j]
    proof (rule pc_ok_same)
      show "slot_same (shared s) (ghost s) q' g' k"
        if "owned (dq_capacity (shared s)) (pcs s j) = Some k" "k < dq_capacity (shared s)" for k
        using same [of k] foreign [OF False] that cap by auto
    qed (simp add: cap cap')
    with False show ?thesis by simp
  qed
  have slots: "slot_ok q' g' k" if "k < cap" for k
    using st same [OF that] sys_invD(4) [OF inv that] by (auto simp: slot_step_def intro: slot_ok_same)
  have own': "owned cap p' = Some k \<Longrightarrow> k = K" for k using st by (auto simp: slot_step_def)
  have uniq: "j = l" if "owned cap (pcs ?s j) = Some k" "owned cap (pcs ?s l) = Some k" for j l k
    using that foreign [of j] foreign [of l] own' sys_invD(6) [OF inv, of j k l]
    by (auto split: if_splits)
  have holder: "\<exists>j. owned cap (pcs ?s j) = Some k" if k: "k < cap" "busy (state_at q' k)" for k
  proof (cases "k = K")
    case True
    with k st show ?thesis by (intro exI [of _ i]) (auto simp: slot_step_def)
  next
    case False
    then have "busy (state_at (shared s) k)" using same [OF k(1)] k(2) by (simp add: slot_same_def)
    then obtain j where j: "owned cap (pcs s j) = Some k" using sys_invD(7) [OF inv k(1)] by blast
    have "j \<noteq> i" using st j False by (auto simp: slot_step_def)
    with j show ?thesis by (intro exI [of _ j]) simp
  qed
  have idx: "head q' < cap" "tail q' < cap" using st by (simp_all add: slot_step_def)
  have sh: "shared ?s = q'" and gh: "ghost ?s = g'" by simp_all
  show ?thesis
    by (rule sys_invI, unfold sh gh)
      (erule (1) uniq | erule (1) holder | erule slots | rule pcs' room cap' idx)+
qed


subsection \<open>Every access of the code is such a step\<close>

lemma room_for_push:
  assumes inv: "sys_inv cap s" and i: "pushing (pcs s i)"
  shows "push_target sd cap (own_index sd (shared s)) \<noteq> other_index sd (shared s)"
proof -
  have "0 < card (pushers s)"
    using sys_invD(8) [OF inv] i by (auto simp: has_room_def pushers_def card_gt_0_iff)
  then have "Suc (length (dq_range (shared s))) < cap"
    using sys_invD(1,8) [OF inv] by (simp add: has_room_def)
  then show ?thesis
    using sys_invD(1-3) [OF inv]
    by (cases sd) (simp_all add: dq_range_def length_ring_range ring_full_iff_next ring_full_iff_prev)
qed

lemma own_other_less:
  "head q < cap \<Longrightarrow> tail q < cap \<Longrightarrow> own_index sd q < cap \<and> other_index sd q < cap"
  by (cases sd) simp_all

lemma slot_update_simps [simp]:
  "dq_range (set_slot_state k st q) = dq_range q"
  "k < dq_capacity q \<Longrightarrow> state_at (set_own_index sd i q) k = state_at q k"
  "k < dq_capacity q \<Longrightarrow> data_at (set_own_index sd i q) k = data_at q k"
  by simp_all

lemmas step_kind_defs = quiet_step_def slot_step_def slot_same_def pc_ok_def claim_ok_def slot_ok_def busy_def

lemma push_cas_win:
  assumes inv: "sys_inv cap s" and p: "pcs s i = PushCas sd x j" and j: "own_index sd (shared s) = j"
  shows "slot_step cap (shared s) (ghost s) (pcs s i)
    (set_own_index sd (push_target sd cap j) (shared s))
    ((ghost s)(push_slot sd cap j := Some x)) (PushWrite x (push_slot sd cap j)) (push_slot sd cap j)"
proof -
  let ?q = "shared s" and ?K = "push_slot sd cap j"
  note cap = sys_invD(1) [OF inv] and idx = sys_invD(2,3) [OF inv]
  have jc: "j < cap" using own_other_less [OF idx, of sd] j by simp
  have nf: "push_target sd cap j \<noteq> other_index sd ?q"
    using room_for_push [OF inv, of i sd] p j by simp
  have R: "dq_range (set_own_index sd (push_target sd cap j) ?q) = add_at sd ?K (dq_range ?q)"
    using dq_range_push [of ?q sd] idx nf j cap by simp
  have K: "?K < cap" using jc by (rule push_slot_less)
  have claim: "claim_ok ?q (ghost s) (PushCas sd x j) ?K"
    using sys_invD(5) [OF inv, of i] p cap by (simp add: pc_ok_def)
  have idx': "head (set_own_index sd (push_target sd cap j) ?q) < cap"
      "tail (set_own_index sd (push_target sd cap j) ?q) < cap"
    using set_own_index_less [of ?q "push_target sd cap j" sd] idx push_target_less [OF jc] cap by simp_all
  show ?thesis
    using K claim idx' cap by (auto simp: p step_kind_defs R)
qed

lemma pop_cas_win:
  assumes inv: "sys_inv cap s" and p: "pcs s i = PopCas sd j" and j: "own_index sd (shared s) = j"
  shows "slot_step cap (shared s) (ghost s) (pcs s i)
    (set_own_index sd (pop_target sd cap j) (shared s)) (ghost s)
    (PopRead (pop_slot sd cap j)) (pop_slot sd cap j)"
    and "dq_range (shared s) = add_at sd (pop_slot sd cap j)
      (dq_range (set_own_index sd (pop_target sd cap j) (shared s)))"
proof -
  let ?q = "shared s" and ?K = "pop_slot sd cap j"
  let ?q' = "set_own_index sd (pop_target sd cap j) ?q"
  note cap = sys_invD(1) [OF inv] and idx = sys_invD(2,3) [OF inv]
  have jc: "j < cap" using own_other_less [OF idx, of sd] j by simp
  have K: "?K < cap" using jc by (rule pop_slot_less)
  have claim: "claim_ok ?q (ghost s) (PopCas sd j) ?K"
    using sys_invD(5) [OF inv, of i] p cap by (simp add: pc_ok_def)
  then have "dq_range ?q \<noteq> []" by (auto simp: claim_ok_def)
  then have ne: "own_index sd ?q \<noteq> other_index sd ?q"
    using idx cap by (cases sd) (auto simp: dq_range_def ring_range_Nil)
  show R: "dq_range ?q = add_at sd ?K (dq_range ?q')"
    using dq_range_pop [of ?q sd] idx ne j cap by simp
  have out: "?K \<notin> set (dq_range ?q')"
    using distinct_dq_range [of ?q] unfolding R by simp
  have mem: "k \<in> set (dq_range ?q) \<longleftrightarrow> k = ?K \<or> k \<in> set (dq_range ?q')" for k by (subst R) simp
  have len: "length (dq_range ?q) = Suc (length (dq_range ?q'))" by (subst R) simp
  have idx': "head ?q' < cap" "tail ?q' < cap"
    using set_own_index_less [of ?q "pop_target sd cap j" sd] idx pop_target_less [OF jc] cap by simp_all
  show "slot_step cap ?q (ghost s) (pcs s i) ?q' (ghost s) (PopRead ?K) ?K"
    using K claim idx' cap out sys_invD(4) [OF inv K] by (auto simp: p step_kind_defs mem len)
qed

lemma push_step_kinds:
  assumes inv: "sys_inv cap s" and push: "is_push_pc (pcs s i)"
    and st: "dq_push_step sp (shared s) (pcs s i) = (q', p')"
  shows "q' = shared s \<and> ghost_step (pcs s i) p' (ghost s) = ghost s \<and>
      quiet_step cap (shared s) (ghost s) (pcs s i) p' \<or>
    (\<exists>K. slot_step cap (shared s) (ghost s) (pcs s i) q' (ghost_step (pcs s i) p' (ghost s)) p' K)"
proof -
  note cap = sys_invD(1) [OF inv] and idx = sys_invD(2,3) [OF inv]
  have ok: "pc_ok (shared s) (ghost s) (pcs s i)" by (rule sys_invD(5) [OF inv])
  have slots: "\<And>k. k < cap \<Longrightarrow> slot_ok (shared s) (ghost s) k" by (rule sys_invD(4) [OF inv])
  show ?thesis
  proof (cases "pcs s i")
    case (PushLoad sd x)
    with st own_other_less [OF idx, of sd] cap show ?thesis by (auto simp: quiet_step_def pc_ok_def)
  next
    case (PushLoadOther sd x j)
    with st ok show ?thesis by (auto simp: quiet_step_def pc_ok_def)
  next
    case (PushReload sd x j l)
    with st ok cap show ?thesis by (auto simp: quiet_step_def pc_ok_def split: if_splits)
  next
    case (PushClaim sd x j)
    then have K: "push_slot sd cap j < cap" using ok cap by (simp add: pc_ok_def push_slot_less)
    show ?thesis
    proof (cases "\<not> sp \<and> state_at (shared s) (push_slot sd cap j) = SLOT_EMPTY")
      case True
      then have "slot_step cap (shared s) (ghost s) (pcs s i) q' (ghost s) p' (push_slot sd cap j)"
        using PushClaim st K slots [OF K] ok cap idx by (auto simp: step_kind_defs Let_def)
      then show ?thesis using PushClaim st True cap by (auto simp: Let_def)
    next
      case False
      then show ?thesis using PushClaim st cap by (auto simp: Let_def quiet_step_def pc_ok_def)
    qed
  next
    case (PushCas sd x j)
    show ?thesis
    proof (cases "\<not> sp \<and> own_index sd (shared s) = j")
      case True
      then show ?thesis
        using push_cas_win [OF inv PushCas] st cap PushCas by (auto simp: Let_def)
    next
      case False
      have K: "push_slot sd cap j < cap" using ok cap PushCas by (simp add: pc_ok_def push_slot_less)
      have "slot_step cap (shared s) (ghost s) (pcs s i) q' (ghost s) p' (push_slot sd cap j)"
        using False PushCas st K slots [OF K] ok cap idx by (auto simp: step_kind_defs Let_def)
      then show ?thesis using False PushCas st by (auto simp: Let_def)
    qed
  next
    case (PushRelease sd x k)
    then have K: "k < cap" using ok cap by (simp add: pc_ok_def claim_ok_def)
    have "slot_step cap (shared s) (ghost s) (pcs s i) q' (ghost s) p' k"
      using PushRelease st K ok cap idx by (auto simp: step_kind_defs)
    then show ?thesis using PushRelease by auto
  next
    case (PushWrite x k)
    then have K: "k < cap" using ok cap by (simp add: pc_ok_def claim_ok_def)
    have "slot_step cap (shared s) (ghost s) (pcs s i) q' (ghost s) p' k"
      using PushWrite st K slots [OF K] ok cap idx by (auto simp: step_kind_defs)
    then show ?thesis using PushWrite by auto
  next
    case (PushReady k)
    then have K: "k < cap" using ok cap by (simp add: pc_ok_def claim_ok_def)
    have "slot_step cap (shared s) (ghost s) (pcs s i) q' (ghost s) p' k"
      using PushReady st K slots [OF K] ok cap idx by (auto simp: step_kind_defs)
    then show ?thesis using PushReady by auto
  qed (use push in simp_all)
qed


lemma pop_step_kinds:
  assumes inv: "sys_inv cap s" and pop: "\<not> is_push_pc (pcs s i)" "\<not> is_obs_pc (pcs s i)"
      "\<not> is_finished (pcs s i)"
    and st: "dq_pop_step sp (shared s) (pcs s i) = (q', p')"
  shows "q' = shared s \<and> ghost_step (pcs s i) p' (ghost s) = ghost s \<and>
      quiet_step cap (shared s) (ghost s) (pcs s i) p' \<or>
    (\<exists>K. slot_step cap (shared s) (ghost s) (pcs s i) q' (ghost_step (pcs s i) p' (ghost s)) p' K)"
proof -
  note cap = sys_invD(1) [OF inv] and idx = sys_invD(2,3) [OF inv]
  have ok: "pc_ok (shared s) (ghost s) (pcs s i)" by (rule sys_invD(5) [OF inv])
  have slots: "\<And>k. k < cap \<Longrightarrow> slot_ok (shared s) (ghost s) k" by (rule sys_invD(4) [OF inv])
  show ?thesis
  proof (cases "pcs s i")
    case (PopLoad sd)
    with st own_other_less [OF idx, of sd] cap show ?thesis by (auto simp: quiet_step_def pc_ok_def)
  next
    case (PopLoadOther sd j)
    with st ok show ?thesis by (auto simp: quiet_step_def pc_ok_def)
  next
    case (PopReload sd j l)
    with st ok cap show ?thesis by (auto simp: quiet_step_def pc_ok_def split: if_splits)
  next
    case (PopClaim sd j)
    then have K: "pop_slot sd cap j < cap" using ok cap by (simp add: pc_ok_def pop_slot_less)
    show ?thesis
    proof (cases "\<not> sp \<and> state_at (shared s) (pop_slot sd cap j) = SLOT_READY")
      case True
      then have "slot_step cap (shared s) (ghost s) (pcs s i) q' (ghost s) p' (pop_slot sd cap j)"
        using PopClaim st K slots [OF K] ok cap idx by (auto simp: step_kind_defs Let_def)
      then show ?thesis using PopClaim st True cap by (auto simp: Let_def)
    next
      case False
      then show ?thesis using PopClaim st cap
        by (auto simp: Let_def quiet_step_def pc_ok_def split: if_splits)
    qed
  next
    case (PopCas sd j)
    show ?thesis
    proof (cases "\<not> sp \<and> own_index sd (shared s) = j")
      case True
      then show ?thesis
        using pop_cas_win(1) [OF inv PopCas] st cap PopCas by (auto simp: Let_def)
    next
      case False
      have K: "pop_slot sd cap j < cap" using ok cap PopCas by (simp add: pc_ok_def pop_slot_less)
      have "slot_step cap (shared s) (ghost s) (pcs s i) q' (ghost s) p' (pop_slot sd cap j)"
        using False PopCas st K slots [OF K] ok cap idx by (auto simp: step_kind_defs Let_def)
      then show ?thesis using False PopCas st by (auto simp: Let_def)
    qed
  next
    case (PopRestore sd k)
    then have K: "k < cap" using ok cap by (simp add: pc_ok_def claim_ok_def)
    have "slot_step cap (shared s) (ghost s) (pcs s i) q' (ghost s) p' k"
      using PopRestore st K slots [OF K] ok cap idx by (auto simp: step_kind_defs)
    then show ?thesis using PopRestore by auto
  next
    case (PopRead k)
    then have K: "k < cap" and claim: "claim_ok (shared s) (ghost s) (PopRead k) k"
      using ok cap by (simp_all add: pc_ok_def claim_ok_def)
    then obtain x where x: "data_at (shared s) k = Some x" "ghost s k = Some x"
      by (auto simp: claim_ok_def)
    have "slot_step cap (shared s) (ghost s) (pcs s i) q' (ghost s) p' k"
      using PopRead st K claim x ok cap idx by (auto simp: step_kind_defs)
    then show ?thesis using PopRead by auto
  next
    case (PopFree k x)
    then have K: "k < cap" using ok cap by (simp add: pc_ok_def claim_ok_def)
    have "slot_step cap (shared s) (ghost s) (pcs s i) q' (ghost s) p' k"
      using PopFree st K slots [OF K] ok cap idx by (auto simp: step_kind_defs)
    then show ?thesis using PopFree by auto
  qed (use pop in simp_all)
qed

lemma sys_next_inv:
  assumes inv: "sys_inv cap s" and nx: "sys_next s e = Some s'" and room: "has_room s'"
  shows "sys_inv cap s'"
proof (cases e)
  case (Invoke i p)
  then have p: "is_finished (pcs s i)" "is_start p" and s': "s' = s\<lparr>pcs := (pcs s)(i := p)\<rparr>"
    using nx by (auto split: if_splits)
  have own: "owned cap (pcs s' j) = owned cap (pcs s j)" for j
    using p s' by (cases "pcs s i"; cases p) auto
  have pcs': "pc_ok (shared s) (ghost s) (pcs s' j)" for j
    using sys_invD(5) [OF inv, of j] p s' by (cases p) (auto simp: pc_ok_def)
  have sh: "shared s' = shared s" "ghost s' = ghost s" using s' by simp_all
  show ?thesis
    by (rule sys_invI, unfold sh own)
      (use sys_invD(1-4) [OF inv] sys_invD(6,7) [OF inv] pcs' room in blast)+
next
  case (Run i sp)
  then have nf: "\<not> is_finished (pcs s i)" using nx by (auto split: if_splits)
  obtain q' p' where st: "dq_step sp (shared s) (pcs s i) = (q', p')" by fastforce
  have s': "s' = s\<lparr>shared := q', pcs := (pcs s)(i := p'), ghost := ghost_step (pcs s i) p' (ghost s)\<rparr>"
    using nx Run nf st by simp
  have "q' = shared s \<and> ghost_step (pcs s i) p' (ghost s) = ghost s \<and>
      quiet_step cap (shared s) (ghost s) (pcs s i) p' \<or>
    (\<exists>K. slot_step cap (shared s) (ghost s) (pcs s i) q' (ghost_step (pcs s i) p' (ghost s)) p' K)"
  proof (cases "is_obs_pc (pcs s i)")
    case True
    then show ?thesis
      using st by (cases "pcs s i") (auto simp: dq_step_def quiet_step_def pc_ok_def split: if_splits)
  next
    case False
    then show ?thesis
      using st push_step_kinds [OF inv, of i sp q' p'] pop_step_kinds [OF inv, of i sp q' p'] nf
      by (auto simp: dq_step_def split: if_splits)
  qed
  then show ?thesis
    unfolding s' using quiet_step_inv [OF inv] slot_step_inv [OF inv] by fastforce
qed

lemma sys_reach_inv: "sys_reach True cap s \<Longrightarrow> sys_inv cap s"
proof (induction rule: sys_reach.induct)
  case start
  then show ?case by (rule sys_inv_new)
next
  case (step s e s')
  then show ?case by (simp add: sys_next_inv)
qed


subsection \<open>Refinement of the abstract object\<close>

lemma abs_status_ghost: "(\<And>k. p \<noteq> PopRead k) \<Longrightarrow> abs_status g p = abs_status g' p"
  by (cases p) auto

lemma ghost_step_id:
  assumes "\<nexists>sd x l y. p = PushCas sd x l \<and> p' = PushWrite y k"
  shows "ghost_step p p' g k = g k"
proof (cases "\<exists>sd x l. p = PushCas sd x l")
  case True
  with assms show ?thesis by (cases p') auto
qed (cases p; simp)

lemma ghost_step_other:
  assumes inv: "sys_inv cap s" and ij: "j \<noteq> i"
    and st: "dq_step sp (shared s) (pcs s i) = (q', p')"
  shows "abs_status (ghost_step (pcs s i) p' (ghost s)) (pcs s j) = abs_status (ghost s) (pcs s j)"
proof (cases "\<exists>sd x l y k. pcs s i = PushCas sd x l \<and> p' = PushWrite y k \<and> pcs s j = PopRead k")
  case True
  then obtain sd x l y k where e: "pcs s i = PushCas sd x l" "p' = PushWrite y k" "pcs s j = PopRead k"
    by blast
  then have "k = push_slot sd cap l"
    using st sys_invD(1) [OF inv] by (auto simp: dq_step_def Let_def split: if_splits)
  then have "owned cap (pcs s i) = Some k" "owned cap (pcs s j) = Some k" using e by simp_all
  then show ?thesis using sys_invD(6) [OF inv] ij by blast
next
  case False
  show ?thesis
  proof (cases "\<exists>k. pcs s j = PopRead k")
    case True
    then obtain k where k: "pcs s j = PopRead k" by blast
    with False have "ghost_step (pcs s i) p' (ghost s) k = ghost s k" by (intro ghost_step_id) blast
    with k show ?thesis by simp
  next
    case False
    then show ?thesis by (intro abs_status_ghost) blast
  qed
qed

lemma abs_sys_update:
  assumes inv: "sys_inv cap s" and st: "dq_step sp (shared s) (pcs s i) = (q', p')"
    and s': "s' = s\<lparr>shared := q', pcs := (pcs s)(i := p'), ghost := ghost_step (pcs s i) p' (ghost s)\<rparr>"
    and op: "op_step (abs_list s) (abs_status (ghost s) (pcs s i)) (abs_list s')
      (abs_status (ghost_step (pcs s i) p' (ghost s)) p')"
  shows "spec_step (abs_sys s) (abs_sys s')"
proof -
  have eq: "(\<lambda>j. abs_status (ghost s') (pcs s' j)) =
      (\<lambda>j. abs_status (ghost s) (pcs s j))(i := abs_status (ghost_step (pcs s i) p' (ghost s)) p')"
    using ghost_step_other [OF inv _ st] by (auto simp: s' fun_eq_iff)
  show ?thesis unfolding abs_sys_def eq by (rule spec_step.thread) (rule op)
qed

lemma push_cas_list:
  assumes inv: "sys_inv cap s" and p: "pcs s i = PushCas sd x j" and j: "own_index sd (shared s) = j"
    and s': "shared s' = set_own_index sd (push_target sd cap j) (shared s)"
      "ghost s' = (ghost s)(push_slot sd cap j := Some x)"
  shows "abs_list s' = add_at sd x (abs_list s)"
proof -
  let ?q = "shared s" and ?K = "push_slot sd cap j"
  note cap = sys_invD(1) [OF inv] and idx = sys_invD(2,3) [OF inv]
  have nf: "push_target sd cap j \<noteq> other_index sd ?q"
    using room_for_push [OF inv, of i sd] p j by simp
  have R: "dq_range (shared s') = add_at sd ?K (dq_range ?q)"
    using dq_range_push [of ?q sd] idx nf j cap s' by simp
  have "claim_ok ?q (ghost s) (PushCas sd x j) ?K"
    using sys_invD(5) [OF inv, of i] p cap by (simp add: pc_ok_def)
  then have "?K \<notin> set (dq_range ?q)" by (simp add: claim_ok_def)
  then have "map (\<lambda>k. the (ghost s' k)) (dq_range ?q) = abs_list s"
    by (auto simp: abs_list_def s')
  then show ?thesis unfolding abs_list_def [of s'] R by (simp add: s')
qed

lemma pop_cas_list:
  assumes inv: "sys_inv cap s" and p: "pcs s i = PopCas sd j" and j: "own_index sd (shared s) = j"
    and s': "shared s' = set_own_index sd (pop_target sd cap j) (shared s)" "ghost s' = ghost s"
  shows "abs_list s = add_at sd (the (ghost s (pop_slot sd cap j))) (abs_list s')"
  unfolding abs_list_def pop_cas_win(2) [OF inv p j] by (simp add: s')

declare op_step.internal [simp]

lemma run_op_step:
  assumes inv: "sys_inv cap s" and nf: "\<not> is_finished (pcs s i)"
    and st: "dq_step sp (shared s) (pcs s i) = (q', p')"
    and s': "s' = s\<lparr>shared := q', pcs := (pcs s)(i := p'), ghost := ghost_step (pcs s i) p' (ghost s)\<rparr>"
  shows "op_step (abs_list s) (abs_status (ghost s) (pcs s i)) (abs_list s')
      (abs_status (ghost_step (pcs s i) p' (ghost s)) p')"
proof -
  note cap = sys_invD(1) [OF inv]
  have pos: "0 < dq_capacity (shared s)" using sys_invD(1,2) [OF inv] by simp
  show ?thesis
  proof (cases "pcs s i")
    case (PushCas sd x j)
    show ?thesis
    proof (cases "\<not> sp \<and> own_index sd (shared s) = j")
      case True
      then have "abs_list s' = add_at sd x (abs_list s)"
        using push_cas_list [OF inv PushCas, of s'] st PushCas cap s'
        by (auto simp: dq_step_def Let_def)
      then show ?thesis using True PushCas st by (auto simp: dq_step_def Let_def intro: op_step.push)
    next
      case False
      then show ?thesis using PushCas st s'
        by (auto simp: dq_step_def Let_def abs_list_def )
    qed
  next
    case (PopCas sd j)
    show ?thesis
    proof (cases "\<not> sp \<and> own_index sd (shared s) = j")
      case True
      then have "abs_list s = add_at sd (the (ghost s (pop_slot sd cap j))) (abs_list s')"
        using pop_cas_list [OF inv PopCas, of s'] st PopCas cap s'
        by (auto simp: dq_step_def Let_def)
      then show ?thesis using True PopCas st cap
        by (auto simp: dq_step_def Let_def intro: op_step.pop)
    next
      case False
      then show ?thesis using PopCas st s'
        by (auto simp: dq_step_def Let_def abs_list_def )
    qed
  next
    case (PopRead k)
    then have "claim_ok (shared s) (ghost s) (PopRead k) k"
      using sys_invD(5) [OF inv, of i] by (simp add: pc_ok_def)
    then show ?thesis using PopRead st s'
      by (auto simp: dq_step_def abs_list_def claim_ok_def)
  next
    case (Finished r)
    with nf show ?thesis by simp
  qed (use st s' pos in \<open>auto simp: dq_step_def Let_def abs_list_def split: if_splits
      intro: op_step.intros\<close>)
qed

lemma sys_next_refines:
  assumes inv: "sys_inv cap s" and nx: "sys_next s e = Some s'"
  shows "spec_step (abs_sys s) (abs_sys s')"
proof (cases e)
  case (Invoke i p)
  then have p: "is_finished (pcs s i)" "is_start p" and s': "s' = s\<lparr>pcs := (pcs s)(i := p)\<rparr>"
    using nx by (auto split: if_splits)
  have eq: "(\<lambda>j. abs_status (ghost s') (pcs s' j)) =
      (\<lambda>j. abs_status (ghost s) (pcs s j))(i := abs_status (ghost s) p)"
    by (auto simp: s' fun_eq_iff)
  have l: "abs_list s' = abs_list s" by (simp add: s' abs_list_def)
  show ?thesis unfolding abs_sys_def eq l
    by (rule spec_step.thread) (use p in \<open>cases "pcs s i"; cases p; auto intro: op_step.call\<close>)
next
  case (Run i sp)
  then have nf: "\<not> is_finished (pcs s i)" using nx by (auto split: if_splits)
  obtain q' p' where st: "dq_step sp (shared s) (pcs s i) = (q', p')" by fastforce
  have s': "s' = s\<lparr>shared := q', pcs := (pcs s)(i := p'), ghost := ghost_step (pcs s i) p' (ghost s)\<rparr>"
    using nx Run nf st by simp
  show ?thesis using abs_sys_update [OF inv st s' run_op_step [OF inv nf st s']] .
qed

end
