(* ===== verification/Deque_Limits.thy ===== *)
theory Deque_Limits
  imports Deque_Conc
begin

text \<open>
  What the concurrent deque guarantees, and where its guarantees end: the safety and refinement
  theorems while the elements and the pushes under way fit, and executions of the code beyond
  that limit or with a suspended thread in which its documented behaviour fails.
\<close>

subsection \<open>Quiescent states\<close>

lemma unowned_wf:
  assumes inv: "sys_inv cap s" and own: "\<And>i. owned cap (pcs s i) = None"
  shows "wf_deque (shared s)" "dq_list (shared s) = abs_list s"
proof -
  note cap = sys_invD(1) [OF inv]
  have calm: "\<not> busy (state_at (shared s) k)" if "k < cap" for k
    using sys_invD(7) [OF inv that] own by auto
  have "state_at (shared s) k = SLOT_READY \<and> data_at (shared s) k = ghost s k \<and> ghost s k \<noteq> None"
    if "k \<in> set (dq_range (shared s))" for k
  proof -
    have k: "k < cap" using that sys_invD(1-3) [OF inv] by (auto simp: dq_range_def dest: ring_range_less)
    then show ?thesis using sys_invD(4) [OF inv k] calm [OF k] that
      by (cases "state_at (shared s) k") (auto simp: slot_ok_def busy_def)
  qed
  note ready = this
  have empty: "state_at (shared s) k = SLOT_EMPTY" if "k < cap" "k \<notin> set (dq_range (shared s))" for k
    using sys_invD(4) [OF inv that(1)] calm [OF that(1)] that(2)
    by (cases "state_at (shared s) k") (auto simp: slot_ok_def busy_def)
  show "wf_deque (shared s)"
    unfolding wf_deque_def using ready empty sys_invD(1-3) [OF inv] by auto
  show "dq_list (shared s) = abs_list s"
    unfolding dq_list_def abs_list_def using ready by auto
qed

lemma quiescent_wf:
  assumes inv: "sys_inv cap s" and fin: "\<And>i. is_finished (pcs s i)"
  shows "wf_deque (shared s)" "dq_list (shared s) = abs_list s"
proof -
  have "owned cap (pcs s i) = None" for i using fin [of i] by (cases "pcs s i") simp_all
  then show "wf_deque (shared s)" "dq_list (shared s) = abs_list s" using unowned_wf [OF inv] by blast+
qed

subsection \<open>Checked executions\<close>

text \<open>Runs of the first \<open>n\<close> threads that check at every state that the pushes fit.\<close>

definition room_below :: "nat \<Rightarrow> 'a dq_sys \<Rightarrow> bool" where
  "room_below n s \<longleftrightarrow> length (dq_range (shared s)) +
     length (filter (\<lambda>i. pushing (pcs s i)) [0..<n]) < dq_capacity (shared s)"

fun event_thread :: "'a sys_event \<Rightarrow> nat" where
  "event_thread (Invoke i p) = i"
| "event_thread (Run i sp) = i"

fun run_room :: "nat \<Rightarrow> 'a sys_event list \<Rightarrow> 'a dq_sys \<Rightarrow> 'a dq_sys list option" where
  "run_room n [] s = Some [s]"
| "run_room n (e # es) s =
     (if event_thread e < n then
        (case sys_next s e of
           None \<Rightarrow> None
         | Some s' \<Rightarrow> if room_below n s' then map_option ((#) s) (run_room n es s') else None)
      else None)"

lemma sys_next_other: "sys_next s e = Some s' \<Longrightarrow> i \<noteq> event_thread e \<Longrightarrow> pcs s' i = pcs s i"
  by (cases e) (auto split: if_splits prod.splits)

lemma has_room_below:
  assumes "\<And>i. n \<le> i \<Longrightarrow> \<not> pushing (pcs s i)"
  shows "has_room s \<longleftrightarrow> room_below n s"
proof -
  have "pushers s = set (filter (\<lambda>i. pushing (pcs s i)) [0..<n])"
    using assms by (auto simp: pushers_def not_le [symmetric])
  then have "finite (pushers s)" "card (pushers s) = length (filter (\<lambda>i. pushing (pcs s i)) [0..<n])"
    by (simp_all add: distinct_card del: set_filter)
  then show ?thesis by (simp add: has_room_def room_below_def)
qed

lemma run_room_reach:
  assumes "sys_reach True cap s" "\<And>i. n \<le> i \<Longrightarrow> \<not> pushing (pcs s i)" "run_room n es s = Some ss"
  shows "ss \<noteq> [] \<and> (\<forall>s' \<in> set ss. sys_reach True cap s')"
  using assms
proof (induction es arbitrary: s ss)
  case Nil
  then show ?case by auto
next
  case (Cons e es)
  then obtain s' ss' where nx: "event_thread e < n" "sys_next s e = Some s'" "room_below n s'"
    "run_room n es s' = Some ss'" "ss = s # ss'"
    by (auto split: if_splits option.splits)
  have np: "\<not> pushing (pcs s' i)" if "n \<le> i" for i
    using sys_next_other [OF nx(2), of i] nx(1) Cons.prems(2) [OF that] that by auto
  have "sys_reach True cap s'"
    using Cons.prems(1) nx(2,3) has_room_below [OF np] by (auto intro: sys_reach.step)
  then show ?case using Cons.IH [OF _ np nx(4)] Cons.prems(1) nx(5) by auto
qed

subsection \<open>Loops that never end\<close>

lemma dq_exec_diverges:
  assumes "(q, p) \<in> C"
    and "\<And>q p. (q, p) \<in> C \<Longrightarrow> \<not> is_finished p \<and> dq_step False q p \<in> C"
  shows "dq_exec q p = None"
proof (rule ccontr)
  assume "dq_exec q p \<noteq> None"
  then obtain r where r: "dq_exec q p = Some r" by auto
  have "(q, p) \<notin> C"
  proof (rule dq_exec.raw_induct [where P = "\<lambda>q p r. (q, p) \<notin> C", OF _ r])
    fix f :: "'a deque \<Rightarrow> 'a pc \<Rightarrow> ('a deque \<times> 'a dq_result) option" and q p r
    assume IH: "\<And>q p r. f q p = Some r \<Longrightarrow> (q, p) \<notin> C"
      and eq: "(if is_finished p then Some (q, finished_result p)
        else f (fst (dq_step False q p)) (snd (dq_step False q p))) = Some r"
    show "(q, p) \<notin> C"
    proof
      assume C: "(q, p) \<in> C"
      then have "f (fst (dq_step False q p)) (snd (dq_step False q p)) = Some r"
        using eq assms(2) by auto
      then have "dq_step False q p \<notin> C" using IH by fastforce
      then show False using assms(2) C by blast
    qed
  qed
  then show False using assms(1) by blast
qed

lemma pop_diverges:
  assumes ne: "own_index sd q \<noteq> other_index sd q"
    and st: "busy (state_at q (pop_slot sd (dq_capacity q) (own_index sd q)))"
  shows "dq_take sd q = None"
proof -
  let ?i = "own_index sd q" and ?j = "other_index sd q"
  show ?thesis unfolding dq_take_exec
    by (rule dq_exec_diverges [where C = "{(q, PopLoad sd), (q, PopLoadOther sd ?i),
        (q, PopReload sd ?i ?j), (q, PopClaim sd ?i)}"])
      (use assms in \<open>auto simp: dq_step_def Let_def busy_def\<close>)
qed

lemma push_diverges:
  assumes nf: "push_target sd (dq_capacity q) (own_index sd q) \<noteq> other_index sd q"
    and cap: "0 < dq_capacity q"
    and st: "state_at q (push_slot sd (dq_capacity q) (own_index sd q)) \<noteq> SLOT_EMPTY"
  shows "dq_add sd q x = None"
proof -
  let ?i = "own_index sd q" and ?j = "other_index sd q"
  show ?thesis unfolding dq_add_exec
    by (rule dq_exec_diverges [where C = "{(q, PushLoad sd x), (q, PushLoadOther sd x ?i),
        (q, PushReload sd x ?i ?j), (q, PushClaim sd x ?i)}"])
      (use assms in \<open>auto simp: dq_step_def Let_def\<close>)
qed

subsection \<open>Concrete executions\<close>

definition steps :: "nat \<Rightarrow> nat \<Rightarrow> 'a sys_event list" where
  "steps n i = replicate n (Run i False)"

text \<open>
  Thread 0 pushes \<open>a\<close>, then claims its slot for \<open>b\<close>; before it moves \<open>tail\<close>, thread 1 pushes
  \<open>c\<close> at the front. Both full tests were right when they were made.
\<close>

definition overfill :: "'a \<Rightarrow> 'a \<Rightarrow> 'a \<Rightarrow> 'a sys_event list" where
  "overfill a b c = Invoke 0 (PushLoad Back a) # steps 7 0 @
     Invoke 0 (PushLoad Back b) # steps 4 0 @ Invoke 1 (PushLoad Front c) # steps 7 1 @ steps 3 0"

text \<open>Thread 1 reads the indices for a pop of a deque holding \<open>a\<close> and \<open>b\<close>; thread 0 pops \<open>a\<close>.\<close>

definition race_setup :: "'a \<Rightarrow> 'a \<Rightarrow> 'a sys_event list" where
  "race_setup a b = Invoke 0 (PushLoad Back a) # steps 7 0 @ Invoke 0 (PushLoad Back b) # steps 7 0"

definition race_pop :: "'a sys_event list" where
  "race_pop = Invoke 1 (PopLoad Front) # steps 3 1 @ Invoke 0 (PopLoad Front) # steps 7 0 @ steps 1 1"

definition observe_run :: "'a dq_sys option \<Rightarrow> ('a deque \<times> 'a pc \<times> 'a pc) option" where
  "observe_run r = map_option (\<lambda>s. (shared s, pcs s 0, pcs s 1)) r"

lemma overfill_run:
  "observe_run (sys_run (overfill 1 2 (3::nat)) (sys_new 3)) = Some
     (\<lparr>buffer = [\<lparr>slot_data = Some 1, slot_state = SLOT_READY\<rparr>,
        \<lparr>slot_data = Some 2, slot_state = SLOT_READY\<rparr>, \<lparr>slot_data = Some 3, slot_state = SLOT_READY\<rparr>],
        head = 2, tail = 2\<rparr>, Finished PushOk, Finished PushOk)"
  by code_simp

lemma sys_run_other:
  "sys_run es s = Some s' \<Longrightarrow> (\<And>e. e \<in> set es \<Longrightarrow> event_thread e < n) \<Longrightarrow> n \<le> i \<Longrightarrow> pcs s' i = pcs s i"
proof (induction es arbitrary: s)
  case Nil
  then show ?case by simp
next
  case (Cons e es)
  then obtain s1 where s1: "sys_next s e = Some s1" "sys_run es s1 = Some s'"
    by (auto split: option.splits)
  have "pcs s1 i = pcs s i" using sys_next_other [OF s1(1), of i] Cons.prems(2) [of e] Cons.prems(3) by auto
  then show ?case using Cons.IH [OF s1(2) _ Cons.prems(3)] Cons.prems(2) by auto
qed

lemma run_room_other:
  "run_room n es s = Some ss \<Longrightarrow> n \<le> i \<Longrightarrow> pcs (last ss) i = pcs s i"
proof (induction es arbitrary: s ss)
  case Nil
  then show ?case by auto
next
  case (Cons e es)
  then obtain s' ss' where nx: "event_thread e < n" "sys_next s e = Some s'"
    "run_room n es s' = Some ss'" "ss = s # ss'"
    by (auto split: if_splits option.splits)
  have "ss' \<noteq> []" using nx(3) by (cases es) (auto split: if_splits option.splits)
  then show ?case
    using Cons.IH [OF nx(3) Cons.prems(2)] sys_next_other [OF nx(2), of i] nx(1,4) Cons.prems(2) by auto
qed

lemma race_setup_room:
  "map_option (\<lambda>ss. let s = last ss in (shared s, pcs s 0, pcs s 1, map the (map (ghost s) [0,1])))
     (run_room 2 (race_setup 1 (2::nat)) (sys_new 4)) = Some
     (\<lparr>buffer = [\<lparr>slot_data = Some 1, slot_state = SLOT_READY\<rparr>, \<lparr>slot_data = Some 2, slot_state = SLOT_READY\<rparr>,
        \<lparr>slot_data = None, slot_state = SLOT_EMPTY\<rparr>, \<lparr>slot_data = None, slot_state = SLOT_EMPTY\<rparr>],
        head = 0, tail = 2\<rparr>, Finished PushOk, Finished PopNone, [1, 2])"
  by code_simp

lemma race_pop_room:
  "map_option (\<lambda>ss. (pcs (last ss) 1, list_all (\<lambda>s. abs_list s \<noteq> []) (drop 17 ss),
      pcs (ss ! 17) 1))
     (run_room 2 (race_setup 1 (2::nat) @ race_pop) (sys_new 4)) =
   Some (Finished PopNone, True, PopLoad Front)"
  by code_simp

lemma stalled_room:
  "map_option (\<lambda>ss. let s = last ss in (shared s, pcs s 0, map (ghost s) [0]))
     (run_room 2 (Invoke 0 (PushLoad Back (1::nat)) # steps 5 0) (sys_new 4)) = Some
     (\<lparr>buffer = [\<lparr>slot_data = None, slot_state = SLOT_WRITING\<rparr>, \<lparr>slot_data = None, slot_state = SLOT_EMPTY\<rparr>,
        \<lparr>slot_data = None, slot_state = SLOT_EMPTY\<rparr>, \<lparr>slot_data = None, slot_state = SLOT_EMPTY\<rparr>],
        head = 0, tail = 1\<rparr>, PushWrite 1 0, [Some 1])"
  by code_simp

lemma sys_new_idle: "\<not> pushing (pcs (sys_new cap) i)"
  by (simp add: sys_new_def)

lemma run_room_new:
  assumes "run_room n es (sys_new cap) = Some ss" "0 < cap" "s \<in> set ss"
  shows "sys_reach True cap s"
  using run_room_reach [OF sys_reach.start [OF assms(2)] sys_new_idle assms(1)] assms(3) by blast

lemma run_room_last:
  assumes "run_room n es (sys_new cap) = Some ss" "0 < cap"
  shows "sys_reach True cap (last ss)" "ss \<noteq> []"
  using run_room_reach [OF sys_reach.start [OF assms(2)] sys_new_idle assms(1)] by auto

subsection \<open>Properties\<close>

lemma race_setup_reach:
  "\<exists>s. sys_reach True 4 s \<and> is_finished (pcs s 1) \<and> abs_list s = [1, 2 :: nat] \<and>
     (\<forall>i. is_finished (pcs s i))"
proof -
  from race_setup_room obtain ss where ss: "run_room 2 (race_setup 1 (2::nat)) (sys_new 4) = Some ss"
    unfolding map_option_eq_Some by blast
  note r = run_room_last [OF ss]
  have obs: "shared (last ss) = \<lparr>buffer = [\<lparr>slot_data = Some 1, slot_state = SLOT_READY\<rparr>,
        \<lparr>slot_data = Some 2, slot_state = SLOT_READY\<rparr>, \<lparr>slot_data = None, slot_state = SLOT_EMPTY\<rparr>,
        \<lparr>slot_data = None, slot_state = SLOT_EMPTY\<rparr>], head = 0, tail = 2\<rparr>"
      "pcs (last ss) 0 = Finished PushOk" "pcs (last ss) 1 = Finished PopNone"
      "the (ghost (last ss) 0) = 1" "the (ghost (last ss) 1) = 2"
    using race_setup_room ss by (simp_all add: Let_def)
  have rest: "is_finished (pcs (last ss) i)" for i
  proof (cases "i < 2")
    case True
    then show ?thesis using obs(2,3) by (cases i) (auto simp: less_Suc_eq numeral_2_eq_2)
  next
    case False
    have "pcs (last ss) i = pcs (sys_new 4) i"
      by (rule run_room_other [OF ss]) (use False in simp)
    then show ?thesis by (simp add: sys_new_def)
  qed
  have "abs_list (last ss) = [1, 2]"
    using obs(4,5) by (simp add: abs_list_def obs(1) dq_range_def dq_capacity_def ring_range_def upt_conv_Cons)
  then show ?thesis using r rest by (intro exI [of _ "last ss"]) simp
qed







text \<open>run alone on a well-formed deque, each push returns: it refuses the item and changes
  nothing exactly when \<open>CAPACITY - 1\<close> elements are present, and otherwise adds the item at its
  end.\<close>

theorem deque_push_correct:
  assumes "wf_deque q"
  shows "if length (dq_list q) = dq_capacity q - 1
    then push_front q x = Some (q, PushErr x) \<and> push_back q x = Some (q, PushErr x)
    else (\<exists>f b. push_front q x = Some (f, PushOk) \<and> wf_deque f \<and> dq_list f = x # dq_list q \<and>
      push_back q x = Some (b, PushOk) \<and> wf_deque b \<and> dq_list b = dq_list q @ [x] \<and>
      dq_capacity f = dq_capacity q \<and> dq_capacity b = dq_capacity q)"
proof (cases "length (dq_list q) = dq_capacity q - 1")
  case True
  then show ?thesis using dq_add_full [OF assms True, of Front] dq_add_full [OF assms True, of Back] by simp
next
  case False
  then have room: "length (dq_list q) < dq_capacity q - 1" using length_dq_list [OF assms] by simp
  show ?thesis
    using False dq_add_room [OF assms room, of Front] dq_add_room [OF assms room, of Back]
      push_commit_wf [OF assms room, of Front] push_commit_wf [OF assms room, of Back] by simp
qed

theorem deque_push_correct_witness:
  "(\<exists>b. push_back (dq_new 3) (7::nat) = Some (b, PushOk) \<and> dq_list b = [7]) \<and>
   push_back (dq_new 1) (7::nat) = Some (dq_new 1, PushErr 7)"
  using deque_push_correct [OF wf_dq_new [of 3], of "7::nat"]
    deque_push_correct [OF wf_dq_new [of 1], of "7::nat"]
  by auto

text \<open>run alone on a well-formed deque, each pop returns: \<open>None\<close> exactly when the deque is
  empty, otherwise the element at its end, which it removes; the reads are never of an
  uninitialised slot.\<close>

theorem deque_pop_correct:
  assumes "wf_deque q"
  shows "if dq_list q = [] then pop_front q = Some (q, PopNone) \<and> pop_back q = Some (q, PopNone)
    else (\<exists>f b. pop_front q = Some (f, PopSome (hd (dq_list q))) \<and> wf_deque f \<and>
      dq_list f = tl (dq_list q) \<and>
      pop_back q = Some (b, PopSome (last (dq_list q))) \<and> wf_deque b \<and>
      dq_list b = butlast (dq_list q))"
proof (cases "dq_list q = []")
  case True
  then show ?thesis using dq_take_empty [OF assms True, of Front] dq_take_empty [OF assms True, of Back] by simp
next
  case False
  obtain f x where f: "pop_front q = Some (f, PopSome x)" "wf_deque f" "dq_list q = x # dq_list f"
    using dq.take_some [OF assms False, of Front] by auto
  obtain b y where b: "pop_back q = Some (b, PopSome y)" "wf_deque b" "dq_list q = dq_list b @ [y]"
    using dq.take_some [OF assms False, of Back] by auto
  have "hd (dq_list q) = x" "tl (dq_list q) = dq_list f" using f(3) by simp_all
  moreover have "last (dq_list q) = y" "butlast (dq_list q) = dq_list b" using b(3) by simp_all
  ultimately show ?thesis using False f(1,2) b(1,2) by simp
qed

theorem deque_pop_correct_witness:
  "\<exists>q f. wf_deque q \<and> pop_front q = Some (f, PopSome (7::nat)) \<and> dq_list f = []"
proof -
  have new: "wf_deque (dq_new 3 :: nat deque)" "length (dq_list (dq_new 3 :: nat deque)) < dq_capacity (dq_new 3 :: nat deque) - 1"
    by (simp_all add: wf_dq_new)
  obtain q where q: "wf_deque q" "dq_list q = [7::nat]"
    using push_commit_wf(1,2) [OF new, where x = 7 and sd = Back] by auto
  show ?thesis using deque_pop_correct [OF q(1)] q by auto
qed

text \<open>C30: two concurrent pushes can overfill the deque. With \<open>CAPACITY = 3\<close>, three pushes all
  succeed, the three slots are all ready, and \<open>head = tail\<close>: every thread has returned,
  \<open>is_empty\<close> is true and \<open>len\<close> is 0, both pops return \<open>None\<close>, and neither push ever returns again.\<close>

theorem deque_overfill_bug:
  "\<exists>s :: nat dq_sys. sys_reach False 3 s \<and> (\<forall>i. is_finished (pcs s i)) \<and>
     pcs s 0 = Finished PushOk \<and> pcs s 1 = Finished PushOk \<and>
     map slot_state (buffer (shared s)) = [SLOT_READY, SLOT_READY, SLOT_READY] \<and>
     map slot_data (buffer (shared s)) = [Some 1, Some 2, Some 3] \<and>
     dq_is_empty (shared s) = Some True \<and> dq_len (shared s) = Some 0 \<and>
     pop_front (shared s) = Some (shared s, PopNone) \<and> pop_back (shared s) = Some (shared s, PopNone) \<and>
     push_front (shared s) x = None \<and> push_back (shared s) x = None"
proof -
  from overfill_run obtain s where run: "sys_run (overfill 1 2 (3::nat)) (sys_new 3) = Some s"
    unfolding observe_run_def map_option_eq_Some by blast
  then have obs: "shared s = \<lparr>buffer = [\<lparr>slot_data = Some 1, slot_state = SLOT_READY\<rparr>,
        \<lparr>slot_data = Some 2, slot_state = SLOT_READY\<rparr>, \<lparr>slot_data = Some 3, slot_state = SLOT_READY\<rparr>],
        head = 2, tail = 2\<rparr>" "pcs s 0 = Finished PushOk" "pcs s 1 = Finished PushOk"
    using overfill_run by (simp_all add: observe_run_def)
  have fin: "is_finished (pcs s i)" for i
  proof (cases "i < 2")
    case True
    then show ?thesis using obs(2,3) by (cases i) (auto simp: less_Suc_eq numeral_2_eq_2)
  next
    case False
    have "pcs s i = pcs (sys_new 3) i"
      by (rule sys_run_other [OF run, of 2]) (use False in \<open>auto simp: overfill_def steps_def\<close>)
    then show ?thesis by (simp add: sys_new_def)
  qed
  have pops: "dq_take sd (shared s) = Some (shared s, PopNone)" for sd
    unfolding dq_take_exec by (rule dq_exec_pop_empty) (cases sd; simp add: obs(1))
  have pushes: "dq_add sd (shared s) x = None" for sd
    by (rule push_diverges) (cases sd; simp add: obs(1) dq_capacity_def ring_prev_def ring_next_def)+
  have slots: "map slot_state (buffer (shared s)) = [SLOT_READY, SLOT_READY, SLOT_READY]"
      "map slot_data (buffer (shared s)) = [Some 1, Some 2, Some 3]"
    by (simp_all add: obs(1))
  have obsv: "dq_is_empty (shared s) = Some True" "dq_len (shared s) = Some 0"
    by (simp_all add: dq_is_empty_def dq_len_def dq_snapshot_eq ring_len_def) (simp_all add: obs(1))
  show ?thesis
    using sys_run_reach [OF sys_reach.start run] obs(2,3) fin slots obsv
      pops [of Front] pops [of Back] pushes [of Front] pushes [of Back]
    by (intro exI [of _ s]) simp
qed

text \<open>C31: \<open>pop_front\<close> can return \<open>None\<close> although the deque holds an element at every moment of the
  call: a pop that read \<open>head\<close> before another pop emptied that slot takes the empty slot for an
  empty deque.\<close>

theorem deque_pop_spurious_none:
  "\<exists>ss :: nat dq_sys list. run_room 2 (race_setup 1 2 @ race_pop) (sys_new 4) = Some ss \<and>
     list_all (sys_reach True 4) ss \<and> pcs (ss ! 17) 1 = PopLoad Front \<and>
     list_all (\<lambda>s. abs_list s \<noteq> []) (drop 17 ss) \<and> pcs (last ss) 1 = Finished PopNone"
proof -
  from race_pop_room obtain ss where ss: "run_room 2 (race_setup 1 (2::nat) @ race_pop) (sys_new 4) = Some ss"
    unfolding map_option_eq_Some by blast
  then have "pcs (last ss) 1 = Finished PopNone" "pcs (ss ! 17) 1 = PopLoad Front"
      "list_all (\<lambda>s. abs_list s \<noteq> []) (drop 17 ss)"
    using race_pop_room by simp_all
  then show ?thesis using ss run_room_new [OF ss] by (intro exI [of _ ss]) (simp add: list_all_iff)
qed

text \<open>C32: the deque is not lock-free. A push suspended after it moved \<open>tail\<close> and before it marked its
  slot ready leaves a deque of one element on which neither pop ever returns.\<close>

theorem deque_stalled_push_blocks:
  "\<exists>s :: nat dq_sys. sys_reach True 4 s \<and> pcs s 0 = PushWrite 1 0 \<and> abs_list s = [1] \<and>
     pop_front (shared s) = None \<and> pop_back (shared s) = None"
proof -
  from stalled_room obtain ss
    where ss: "run_room 2 (Invoke 0 (PushLoad Back (1::nat)) # steps 5 0) (sys_new 4) = Some ss"
    unfolding map_option_eq_Some by blast
  let ?s = "last ss"
  have obs: "shared ?s = \<lparr>buffer = [\<lparr>slot_data = None, slot_state = SLOT_WRITING\<rparr>,
        \<lparr>slot_data = None, slot_state = SLOT_EMPTY\<rparr>, \<lparr>slot_data = None, slot_state = SLOT_EMPTY\<rparr>,
        \<lparr>slot_data = None, slot_state = SLOT_EMPTY\<rparr>], head = 0, tail = 1\<rparr>"
      "pcs ?s 0 = PushWrite 1 0" "ghost ?s 0 = Some 1"
    using stalled_room ss by (simp_all add: Let_def)
  have "dq_take sd (shared ?s) = None" for sd
    by (rule pop_diverges) (cases sd; simp add: obs(1) dq_capacity_def busy_def ring_prev_def)+
  note this [of Front] this [of Back]
  moreover have "abs_list ?s = [1]"
    by (simp add: abs_list_def obs(1,3) dq_range_def dq_capacity_def ring_range_def)
  ultimately show ?thesis
    using run_room_last(1) [OF ss] obs(2) by (intro exI [of _ ?s]) simp
qed

end
