(* ===== verification/Deque_Tests.thy ===== *)
theory Deque_Tests
  imports Deque_Limits
begin

text \<open>
  The multi-threaded tests of \<^verbatim>\<open>utils/src/deque.rs\<close> as clients of the concurrent deque: producers that push
  their items and then decrement a shared flag, consumers that pop and sum up until the flag is 0 and
  the deque looks empty. A step of the system is one access of one thread, to the deque or to the flag.
\<close>

subsection \<open>The threads\<close>

text \<open>
  What a thread does next, with its live locals: \<open>Produce\<close> the loop over the items left, \<open>Pushing\<close> a push
  under way, \<open>CheckFlag\<close> the first half of the loop condition of a consumer (with the sum so far),
  \<open>Checking\<close> the call of \<^verbatim>\<open>is_empty\<close>, \<open>Popping\<close> the pop of the loop body, \<open>Ended\<close> what the thread returns.
\<close>

datatype tester =
  Produce side "nat list"
| Pushing side "nat list"
| CheckFlag side nat
| Checking side nat
| Popping side nat
| Ended nat

record dq_test =
  dq :: "nat dq_sys"
  flag :: int
  testers :: "nat \<Rightarrow> tester"

definition set_tester :: "nat \<Rightarrow> tester \<Rightarrow> dq_test \<Rightarrow> dq_test" where
  "set_tester i l t = t\<lparr>testers := (testers t)(i := l)\<rparr>"

text \<open>A call of an operation of the deque; the call itself accesses nothing.\<close>

definition call_dq :: "nat \<Rightarrow> nat pc \<Rightarrow> tester \<Rightarrow> dq_test \<Rightarrow> dq_test option" where
  "call_dq i p l t = map_option (\<lambda>s. set_tester i l (t\<lparr>dq := s\<rparr>)) (sys_next (dq t) (Invoke i p))"

definition tester_step :: "nat \<Rightarrow> dq_test \<Rightarrow> dq_test option" where
  "tester_step i t = (case testers t i of
     Produce sd [] \<Rightarrow> Some (set_tester i (Ended 0) (t\<lparr>flag := flag t - 1\<rparr>))
   | Produce sd (x # xs) \<Rightarrow> call_dq i (PushLoad sd x) (Pushing sd xs) t
   | Pushing sd xs \<Rightarrow> Some (set_tester i (Produce sd xs) t)
   | CheckFlag sd n \<Rightarrow>
       if flag t \<noteq> 0 then call_dq i (PopLoad sd) (Popping sd n) t
       else call_dq i ObsLoad (Checking sd n) t
   | Checking sd n \<Rightarrow>
       (case finished_result (pcs (dq t) i) of
          Snapshot h b \<Rightarrow>
            if h = b then Some (set_tester i (Ended n) t)
            else call_dq i (PopLoad sd) (Popping sd n) t
        | _ \<Rightarrow> None)
   | Popping sd n \<Rightarrow>
       (case finished_result (pcs (dq t) i) of
          PopSome x \<Rightarrow> Some (set_tester i (CheckFlag sd (n + x)) t)
        | _ \<Rightarrow> Some (set_tester i (CheckFlag sd n) t))
   | Ended n \<Rightarrow> None)"

text \<open>Thread \<open>i\<close> goes on: inside the operation it has called, or else with its own next statement.\<close>

definition test_next :: "dq_test \<Rightarrow> nat \<Rightarrow> bool \<Rightarrow> dq_test option" where
  "test_next t i sp =
     (if is_finished (pcs (dq t) i) then tester_step i t
      else map_option (\<lambda>s. t\<lparr>dq := s\<rparr>) (sys_next (dq t) (Run i sp)))"

subsection \<open>The test programs\<close>

text \<open>\<open>ps\<close>: for each producer the end it pushes at and its items; \<open>cs\<close>: for each consumer the end it pops at.\<close>

definition dq_test_new :: "(side \<times> nat list) list \<Rightarrow> side list \<Rightarrow> nat \<Rightarrow> dq_test" where
  "dq_test_new ps cs cap = \<lparr>dq = sys_new cap, flag = int (length ps),
     testers = (\<lambda>i. if i < length ps then Produce (fst (ps ! i)) (snd (ps ! i))
       else if i < length ps + length cs then CheckFlag (cs ! (i - length ps)) 0 else Ended 0)\<rparr>"

inductive test_reach :: "dq_test \<Rightarrow> dq_test \<Rightarrow> bool" for t0 where
  start: "test_reach t0 t0"
| step: "test_reach t0 t \<Longrightarrow> test_next t i sp = Some t' \<Longrightarrow> test_reach t0 t'"

text \<open>The sum that the test compares with \<^verbatim>\<open>(0..(3 * pad)).sum()\<close>, once all threads have ended.\<close>

fun is_ended :: "tester \<Rightarrow> bool" where
  "is_ended (Ended n) = True"
| "is_ended l = False"

definition all_ended :: "nat \<Rightarrow> dq_test \<Rightarrow> bool" where
  "all_ended N t = list_all (\<lambda>i. is_ended (testers t i)) [0..<N]"

fun ended_sum :: "tester \<Rightarrow> nat" where
  "ended_sum (Ended n) = n"
| "ended_sum l = 0"

definition popped_sum :: "nat \<Rightarrow> dq_test \<Rightarrow> nat" where
  "popped_sum N t = (\<Sum>i<N. ended_sum (testers t i))"

definition three_parts :: "nat \<Rightarrow> nat list list" where
  "three_parts pad = [[0..<pad], [pad..<2 * pad], [2 * pad..<3 * pad]]"

definition test_mpsc :: dq_test where
  "test_mpsc = dq_test_new (map (Pair Back) (three_parts 64)) [Front] 256"

definition test_mpmc :: dq_test where
  "test_mpmc = dq_test_new (map (Pair Back) (three_parts 64)) [Front, Front] 256"

definition test_mpmc_rev :: dq_test where
  "test_mpmc_rev = dq_test_new (map (Pair Front) (three_parts 64)) [Back, Back] 256"

definition test_mpmc_mix :: dq_test where
  "test_mpmc_mix = dq_test_new (zip [Front, Back, Front] (three_parts 1000)) [Front, Back] 4096"

end
