(* ===== verification/Deque_Tests_Inv.thy ===== *)
theory Deque_Tests_Inv
  imports Deque_Tests
begin

text \<open>
  Tests whose producers all push at one end \<open>sd\<close> and whose consumers all pop at the other: the two indices
  then only move one way, so the ring is used at most once around and the \<open>n\<close>-th value of an index is
  \<open>walk sd cap n\<close>. The invariant counts the pushes \<open>P\<close> and the pops \<open>Q\<close> so far.
\<close>

subsection \<open>Indices that move one way\<close>

fun opposite :: "side \<Rightarrow> side" where
  "opposite Front = Back"
| "opposite Back = Front"

definition walk :: "side \<Rightarrow> nat \<Rightarrow> nat \<Rightarrow> nat" where
  "walk sd cap n = (push_target sd cap ^^ n) 0"

lemma walk_simps [simp]:
  "walk sd cap 0 = 0" "push_target sd cap (walk sd cap n) = walk sd cap (Suc n)"
  by (simp_all add: walk_def)

lemma opposite_simps [simp]:
  "opposite sd \<noteq> sd" "sd \<noteq> opposite sd" "opposite (opposite sd) = sd"
  "own_index (opposite sd) q = other_index sd q" "other_index (opposite sd) q = own_index sd q"
  "pop_target (opposite sd) cap i = push_target sd cap i"
  by (cases sd; simp)+

lemma set_own_opposite [simp]:
  "own_index sd (set_own_index (opposite sd) i q) = own_index sd q"
  "other_index sd (set_own_index (opposite sd) i q) = i"
  "own_index sd (set_own_index sd i q) = i"
  "other_index sd (set_own_index sd i q) = other_index sd q"
  by (cases sd; simp)+

lemma walk_Back: "n < cap \<Longrightarrow> walk Back cap n = n"
proof (induction n)
  case (Suc n)
  then show ?case using walk_simps(2) [of Back cap n] by (simp add: ring_next_def)
qed simp

lemma walk_Front: "n < cap \<Longrightarrow> walk Front cap n = (if n = 0 then 0 else cap - n)"
proof (induction n)
  case (Suc n)
  then have "walk Front cap (Suc n) = ring_prev cap (if n = 0 then 0 else cap - n)"
    using walk_simps(2) [of Front cap n] by simp
  then show ?case using Suc.prems by (auto simp: ring_prev_def)
qed simp

lemma walk_inj: "m < cap \<Longrightarrow> n < cap \<Longrightarrow> walk sd cap m = walk sd cap n \<longleftrightarrow> m = n"
  by (cases sd) (auto simp: walk_Back walk_Front)

text \<open>\<open>P\<close> pushes and \<open>Q\<close> pops have moved the indices.\<close>

definition moved :: "side \<Rightarrow> nat \<Rightarrow> nat \<Rightarrow> nat \<Rightarrow> 'a deque \<Rightarrow> bool" where
  "moved sd cap P Q q \<longleftrightarrow> dq_capacity q = cap \<and> P < cap \<and> Q \<le> P \<and>
     own_index sd q = walk sd cap P \<and> other_index sd q = walk sd cap Q"

lemma moved_length: "moved sd cap P Q q \<Longrightarrow> length (dq_range q) = P - Q"
  by (cases sd) (auto simp: moved_def dq_range_def ring_range_def walk_Back walk_Front)

lemma moved_new: "0 < cap \<Longrightarrow> moved sd cap 0 0 (dq_new cap)"
  by (cases sd) (simp_all add: moved_def dq_new_def dq_capacity_def)

lemma moved_push:
  assumes "moved sd cap P Q q" "Suc P < cap"
  shows "moved sd cap (Suc P) Q (set_own_index sd (push_target sd cap (own_index sd q)) q)"
  using assms by (simp add: moved_def)

lemma moved_pop:
  assumes "moved sd cap P Q q" "dq_range q \<noteq> []"
  shows "moved sd cap P (Suc Q) (set_own_index (opposite sd) (push_target sd cap (other_index sd q)) q)"
proof -
  have "0 < length (dq_range q)" using assms(2) by simp
  then have "Suc Q \<le> P" unfolding moved_length [OF assms(1)] by simp
  then show ?thesis using assms(1) by (simp add: moved_def)
qed

lemma moved_same:
  assumes "moved sd cap P Q q" "head q' = head q" "tail q' = tail q" "dq_capacity q' = dq_capacity q"
  shows "moved sd cap P Q q'"
  using assms by (cases sd) (simp_all add: moved_def)

subsection \<open>What a thread has seen\<close>

definition seen_head :: "side \<Rightarrow> nat \<Rightarrow> nat \<Rightarrow> nat \<Rightarrow> nat \<Rightarrow> bool" where
  "seen_head sd cap P Q h \<longleftrightarrow> (if sd = Front then h = walk sd cap P else \<exists>b \<le> Q. h = walk sd cap b)"

definition seen_tail :: "side \<Rightarrow> nat \<Rightarrow> nat \<Rightarrow> nat \<Rightarrow> nat \<Rightarrow> bool" where
  "seen_tail sd cap P Q e \<longleftrightarrow> (if sd = Back then e = walk sd cap P else \<exists>b \<le> Q. e = walk sd cap b)"

text \<open>\<open>T\<close>: all items of the test. A consumer looks at both indices only when all of them have been pushed.\<close>

fun seen :: "side \<Rightarrow> nat \<Rightarrow> nat \<Rightarrow> nat \<Rightarrow> nat \<Rightarrow> 'a pc \<Rightarrow> bool" where
  "seen sd cap T P Q (PushLoad s x) = (s = sd)"
| "seen sd cap T P Q (PushLoadOther s x i) = (s = sd \<and> (\<exists>a \<le> P. i = walk sd cap a))"
| "seen sd cap T P Q (PushReload s x i j) =
     (s = sd \<and> (\<exists>a \<le> P. i = walk sd cap a) \<and> (\<exists>b \<le> Q. j = walk sd cap b))"
| "seen sd cap T P Q (PushClaim s x i) = (s = sd)"
| "seen sd cap T P Q (PushCas s x i) = (s = sd)"
| "seen sd cap T P Q (PushRelease s x k) = (s = sd)"
| "seen sd cap T P Q (PushWrite x k) = True"
| "seen sd cap T P Q (PushReady k) = True"
| "seen sd cap T P Q (PopLoad s) = (s = opposite sd)"
| "seen sd cap T P Q (PopLoadOther s i) = (s = opposite sd)"
| "seen sd cap T P Q (PopReload s i j) = (s = opposite sd)"
| "seen sd cap T P Q (PopClaim s i) = (s = opposite sd)"
| "seen sd cap T P Q (PopCas s i) = (s = opposite sd)"
| "seen sd cap T P Q (PopRestore s k) = (s = opposite sd)"
| "seen sd cap T P Q (PopRead k) = True"
| "seen sd cap T P Q (PopFree k x) = True"
| "seen sd cap T P Q ObsLoad = (P = T)"
| "seen sd cap T P Q (ObsLoadTail h) = (P = T \<and> seen_head sd cap P Q h)"
| "seen sd cap T P Q (ObsReload h e) = (P = T \<and> seen_head sd cap P Q h \<and> seen_tail sd cap P Q e)"
| "seen sd cap T P Q (Finished (Snapshot h e)) =
     (P = T \<and> seen_head sd cap P Q h \<and> seen_tail sd cap P Q e)"
| "seen sd cap T P Q (Finished (PushErr x)) = False"
| "seen sd cap T P Q (Finished r) = True"

lemma seen_mono:
  assumes "seen sd cap T P Q p" "P \<le> P'" "Q \<le> Q'" "P' \<le> T"
  shows "seen sd cap T P' Q' p"
  using assms
  by (induction sd cap T P Q p rule: seen.induct)
    (auto simp: seen_head_def seen_tail_def intro: order_trans split: if_splits)

text \<open>A snapshot of equal indices was taken of an empty deque.\<close>

lemma seen_empty:
  assumes "seen sd cap T P Q (Finished (Snapshot h h))" "moved sd cap P Q q"
  shows "P = T \<and> Q = T"
proof -
  have "\<exists>b \<le> Q. walk sd cap P = walk sd cap b"
    using assms(1) by (cases sd) (auto simp: seen_head_def seen_tail_def)
  then obtain b where "b \<le> Q" "walk sd cap P = walk sd cap b" by blast
  moreover have "b < cap" "P < cap" "Q \<le> P" using assms(2) \<open>b \<le> Q\<close> by (auto simp: moved_def)
  ultimately have "b = P" by (metis walk_inj)
  then show ?thesis using \<open>b \<le> Q\<close> \<open>Q \<le> P\<close> assms(1) by simp
qed

lemma seen_indices:
  assumes "moved sd cap P Q q"
  shows "seen_head sd cap P Q (head q)" "seen_tail sd cap P Q (tail q)"
  using assms by (cases sd; auto simp: moved_def seen_head_def seen_tail_def)+

subsection \<open>One access to the deque\<close>

text \<open>What a call of each kind can be doing and return.\<close>

fun is_pop_pc :: "'a pc \<Rightarrow> bool" where
  "is_pop_pc p = (\<not> is_push_pc p \<and> \<not> is_obs_pc p \<and> \<not> is_finished p)"

fun in_push :: "'a pc \<Rightarrow> bool" where
  "in_push (Finished r) = (r = PushOk)"
| "in_push p = is_push_pc p"

fun in_pop :: "'a pc \<Rightarrow> bool" where
  "in_pop (Finished PopNone) = True"
| "in_pop (Finished (PopSome x)) = True"
| "in_pop p = is_pop_pc p"

fun in_obs :: "'a pc \<Rightarrow> bool" where
  "in_obs (Finished (Snapshot h e)) = True"
| "in_obs p = is_obs_pc p"

definition npush :: "'a pc \<Rightarrow> nat" where
  "npush p = (if pushing p then 1 else 0)"

text \<open>What one access by a thread at \<open>p\<close> may do to the indices and to the thread.\<close>

definition one_way_step :: "side \<Rightarrow> nat \<Rightarrow> nat \<Rightarrow> nat \<Rightarrow> nat \<Rightarrow> 'a pc \<Rightarrow> 'a deque \<Rightarrow> 'a pc \<Rightarrow> bool" where
  "one_way_step sd cap T P Q p q' p' \<longleftrightarrow>
     (\<exists>P' Q'. moved sd cap P' Q' q' \<and> P \<le> P' \<and> Q \<le> Q' \<and> P' + npush p' = P + npush p \<and>
        seen sd cap T P' Q' p')"

lemma one_way_stepI:
  assumes "moved sd cap P' Q' q'" "P \<le> P'" "Q \<le> Q'" "P' + npush p' = P + npush p" "seen sd cap T P' Q' p'"
  shows "one_way_step sd cap T P Q p q' p'"
  using assms unfolding one_way_step_def by blast

lemma one_way_stay:
  assumes "moved sd cap P Q q" "head q' = head q" "tail q' = tail q" "dq_capacity q' = dq_capacity q"
    and "npush p' = npush p" "seen sd cap T P Q p'"
  shows "one_way_step sd cap T P Q p q' p'"
  using moved_same [OF assms(1-4)] assms(5,6) by (intro one_way_stepI) auto

lemma one_way_push:
  assumes inv: "sys_inv cap s" and mv: "moved sd cap P Q (shared s)"
    and p: "is_push_pc (pcs s i)" and sn: "seen sd cap T P Q (pcs s i)"
    and T: "P + npush (pcs s i) \<le> T" "T < cap"
    and st: "dq_push_step sp (shared s) (pcs s i) = (q', p')"
  shows "one_way_step sd cap T P Q (pcs s i) q' p' \<and> in_push p'"
proof -
  let ?q = "shared s"
  have cap: "dq_capacity ?q = cap" and own: "own_index sd ?q = walk sd cap P"
    and oth: "other_index sd ?q = walk sd cap Q" and QP: "Q \<le> P"
    using mv by (simp_all add: moved_def)
  note stay = one_way_stay [OF mv]
  show ?thesis
  proof (cases "pcs s i")
    case (PushReload s' x a b)
    then obtain m n where ab: "s' = sd" "m \<le> P" "a = walk sd cap m" "n \<le> Q" "b = walk sd cap n"
      using sn by auto
    have "walk sd cap (Suc P) \<noteq> b" unfolding ab(5)
      using PushReload T ab(4) QP by (subst walk_inj) (auto simp: npush_def)
    then have "q' = ?q \<and> (p' = PushLoad sd x \<or> p' = PushClaim sd x a)"
      using st T by (auto simp: PushReload cap own ab(1) split: if_splits)
    then show ?thesis using PushReload by (auto intro!: stay simp: npush_def)
  next
    case (PushCas s' x a)
    then have s': "s' = sd" using sn by simp
    have "moved sd cap (Suc P) Q (set_own_index sd (push_target sd cap (own_index sd ?q)) ?q)"
      using moved_push [OF mv] T PushCas by (simp add: npush_def)
    then have win: "one_way_step sd cap T P Q (pcs s i)
        (set_own_index sd (push_target sd cap (own_index sd ?q)) ?q) (PushWrite x k)" for k
      by (rule one_way_stepI) (use PushCas in \<open>simp_all add: npush_def\<close>)
    show ?thesis
    proof (cases "\<not> sp \<and> own_index sd ?q = a")
      case True
      then show ?thesis using st win by (auto simp: PushCas s' cap Let_def)
    next
      case False
      then show ?thesis using st PushCas s' by (auto intro!: stay simp: npush_def Let_def)
    qed
  next
    case (PushLoad s' x)
    then show ?thesis using st sn own oth by (auto intro!: stay simp: npush_def Let_def split: if_splits)
  next
    case (PushLoadOther s' x a)
    then show ?thesis using st sn own oth by (auto intro!: stay simp: npush_def Let_def split: if_splits)
  next
    case (PushClaim s' x a)
    then show ?thesis using st sn own oth by (auto intro!: stay simp: npush_def Let_def split: if_splits)
  next
    case (PushRelease s' x k)
    then show ?thesis using st sn own oth by (auto intro!: stay simp: npush_def Let_def split: if_splits)
  next
    case (PushWrite x k)
    then show ?thesis using st sn own oth by (auto intro!: stay simp: npush_def Let_def split: if_splits)
  next
    case (PushReady k)
    then show ?thesis using st sn own oth by (auto intro!: stay simp: npush_def Let_def split: if_splits)
  qed (use p in simp_all)
qed

lemma is_pop_pc_simps [simp]:
  "is_pop_pc (PushLoad sd x) = False" "is_pop_pc (PushLoadOther sd x i) = False"
  "is_pop_pc (PushReload sd x i j) = False" "is_pop_pc (PushClaim sd x i) = False"
  "is_pop_pc (PushCas sd x i) = False" "is_pop_pc (PushRelease sd x k) = False"
  "is_pop_pc (PushWrite x k) = False" "is_pop_pc (PushReady k) = False"
  "is_pop_pc ObsLoad = False" "is_pop_pc (ObsLoadTail h) = False" "is_pop_pc (ObsReload h e) = False"
  "is_pop_pc (Finished r) = False"
  by simp_all

declare is_pop_pc.simps [simp del]

lemma is_pop_pc_pop [simp]:
  "is_pop_pc (PopLoad sd)" "is_pop_pc (PopLoadOther sd i)" "is_pop_pc (PopReload sd i j)"
  "is_pop_pc (PopClaim sd i)" "is_pop_pc (PopCas sd i)" "is_pop_pc (PopRestore sd k)"
  "is_pop_pc (PopRead k)" "is_pop_pc (PopFree k x)"
  by (simp_all add: is_pop_pc.simps)

lemma one_way_pop:
  assumes inv: "sys_inv cap s" and mv: "moved sd cap P Q (shared s)"
    and p: "is_pop_pc (pcs s i)" and sn: "seen sd cap T P Q (pcs s i)"
    and st: "dq_pop_step sp (shared s) (pcs s i) = (q', p')"
  shows "one_way_step sd cap T P Q (pcs s i) q' p' \<and> in_pop p'"
proof -
  let ?q = "shared s"
  note cap = sys_invD(1) [OF inv]
  note stay = one_way_stay [OF mv]
  show ?thesis
  proof (cases "pcs s i")
    case (PopCas s' j)
    then have s': "s' = opposite sd" using sn by simp
    show ?thesis
    proof (cases "\<not> sp \<and> own_index s' ?q = j")
      case True
      then have "own_index s' ?q = j" by simp
      from pop_cas_win(2) [OF inv PopCas this] have "dq_range ?q \<noteq> []"
        by (metis length_0_conv length_add_at nat.distinct(1))
      from moved_pop [OF mv this] show ?thesis
        using PopCas st True cap one_way_stepI [of sd cap P "Suc Q" q' P Q p' "pcs s i" T]
        by (auto simp: npush_def Let_def s')
    next
      case False
      then have "q' = ?q \<and> p' = PopRestore s' (pop_slot s' (dq_capacity ?q) j)"
        using PopCas st by (auto simp: Let_def)
      then show ?thesis using PopCas s' by (auto intro!: stay simp: npush_def)
    qed
  next
    case (PopRead k)
    then have "claim_ok ?q (ghost s) (PopRead k) k"
      using sys_invD(5) [OF inv, of i] by (simp add: pc_ok_def)
    then show ?thesis using PopRead st by (auto intro!: stay simp: npush_def claim_ok_def)
  next
    case (PopLoad s')
    then show ?thesis using st sn by (auto intro!: stay simp: npush_def Let_def split: if_splits)
  next
    case (PopLoadOther s' j)
    then show ?thesis using st sn by (auto intro!: stay simp: npush_def Let_def split: if_splits)
  next
    case (PopReload s' j l)
    then show ?thesis using st sn by (auto intro!: stay simp: npush_def Let_def split: if_splits)
  next
    case (PopClaim s' j)
    then show ?thesis using st sn by (auto intro!: stay simp: npush_def Let_def split: if_splits)
  next
    case (PopRestore s' k)
    then show ?thesis using st sn by (auto intro!: stay simp: npush_def Let_def split: if_splits)
  next
    case (PopFree k x)
    then show ?thesis using st sn by (auto intro!: stay simp: npush_def Let_def split: if_splits)
  qed (use p in simp_all)
qed

lemma one_way_obs:
  assumes mv: "moved sd cap P Q (shared s)"
    and p: "is_obs_pc (pcs s i)" and sn: "seen sd cap T P Q (pcs s i)"
  shows "one_way_step sd cap T P Q (pcs s i) (shared s) (dq_obs_step (shared s) (pcs s i)) \<and>
    in_obs (dq_obs_step (shared s) (pcs s i))"
proof (intro conjI one_way_stay [OF mv])
  show "seen sd cap T P Q (dq_obs_step (shared s) (pcs s i))"
    using p sn seen_indices [OF mv] by (cases "pcs s i") auto
qed (use p in \<open>cases "pcs s i"; simp add: npush_def\<close>)+

subsection \<open>The invariant of a test\<close>

text \<open>A thread and its operation on the deque fit together.\<close>

fun fits :: "tester \<Rightarrow> nat pc \<Rightarrow> bool" where
  "fits (Pushing s xs) p = in_push p"
| "fits (Popping s n) p = in_pop p"
| "fits (Checking s n) p = in_obs p"
| "fits l p = is_finished p"

fun producing :: "tester \<Rightarrow> bool" where
  "producing (Produce s xs) = True"
| "producing (Pushing s xs) = True"
| "producing l = False"

text \<open>Threads below \<open>np\<close> produce, those from there to \<open>N\<close> consume; a consumer that has ended saw all
  items popped.\<close>

fun role :: "side \<Rightarrow> nat \<Rightarrow> nat \<Rightarrow> bool \<Rightarrow> nat \<Rightarrow> tester \<Rightarrow> bool" where
  "role sd np N drained i (Produce s xs) = (i < np \<and> s = sd)"
| "role sd np N drained i (Pushing s xs) = (i < np \<and> s = sd)"
| "role sd np N drained i (CheckFlag s n) = (np \<le> i \<and> i < N \<and> s = opposite sd)"
| "role sd np N drained i (Checking s n) = (np \<le> i \<and> i < N \<and> s = opposite sd)"
| "role sd np N drained i (Popping s n) = (np \<le> i \<and> i < N \<and> s = opposite sd)"
| "role sd np N drained i (Ended n) = (np \<le> i \<and> i < N \<longrightarrow> drained)"

text \<open>How many items a thread has still to push, and the value of the items it holds.\<close>

fun to_push :: "tester \<Rightarrow> nat pc \<Rightarrow> nat" where
  "to_push (Produce s xs) p = length xs"
| "to_push (Pushing s xs) p = length xs + npush p"
| "to_push l p = 0"

fun item_value :: "nat op_status \<Rightarrow> nat" where
  "item_value (Pending (OpPush s x)) = x"
| "item_value (Linearised (PopSome x)) = x"
| "item_value (Returned (PopSome x)) = x"
| "item_value a = 0"

fun held_value :: "tester \<Rightarrow> nat op_status \<Rightarrow> nat" where
  "held_value (Produce s xs) a = sum_list xs"
| "held_value (Pushing s xs) a = sum_list xs + item_value a"
| "held_value (CheckFlag s n) a = n"
| "held_value (Checking s n) a = n"
| "held_value (Popping s n) a = n + item_value a"
| "held_value (Ended n) a = n"

definition pushes_left :: "nat \<Rightarrow> dq_test \<Rightarrow> nat" where
  "pushes_left N t = (\<Sum>i<N. to_push (testers t i) (pcs (dq t) i))"

definition producers :: "nat \<Rightarrow> dq_test \<Rightarrow> nat" where
  "producers N t = (\<Sum>i<N. if producing (testers t i) then 1 else 0)"

definition value_held :: "nat \<Rightarrow> dq_test \<Rightarrow> nat" where
  "value_held N t = (\<Sum>i<N. held_value (testers t i) (abs_status (ghost (dq t)) (pcs (dq t) i)))"

definition test_inv :: "side \<Rightarrow> nat \<Rightarrow> nat \<Rightarrow> nat \<Rightarrow> nat \<Rightarrow> nat \<Rightarrow> nat \<Rightarrow> nat \<Rightarrow> dq_test \<Rightarrow> bool" where
  "test_inv sd np N cap T V P Q t \<longleftrightarrow>
     sys_inv cap (dq t) \<and> T < cap \<and> moved sd cap P Q (shared (dq t)) \<and>
     P + pushes_left N t = T \<and> flag t = int (producers N t) \<and>
     value_held N t + sum_list (abs_list (dq t)) = V \<and>
     (\<forall>i. seen sd cap T P Q (pcs (dq t) i) \<and> fits (testers t i) (pcs (dq t) i) \<and>
        role sd np N (Q = T) i (testers t i))"

lemma test_invD:
  assumes "test_inv sd np N cap T V P Q t"
  shows "sys_inv cap (dq t)" "T < cap" "moved sd cap P Q (shared (dq t))" "P + pushes_left N t = T"
    "flag t = int (producers N t)" "value_held N t + sum_list (abs_list (dq t)) = V"
    "seen sd cap T P Q (pcs (dq t) i)" "fits (testers t i) (pcs (dq t) i)"
    "role sd np N (Q = T) i (testers t i)"
  using assms unfolding test_inv_def by blast+

lemma test_invI:
  assumes "sys_inv cap (dq t)" "T < cap" "moved sd cap P Q (shared (dq t))" "P + pushes_left N t = T"
    "flag t = int (producers N t)" "value_held N t + sum_list (abs_list (dq t)) = V"
    and "\<And>i. seen sd cap T P Q (pcs (dq t) i)" "\<And>i. fits (testers t i) (pcs (dq t) i)"
    "\<And>i. role sd np N (Q = T) i (testers t i)"
  shows "test_inv sd np N cap T V P Q t"
  using assms unfolding test_inv_def by blast

text \<open>One summand changes.\<close>

lemma sum_change:
  fixes f g :: "nat \<Rightarrow> nat"
  assumes "i < N" "\<And>j. j \<noteq> i \<Longrightarrow> g j = f j"
  shows "(\<Sum>j<N. g j) + f i = (\<Sum>j<N. f j) + g i"
proof -
  have "(\<Sum>j<N. h j) = h i + (\<Sum>j \<in> {..<N} - {i}. h j)" for h :: "nat \<Rightarrow> nat"
    using assms(1) by (simp add: sum.remove)
  moreover have "(\<Sum>j \<in> {..<N} - {i}. g j) = (\<Sum>j \<in> {..<N} - {i}. f j)"
    using assms(2) by (intro sum.cong) auto
  ultimately show ?thesis by simp
qed

lemma role_active: "role sd np N e i l \<Longrightarrow> np \<le> N \<Longrightarrow> (\<And>n. l \<noteq> Ended n) \<Longrightarrow> i < N"
  by (cases l) auto

lemma role_mono: "role sd np N e i l \<Longrightarrow> (e \<Longrightarrow> e') \<Longrightarrow> role sd np N e' i l"
  by (cases l) auto

text \<open>The pushes under way are among those left, so they fit.\<close>

lemma to_push_pushing: "fits l p \<Longrightarrow> npush p \<le> to_push l p"
  by (cases l; cases p) (auto simp: npush_def)

lemma one_way_room:
  assumes mv: "moved sd cap P Q (shared (dq t))" and cnt: "P + pushes_left N t \<le> T" "T < cap"
    and f: "\<And>i. fits (testers t i) (pcs (dq t) i)" and e: "\<And>i. N \<le> i \<Longrightarrow> \<exists>n. testers t i = Ended n"
  shows "has_room (dq t)"
proof -
  have out: "i < N" if "pushing (pcs (dq t) i)" for i
    using e [of i] f [of i] that by (cases "i < N"; cases "pcs (dq t) i") auto
  then have sub: "pushers (dq t) \<subseteq> {..<N}" by (auto simp: pushers_def)
  then have fin: "finite (pushers (dq t))" by (rule finite_subset) simp
  have "card (pushers (dq t)) = (\<Sum>i<N. npush (pcs (dq t) i))"
    using sub by (simp add: npush_def pushers_def sum.If_cases Int_def Collect_conj_eq [symmetric] subset_eq)
      (metis (no_types, lifting) Collect_cong lessThan_iff mem_Collect_eq)
  also have "\<dots> \<le> pushes_left N t"
    unfolding pushes_left_def using f by (intro sum_mono to_push_pushing)
  finally show ?thesis
    using moved_length [OF mv] mv cnt fin by (auto simp: has_room_def moved_def)
qed

subsection \<open>Every step keeps the invariant\<close>

lemma test_inv_update:
  assumes inv: "test_inv sd np N cap T V P Q t" and i: "i < N" and npN: "np \<le> N"
    and ts: "testers t' = (testers t)(i := l')" and ps: "pcs (dq t') = (pcs (dq t))(i := p')"
    and mv: "moved sd cap P' Q' (shared (dq t'))" "P \<le> P'" "Q \<le> Q'"
    and cnt: "P' + to_push l' p' = P + to_push (testers t i) (pcs (dq t) i)"
    and fl: "flag t' + (if producing (testers t i) then 1 else 0) = flag t + (if producing l' then 1 else 0)"
    and val: "held_value l' (abs_status (ghost (dq t')) p') + sum_list (abs_list (dq t')) =
      held_value (testers t i) (abs_status (ghost (dq t)) (pcs (dq t) i)) + sum_list (abs_list (dq t))"
    and oth: "\<And>j. j \<noteq> i \<Longrightarrow>
      abs_status (ghost (dq t')) (pcs (dq t) j) = abs_status (ghost (dq t)) (pcs (dq t) j)"
    and loc: "seen sd cap T P' Q' p'" "fits l' p'" "role sd np N (Q' = T) i l'"
    and sinv: "has_room (dq t') \<Longrightarrow> sys_inv cap (dq t')"
  shows "test_inv sd np N cap T V P' Q' t'"
proof -
  note I = test_invD [OF inv]
  have "pushes_left N t' + to_push (testers t i) (pcs (dq t) i) = pushes_left N t + to_push l' p'"
    unfolding pushes_left_def
    using sum_change [OF i, where g = "\<lambda>j. to_push (testers t' j) (pcs (dq t') j)" and
        f = "\<lambda>j. to_push (testers t j) (pcs (dq t) j)"] by (simp add: ts ps)
  then have left: "P' + pushes_left N t' = T" using I(4) cnt by simp
  have "producers N t' + (if producing (testers t i) then 1 else 0) =
      producers N t + (if producing l' then 1 else 0)"
    unfolding producers_def
    using sum_change [OF i, where g = "\<lambda>j. if producing (testers t' j) then 1 else 0" and
        f = "\<lambda>j. if producing (testers t j) then 1 else 0"] by (simp add: ts)
  then have flag: "flag t' = int (producers N t')" using I(5) fl by (auto split: if_splits)
  have "value_held N t' + held_value (testers t i) (abs_status (ghost (dq t)) (pcs (dq t) i)) =
      value_held N t + held_value l' (abs_status (ghost (dq t')) p')"
    unfolding value_held_def
    using sum_change [OF i, where g = "\<lambda>j. held_value (testers t' j) (abs_status (ghost (dq t')) (pcs (dq t') j))"
        and f = "\<lambda>j. held_value (testers t j) (abs_status (ghost (dq t)) (pcs (dq t) j))"]
    by (simp add: ts ps oth)
  then have total: "value_held N t' + sum_list (abs_list (dq t')) = V" using I(6) val by simp
  have f: "fits (testers t' j) (pcs (dq t') j)" for j using I(8) [of j] loc(2) by (simp add: ts ps)
  have ended: "\<exists>n. testers t' j = Ended n" if "N \<le> j" for j
    using role_active [OF I(9) npN, of j] that i by (auto simp: ts)
  have P'T: "P' \<le> T" "Q' \<le> P'" using left mv(1) by (simp_all add: moved_def)
  have "has_room (dq t')" using ended by (intro one_way_room [OF mv(1) _ I(2) f, of N]) (simp_all add: left)
  then show ?thesis
  proof (rule test_invI [OF sinv I(2) mv(1) left flag total])
    show "seen sd cap T P' Q' (pcs (dq t') j)" for j
      using seen_mono [OF I(7) mv(2,3) P'T(1), of j] loc(1) by (simp add: ps)
    show "role sd np N (Q' = T) j (testers t' j)" for j
      using role_mono [OF I(9), of "Q' = T" j] loc(3) P'T mv(3) by (auto simp: ts)
  qed (rule f)
qed

lemma call_dq_inv:
  assumes inv: "test_inv sd np N cap T V P Q t" and i: "i < N" and npN: "np \<le> N"
    and fin: "is_finished (pcs (dq t) i)" and p: "is_start p"
    and st: "call_dq i p l' t = Some t'"
    and cnt: "to_push l' p = to_push (testers t i) (pcs (dq t) i)"
    and pr: "producing l' = producing (testers t i)"
    and val: "held_value l' (abs_status (ghost (dq t)) p) =
      held_value (testers t i) (abs_status (ghost (dq t)) (pcs (dq t) i))"
    and loc: "seen sd cap T P Q p" "fits l' p" "role sd np N (Q = T) i l'"
  shows "test_inv sd np N cap T V P Q t'"
proof -
  obtain s' where s': "sys_next (dq t) (Invoke i p) = Some s'" and t': "t' = set_tester i l' (t\<lparr>dq := s'\<rparr>)"
    using st by (auto simp: call_dq_def)
  have s: "shared s' = shared (dq t)" "ghost s' = ghost (dq t)" "pcs s' = (pcs (dq t))(i := p)"
    using s' fin p by auto
  have l: "abs_list s' = abs_list (dq t)" by (simp add: abs_list_def s)
  have u: "dq t' = s'" "flag t' = flag t" "testers t' = (testers t)(i := l')"
    by (simp_all add: t' set_tester_def)
  show ?thesis
    by (rule test_inv_update [OF inv i npN u(3)])
      (use loc cnt pr val test_invD(3) [OF inv] sys_next_inv [OF test_invD(1) [OF inv] s']
       in \<open>simp_all add: u s l\<close>)
qed

lemma own_step_inv:
  assumes inv: "test_inv sd np N cap T V P Q t" and i: "i < N" and npN: "np \<le> N"
    and t': "dq t' = dq t" "testers t' = (testers t)(i := l')"
    and cnt: "to_push l' (pcs (dq t) i) = to_push (testers t i) (pcs (dq t) i)"
    and fl: "flag t' + (if producing (testers t i) then 1 else 0) = flag t + (if producing l' then 1 else 0)"
    and val: "held_value l' (abs_status (ghost (dq t)) (pcs (dq t) i)) =
      held_value (testers t i) (abs_status (ghost (dq t)) (pcs (dq t) i))"
    and loc: "fits l' (pcs (dq t) i)" "role sd np N (Q = T) i l'"
  shows "test_inv sd np N cap T V P Q t'"
  by (rule test_inv_update [OF inv i npN t'(2)])
    (use loc cnt fl val test_invD [OF inv] in \<open>simp_all add: t'(1)\<close>)

text \<open>The access of a thread inside its operation: the value it holds moves into the deque or out of it.\<close>

lemma op_step_value:
  assumes "op_step l a l' b" "\<And>r. a \<noteq> Returned r" "\<And>x. b \<noteq> Returned (PushErr x)"
  shows "item_value b + sum_list l' = item_value a + sum_list l"
  using assms
proof (cases rule: op_step.cases)
  case (push sd x)
  then show ?thesis by (cases sd) simp_all
next
  case (pop sd x)
  then show ?thesis by (cases sd) simp_all
next
  case (return r)
  then show ?thesis by (cases r) simp_all
qed auto

lemma abs_status_running: "\<not> is_finished p \<Longrightarrow> abs_status g p \<noteq> Returned r"
  by (cases p) simp_all

lemma abs_status_Returned: "abs_status g p = Returned r \<Longrightarrow> p = Finished r"
  by (cases p) simp_all

lemma access_inv:
  assumes inv: "test_inv sd np N cap T V P Q t" and i: "i < N" and npN: "np \<le> N"
    and nf: "\<not> is_finished (pcs (dq t) i)"
    and st: "sys_next (dq t) (Run i sp) = Some s'"
  shows "\<exists>P' Q'. test_inv sd np N cap T V P' Q' (t\<lparr>dq := s'\<rparr>)"
proof -
  note I = test_invD [OF inv]
  let ?s = "dq t" and ?p = "pcs (dq t) i"
  obtain q' p' where dst: "dq_step sp (shared ?s) ?p = (q', p')" by fastforce
  have s': "s' = ?s\<lparr>shared := q', pcs := (pcs ?s)(i := p'), ghost := ghost_step ?p p' (ghost ?s)\<rparr>"
    using st nf dst by simp
  have "to_push (testers t i) ?p \<le> pushes_left N t"
    unfolding pushes_left_def using i by (intro member_le_sum) auto
  then have room: "P + npush ?p \<le> T" using I(4) to_push_pushing [OF I(8), of i] by linarith
  have one: "one_way_step sd cap T P Q ?p q' p' \<and>
      (if is_push_pc ?p then in_push p' else if is_obs_pc ?p then in_obs p' else in_pop p')"
  proof (cases "is_push_pc ?p")
    case True
    then show ?thesis
      using one_way_push [OF I(1) I(3) True I(7) room I(2)] dst by (simp add: dq_step_def)
  next
    case False
    then show ?thesis
      using one_way_pop [OF I(1) I(3) _ I(7), of i] one_way_obs [OF I(3) _ I(7), of i] dst nf
      by (auto simp: dq_step_def is_pop_pc.simps split: if_splits)
  qed
  then obtain P' Q' where step: "moved sd cap P' Q' q'" "P \<le> P'" "Q \<le> Q'"
    "P' + npush p' = P + npush ?p" "seen sd cap T P' Q' p'" unfolding one_way_step_def by blast
  let ?l = "testers t i"
  have kinds: "fits ?l p'" "(\<exists>s xs. ?l = Pushing s xs) \<or> (\<exists>s n. ?l = Popping s n) \<or> (\<exists>s n. ?l = Checking s n)"
    using I(8) [of i] nf one by (cases ?l; cases ?p; auto)+
  have nerr: "abs_status g p' \<noteq> Returned (PushErr x)" for g x
    using step(5) abs_status_Returned [of g p'] by fastforce
  have val: "item_value (abs_status (ghost s') p') + sum_list (abs_list s') =
      item_value (abs_status (ghost ?s) ?p) + sum_list (abs_list ?s)"
    using op_step_value [OF run_op_step [OF I(1) nf dst s'] abs_status_running [OF nf] nerr]
    by (simp add: s')
  have zero: "item_value (abs_status (ghost s') p') = 0 \<and> item_value (abs_status (ghost ?s) ?p) = 0"
    if "?l = Checking sc n" for sc n
    using that kinds(1) I(8) [of i] by (cases p'; cases ?p; auto elim!: in_obs.elims)
  have "test_inv sd np N cap T V P' Q' (t\<lparr>dq := s'\<rparr>)"
  proof (rule test_inv_update [OF inv i npN])
    show "P' + to_push ?l p' = P + to_push ?l ?p"
      using step(4) kinds I(8) [of i] by (cases ?l; cases p'; cases ?p) (auto simp: npush_def)
    show "held_value ?l (abs_status (ghost (dq (t\<lparr>dq := s'\<rparr>))) p') + sum_list (abs_list (dq (t\<lparr>dq := s'\<rparr>))) =
        held_value ?l (abs_status (ghost ?s) ?p) + sum_list (abs_list ?s)"
      using val kinds(2) zero by auto
    show "role sd np N (Q' = T) i ?l" using I(9) [of i] kinds(2) by auto
    show "abs_status (ghost (dq (t\<lparr>dq := s'\<rparr>))) (pcs ?s j) = abs_status (ghost ?s) (pcs ?s j)"
      if "j \<noteq> i" for j using ghost_step_other [OF I(1) that dst] by (simp add: s')
    show "has_room (dq (t\<lparr>dq := s'\<rparr>)) \<Longrightarrow> sys_inv cap (dq (t\<lparr>dq := s'\<rparr>))"
      using sys_next_inv [OF I(1) st] by simp
  qed (simp_all add: s' step kinds)
  then show ?thesis by blast
qed

lemma tester_step_inv:
  assumes inv: "test_inv sd np N cap T V P Q t" and npN: "np \<le> N"
    and fin: "is_finished (pcs (dq t) i)" and st: "tester_step i t = Some t'"
  shows "test_inv sd np N cap T V P Q t'"
proof -
  note I = test_invD [OF inv]
  have i: "i < N"
    by (rule role_active [OF I(9) npN]) (use st in \<open>auto simp: tester_step_def\<close>)
  note call = call_dq_inv [OF inv i npN fin]
  note own = own_step_inv [OF inv i npN]
  have f: "fits (testers t i) (pcs (dq t) i)" and r: "role sd np N (Q = T) i (testers t i)"
    by (rule I)+
  obtain res where res: "pcs (dq t) i = Finished res" using fin by (cases "pcs (dq t) i") auto
  show ?thesis
  proof (cases "testers t i")
    case (Produce s xs)
    then show ?thesis
    proof (cases xs)
      case Nil
      show ?thesis
        by (rule own [where l' = "Ended 0"])
          (use st r Nil Produce fin in \<open>auto simp: tester_step_def set_tester_def\<close>)
    next
      case (Cons x xs')
      then have "call_dq i (PushLoad s x) (Pushing s xs') t = Some t'"
        using st Produce by (simp add: tester_step_def)
      then show ?thesis
        by (rule call [rotated]) (use r Cons Produce in \<open>auto simp: npush_def\<close>)
    qed
  next
    case (Pushing s xs)
    then have "res = PushOk" using f res by simp
    then show ?thesis
      by (intro own [where l' = "Produce s xs"])
        (use st r Pushing res in \<open>auto simp: tester_step_def set_tester_def npush_def\<close>)
  next
    case (CheckFlag s n)
    show ?thesis
    proof (cases "flag t = 0")
      case False
      then have "call_dq i (PopLoad s) (Popping s n) t = Some t'"
        using st CheckFlag by (simp add: tester_step_def)
      then show ?thesis by (rule call [rotated]) (use r CheckFlag in \<open>auto simp: is_pop_pc.simps\<close>)
    next
      case True
      then have "producers N t = 0" using I(5) by simp
      then have np: "\<not> producing (testers t j)" if "j < N" for j
        using that by (auto simp: producers_def split: if_splits)
      have "to_push (testers t j) (pcs (dq t) j) = 0" if "j < N" for j
        using np [OF that] by (cases "testers t j") auto
      then have "pushes_left N t = 0" by (simp add: pushes_left_def)
      then have PT: "P = T" using I(4) by simp
      have "call_dq i ObsLoad (Checking s n) t = Some t'"
        using st CheckFlag True by (simp add: tester_step_def)
      then show ?thesis by (rule call [rotated]) (use r CheckFlag PT in auto)
    qed
  next
    case (Checking s n)
    then obtain h e where snap: "res = Snapshot h e" using f res by (cases res) auto
    show ?thesis
    proof (cases "h = e")
      case True
      have "pcs (dq t) i = Finished (Snapshot h h)" using res snap True by simp
      then have "seen sd cap T P Q (Finished (Snapshot h h) :: nat pc)" using I(7) [of i] by metis
      then have "Q = T" using seen_empty [OF _ I(3)] by blast
      then show ?thesis
        by (intro own [where l' = "Ended n"])
          (use st r Checking res snap True in \<open>auto simp: tester_step_def set_tester_def\<close>)
    next
      case False
      then have "call_dq i (PopLoad s) (Popping s n) t = Some t'"
        using st Checking res snap by (simp add: tester_step_def)
      then show ?thesis by (rule call [rotated]) (use r Checking in \<open>auto simp: is_pop_pc.simps\<close>)
    qed
  next
    case (Popping s n)
    then have "res = PopNone \<or> (\<exists>x. res = PopSome x)" using f res by (cases res) auto
    then show ?thesis
    proof
      assume "res = PopNone"
      then show ?thesis
        by (intro own [where l' = "CheckFlag s n"])
          (use st r Popping res in \<open>auto simp: tester_step_def set_tester_def\<close>)
    next
      assume "\<exists>x. res = PopSome x"
      then obtain x where "res = PopSome x" by blast
      then show ?thesis
        by (intro own [where l' = "CheckFlag s (n + x)"])
          (use st r Popping res in \<open>auto simp: tester_step_def set_tester_def\<close>)
    qed
  qed (use st in \<open>simp add: tester_step_def\<close>)
qed

lemma test_next_inv:
  assumes inv: "test_inv sd np N cap T V P Q t" and npN: "np \<le> N" and st: "test_next t i sp = Some t'"
  shows "\<exists>P' Q'. test_inv sd np N cap T V P' Q' t'"
proof (cases "is_finished (pcs (dq t) i)")
  case True
  then show ?thesis using tester_step_inv [OF inv npN True] st by (auto simp: test_next_def)
next
  case False
  note I = test_invD [OF inv]
  have "i < N"
    by (rule role_active [OF I(9) npN]) (use I(8) [of i] False in auto)
  then show ?thesis using access_inv [OF inv _ npN False] st False by (auto simp: test_next_def)
qed

subsection \<open>The start of a test\<close>

definition all_items :: "(side \<times> nat list) list \<Rightarrow> nat list" where
  "all_items ps = concat (map snd ps)"

lemma sum_list_concat: "sum_list (concat xss) = (\<Sum>xs\<leftarrow>xss. sum_list xs)"
  by (induction xss) simp_all

lemma sum_threads_new:
  assumes "\<And>i. length ps \<le> i \<Longrightarrow> i < length ps + m \<Longrightarrow> g i = 0"
  shows "(\<Sum>i<length ps + m. if i < length ps then f (ps ! i) else g i) = sum_list (map f ps)"
proof -
  have "(\<Sum>i<length ps + m. if i < length ps then f (ps ! i) else g i) = (\<Sum>i<length ps. f (ps ! i))"
    using assms by (intro sum.mono_neutral_cong_right) auto
  then show ?thesis by (simp add: sum_list_sum_nth atLeast0LessThan)
qed

lemma test_inv_new:
  assumes "length (all_items ps) < cap"
    and ps: "\<And>p. p \<in> set ps \<Longrightarrow> fst p = sd" and cs: "\<And>c. c \<in> set cs \<Longrightarrow> c = opposite sd"
  shows "test_inv sd (length ps) (length ps + length cs) cap (length (all_items ps))
    (sum_list (all_items ps)) 0 0 (dq_test_new ps cs cap)" (is "test_inv _ ?np ?N _ ?T ?V _ _ ?t")
proof (rule test_invI)
  have cap: "0 < cap" using assms(1) by simp
  show "sys_inv cap (dq ?t)" using sys_inv_new [OF cap] by (simp add: dq_test_new_def)
  show "moved sd cap 0 0 (shared (dq ?t))"
    using moved_new [OF cap] by (simp add: dq_test_new_def sys_new_def)
  have ts: "testers ?t i = (if i < ?np then Produce (fst (ps ! i)) (snd (ps ! i))
      else if i < ?N then CheckFlag (cs ! (i - ?np)) 0 else Ended 0)" for i
    by (simp add: dq_test_new_def)
  have "pushes_left ?N ?t = (\<Sum>i<?N. if i < ?np then length (snd (ps ! i)) else 0)"
    unfolding pushes_left_def by (intro sum.cong) (auto simp: ts)
  then show "0 + pushes_left ?N ?t = ?T"
    by (simp add: sum_threads_new [where f = "\<lambda>p. length (snd p)"] all_items_def length_concat comp_def)
  have "producers ?N ?t = (\<Sum>i<?N. if i < ?np then 1 else 0)"
    unfolding producers_def by (intro sum.cong) (auto simp: ts)
  then show "flag ?t = int (producers ?N ?t)"
    by (simp add: sum_threads_new [where f = "\<lambda>p. 1"] dq_test_new_def sum_list_triv)
  have "value_held ?N ?t = (\<Sum>i<?N. if i < ?np then sum_list (snd (ps ! i)) else 0)"
    unfolding value_held_def by (intro sum.cong) (auto simp: ts)
  then show "value_held ?N ?t + sum_list (abs_list (dq ?t)) = ?V"
    by (simp add: sum_threads_new [where f = "\<lambda>p. sum_list (snd p)"] all_items_def sum_list_concat comp_def
        dq_test_new_def sys_new_def abs_list_def dq_range_def dq_new_def)
  show "seen sd cap ?T 0 0 (pcs (dq ?t) i)" "fits (testers ?t i) (pcs (dq ?t) i)" for i
    by (simp_all add: ts) (simp_all add: dq_test_new_def sys_new_def)
  show "role sd ?np ?N (0 = ?T) i (testers ?t i)" for i
    using ps [of "ps ! i"] cs [of "cs ! (i - ?np)"] by (auto simp: ts)
qed (use assms(1) in simp)

lemma test_reach_inv:
  assumes "test_reach (dq_test_new ps cs cap) t" "length (all_items ps) < cap"
    and "\<And>p. p \<in> set ps \<Longrightarrow> fst p = sd" "\<And>c. c \<in> set cs \<Longrightarrow> c = opposite sd"
  shows "\<exists>P Q. test_inv sd (length ps) (length ps + length cs) cap (length (all_items ps))
    (sum_list (all_items ps)) P Q t"
  using assms(1)
proof (induction rule: test_reach.induct)
  case start
  then show ?case using test_inv_new [OF assms(2-4)] by blast
next
  case (step t i sp t')
  then show ?case using test_next_inv [OF _ le_add1] by blast
qed

end
