(* ===== verification/Deque_Tests_Finish.thy ===== *)
theory Deque_Tests_Finish
  imports Deque_Tests_Inv
begin

text \<open>
  A test with one direction is never stuck: from every state it can reach, some schedule ends all its
  threads. First every operation under way is run to its end, then one thread after the other.
\<close>

subsection \<open>Runs of one thread inside its operation\<close>

lemma test_reach_trans: "test_reach t1 t2 \<Longrightarrow> test_reach t0 t1 \<Longrightarrow> test_reach t0 t2"
  by (induction rule: test_reach.induct) (auto intro: test_reach.step)

definition solo :: "nat \<Rightarrow> dq_test \<Rightarrow> dq_test \<Rightarrow> bool" where
  "solo i t t' \<longleftrightarrow> test_reach t t' \<and> testers t' = testers t \<and> flag t' = flag t \<and>
     (\<forall>j. j \<noteq> i \<longrightarrow> pcs (dq t') j = pcs (dq t) j)"

lemma solo_refl: "solo i t t"
  by (simp add: solo_def test_reach.start)

lemma solo_trans: "solo i t u \<Longrightarrow> solo i u v \<Longrightarrow> solo i t v"
  unfolding solo_def using test_reach_trans [of u v t] by metis

lemma solo_step:
  assumes "\<not> is_finished (pcs (dq t) i)"
  shows "\<exists>u. solo i t u \<and> shared (dq u) = fst (dq_step False (shared (dq t)) (pcs (dq t) i)) \<and>
    pcs (dq u) i = snd (dq_step False (shared (dq t)) (pcs (dq t) i))"
proof -
  obtain q' p' where d: "dq_step False (shared (dq t)) (pcs (dq t) i) = (q', p')" by fastforce
  obtain u where u: "test_next t i False = Some u" "testers u = testers t" "flag u = flag t"
    "shared (dq u) = q'" "pcs (dq u) = (pcs (dq t))(i := p')"
    using assms d by (simp add: test_next_def)
  have "test_reach t u" using test_reach.step [OF test_reach.start u(1)] .
  then show ?thesis using u d by (intro exI [of _ u]) (simp add: solo_def)
qed

text \<open>The steps left, at most, until the operation is back at its first load or has returned.\<close>

fun to_load :: "'a pc \<Rightarrow> nat" where
  "to_load (PushLoadOther sd x i) = 6"
| "to_load (PushReload sd x i j) = 5"
| "to_load (PushClaim sd x i) = 4"
| "to_load (PushCas sd x i) = 3"
| "to_load (PushRelease sd x k) = 1"
| "to_load (PushWrite x k) = 2"
| "to_load (PushReady k) = 1"
| "to_load (PopLoadOther sd i) = 6"
| "to_load (PopReload sd i j) = 5"
| "to_load (PopClaim sd i) = 4"
| "to_load (PopCas sd i) = 3"
| "to_load (PopRestore sd k) = 1"
| "to_load (PopRead k) = 2"
| "to_load (PopFree k x) = 1"
| "to_load (ObsLoadTail h) = 2"
| "to_load (ObsReload h e) = 1"
| "to_load p = 0"

lemma to_load_less: "0 < to_load p \<Longrightarrow> to_load (snd (dq_step sp q p)) < to_load p"
  by (cases p) (auto simp: dq_step_def Let_def split: option.splits)

lemma to_load_running: "0 < to_load p \<Longrightarrow> \<not> is_finished p"
  by (cases p) auto

lemma to_load_unowned: "to_load p = 0 \<Longrightarrow> owned cap p = None"
  by (cases p) auto

lemma solo_to_load: "\<exists>u. solo i t u \<and> to_load (pcs (dq u) i) = 0"
proof (induction "to_load (pcs (dq t) i)" arbitrary: t rule: less_induct)
  case less
  show ?case
  proof (cases "to_load (pcs (dq t) i) = 0")
    case False
    then obtain u where u: "solo i t u" "to_load (pcs (dq u) i) < to_load (pcs (dq t) i)"
      using solo_step [OF to_load_running] to_load_less by (metis gr0I)
    then show ?thesis using less [OF u(2)] solo_trans by blast
  qed (use solo_refl in blast)
qed

text \<open>A run of an operation alone is a run of its thread.\<close>

lemma solo_exec:
  fixes t :: dq_test
  assumes "dq_exec q p = Some r" "shared (dq t) = q" "pcs (dq t) i = p"
  shows "\<exists>u. solo i t u \<and> shared (dq u) = fst r \<and> pcs (dq u) i = Finished (snd r)"
proof -
  have "\<forall>t :: dq_test. shared (dq t) = q \<longrightarrow> pcs (dq t) i = p \<longrightarrow>
      (\<exists>u. solo i t u \<and> shared (dq u) = fst r \<and> pcs (dq u) i = Finished (snd r))"
  proof (rule dq_exec.raw_induct [where P = "\<lambda>q p r. \<forall>t :: dq_test. shared (dq t) = q \<longrightarrow> pcs (dq t) i = p \<longrightarrow>
      (\<exists>u. solo i t u \<and> shared (dq u) = fst r \<and> pcs (dq u) i = Finished (snd r))", OF _ assms(1)],
      intro allI impI)
    fix f q p r and t :: dq_test
    assume IH: "\<And>q p r. f q p = Some r \<Longrightarrow> \<forall>t :: dq_test. shared (dq t) = q \<longrightarrow> pcs (dq t) i = p \<longrightarrow>
        (\<exists>u. solo i t u \<and> shared (dq u) = fst r \<and> pcs (dq u) i = Finished (snd r))"
      and eq: "(if is_finished p then Some (q, finished_result p)
        else f (fst (dq_step False q p)) (snd (dq_step False q p))) = Some r"
      and t: "shared (dq t) = q" "pcs (dq t) i = p"
    show "\<exists>u. solo i t u \<and> shared (dq u) = fst r \<and> pcs (dq u) i = Finished (snd r)"
    proof (cases "is_finished p")
      case True
      then show ?thesis using eq t solo_refl [of i t] by (intro exI [of _ t]) (cases p; auto)
    next
      case False
      then obtain u where u: "solo i t u" "shared (dq u) = fst (dq_step False q p)"
        "pcs (dq u) i = snd (dq_step False q p)" using solo_step t by blast
      then obtain v where "solo i u v" "shared (dq v) = fst r" "pcs (dq v) i = Finished (snd r)"
        using IH eq False by (metis (no_types, lifting))
      then show ?thesis using u(1) solo_trans by blast
    qed
  qed
  then show ?thesis using assms(2,3) by blast
qed

lemma exec_returns:
  assumes "wf_deque q" "to_load p = 0"
  shows "\<exists>r. dq_exec q p = Some r"
proof (cases p)
  case (PushLoad sd x)
  then show ?thesis using dq.add_returns [OF assms(1), of sd x] by (auto simp: dq_add_exec)
next
  case (PopLoad sd)
  then show ?thesis
    using dq.take_empty [OF assms(1), of sd] dq.take_some [OF assms(1), of sd]
    by (cases "dq_list q = []") (auto simp: dq_take_exec)
next
  case ObsLoad
  then show ?thesis using dq_snapshot_eq [of q] by (simp add: dq_snapshot_def)
qed (use assms(2) in simp_all)

subsection \<open>All operations end\<close>

definition test_good :: "side \<Rightarrow> nat \<Rightarrow> nat \<Rightarrow> nat \<Rightarrow> nat \<Rightarrow> nat \<Rightarrow> dq_test \<Rightarrow> bool" where
  "test_good sd np N cap T V t \<longleftrightarrow> np \<le> N \<and> (\<exists>P Q. test_inv sd np N cap T V P Q t)"

definition idle :: "dq_test \<Rightarrow> bool" where
  "idle t \<longleftrightarrow> (\<forall>i. is_finished (pcs (dq t) i))"

lemma test_good_reach: "test_reach t u \<Longrightarrow> test_good sd np N cap T V t \<Longrightarrow> test_good sd np N cap T V u"
proof (induction rule: test_reach.induct)
  case (step u i sp v)
  then show ?case unfolding test_good_def using test_next_inv by blast
qed

lemma good_outside:
  assumes "test_good sd np N cap T V t" "N \<le> i"
  shows "is_finished (pcs (dq t) i) \<and> is_ended (testers t i)"
proof -
  obtain P Q where inv: "test_inv sd np N cap T V P Q t" and np: "np \<le> N"
    using assms(1) by (auto simp: test_good_def)
  obtain n where "testers t i = Ended n"
    using role_active [OF test_invD(9) [OF inv] np, of i] assms(2) by force
  then show ?thesis using test_invD(8) [OF inv, of i] by simp
qed

lemma good_wf:
  assumes "test_good sd np N cap T V t" "\<And>i. to_load (pcs (dq t) i) = 0"
  shows "wf_deque (shared (dq t))"
proof -
  obtain P Q where inv: "test_inv sd np N cap T V P Q t" using assms(1) by (auto simp: test_good_def)
  show ?thesis by (rule unowned_wf(1) [OF test_invD(1) [OF inv]]) (use assms(2) in \<open>simp add: to_load_unowned\<close>)
qed

lemma finished_to_load: "is_finished p \<Longrightarrow> to_load p = 0"
  by (cases p) simp_all

lemma good_all_loads:
  assumes "test_good sd np N cap T V t"
  shows "\<exists>u. test_reach t u \<and> testers u = testers t \<and> (\<forall>i<k. to_load (pcs (dq u) i) = 0)"
proof (induction k)
  case 0
  then show ?case using test_reach.start by blast
next
  case (Suc k)
  then obtain u where u: "test_reach t u" "testers u = testers t" "\<forall>i<k. to_load (pcs (dq u) i) = 0" by blast
  obtain v where v: "solo k u v" "to_load (pcs (dq v) k) = 0" using solo_to_load by blast
  then have "\<forall>i<Suc k. to_load (pcs (dq v) i) = 0" using u(3) by (auto simp: solo_def less_Suc_eq)
  then show ?case using v(1) u test_reach_trans [of u v t] by (auto simp: solo_def)
qed

lemma loads_idle:
  assumes "test_good sd np N cap T V t" "\<And>i. to_load (pcs (dq t) i) = 0"
  shows "\<exists>u. test_reach t u \<and> testers u = testers t \<and> (\<forall>i. to_load (pcs (dq u) i) = 0) \<and>
    (\<forall>i<k. is_finished (pcs (dq u) i))"
proof (induction k)
  case 0
  then show ?case using test_reach.start assms(2) by blast
next
  case (Suc k)
  then obtain u where u: "test_reach t u" "testers u = testers t" "\<forall>i. to_load (pcs (dq u) i) = 0"
    "\<forall>i<k. is_finished (pcs (dq u) i)" by blast
  have "wf_deque (shared (dq u))" using good_wf [OF test_good_reach [OF u(1) assms(1)]] u(3) by blast
  then obtain r where "dq_exec (shared (dq u)) (pcs (dq u) k) = Some r" using exec_returns u(3) by blast
  then obtain v where v: "solo k u v" "pcs (dq v) k = Finished (snd r)"
    using solo_exec [OF _ refl refl] by blast
  have "to_load (pcs (dq v) i) = 0" for i using v u(3) by (cases "i = k") (auto simp: solo_def)
  moreover have "\<forall>i<Suc k. is_finished (pcs (dq v) i)" using v u(4) by (auto simp: solo_def less_Suc_eq)
  ultimately show ?case using v(1) u test_reach_trans [of u v t] by (auto simp: solo_def)
qed

lemma reach_idle:
  assumes "test_good sd np N cap T V t"
  shows "\<exists>u. test_reach t u \<and> testers u = testers t \<and> idle u"
proof -
  obtain u where u: "test_reach t u" "testers u = testers t" "\<forall>i<N. to_load (pcs (dq u) i) = 0"
    using good_all_loads [OF assms, of N] by blast
  have good: "test_good sd np N cap T V u" by (rule test_good_reach [OF u(1) assms])
  have "to_load (pcs (dq u) i) = 0" for i
    using u(3) good_outside [OF good, of i] finished_to_load by (cases "i < N") auto
  then obtain v where v: "test_reach u v" "testers v = testers u" "\<forall>i<N. is_finished (pcs (dq v) i)"
    using loads_idle [OF good, of N] by blast
  have "idle v"
    unfolding idle_def using v(3) good_outside [OF test_good_reach [OF v(1) good]] by (metis not_le)
  then show ?thesis using u v test_reach_trans [OF v(1) u(1)] by metis
qed

subsection \<open>All threads end\<close>

lemma idle_wf: "test_good sd np N cap T V t \<Longrightarrow> idle t \<Longrightarrow> wf_deque (shared (dq t))"
  by (rule good_wf) (simp_all add: idle_def finished_to_load)

lemma own_finish:
  assumes "idle t" "tester_step i t = Some u" "dq u = dq t"
  shows "test_reach t u \<and> idle u"
proof -
  have "test_next t i False = Some u" using assms(1,2) by (simp add: test_next_def idle_def)
  then show ?thesis using test_reach.step [OF test_reach.start] assms(1,3) by (simp add: idle_def)
qed

lemma call_finish:
  assumes good: "test_good sd np N cap T V t" and idle: "idle t"
    and call: "tester_step i t = call_dq i p l t" "is_start p"
  shows "\<exists>u q' r. dq_exec (shared (dq t)) p = Some (q', r) \<and> test_reach t u \<and> idle u \<and>
    testers u = (testers t)(i := l) \<and> flag u = flag t \<and> shared (dq u) = q' \<and> pcs (dq u) i = Finished r"
proof -
  have fin: "is_finished (pcs (dq t) j)" for j using idle by (simp add: idle_def)
  obtain s where s: "sys_next (dq t) (Invoke i p) = Some s" "shared s = shared (dq t)"
    "pcs s = (pcs (dq t))(i := p)" using fin call(2) by simp
  let ?t1 = "set_tester i l (t\<lparr>dq := s\<rparr>)"
  have t1: "test_next t i False = Some ?t1"
    using fin call(1) s(1) by (simp add: test_next_def call_dq_def)
  obtain q' r where r: "dq_exec (shared (dq t)) p = Some (q', r)"
    using exec_returns [OF idle_wf [OF good idle], of p] call(2) by (cases p) auto
  then obtain u where u: "solo i ?t1 u" "shared (dq u) = q'" "pcs (dq u) i = Finished r"
    using solo_exec [of _ p "(q', r)" ?t1 i] s by (auto simp: set_tester_def)
  have "test_reach t u"
    using u(1) test_reach_trans test_reach.step [OF test_reach.start t1] by (auto simp: solo_def)
  moreover have "idle u" unfolding idle_def
  proof
    show "is_finished (pcs (dq u) j)" for j
      using u s(3) fin by (cases "j = i") (auto simp: solo_def set_tester_def)
  qed
  moreover have "testers u = (testers t)(i := l)" "flag u = flag t"
    using u(1) by (simp_all add: solo_def set_tester_def)
  ultimately show ?thesis using u(2,3) r by blast
qed

lemma finish_producer:
  assumes "test_good sd np N cap T V t" "idle t" "testers t i = Produce s xs"
  shows "\<exists>u. test_reach t u \<and> idle u \<and> testers u = (testers t)(i := Ended 0)"
  using assms
proof (induction xs arbitrary: t)
  case Nil
  let ?u = "set_tester i (Ended 0) (t\<lparr>flag := flag t - 1\<rparr>)"
  have "test_reach t ?u \<and> idle ?u"
    by (rule own_finish [where i = i, OF Nil(2)]) (use Nil(3) in \<open>simp_all add: tester_step_def set_tester_def\<close>)
  then show ?case by (intro exI [of _ ?u]) (simp add: set_tester_def)
next
  case (Cons x xs)
  have "tester_step i t = call_dq i (PushLoad s x) (Pushing s xs) t"
    using Cons.prems(3) by (simp add: tester_step_def)
  from call_finish [OF Cons.prems(1,2) this] obtain u where u: "test_reach t u" "idle u"
    "testers u = (testers t)(i := Pushing s xs)" by auto
  let ?v = "set_tester i (Produce s xs) u"
  have v: "test_reach u ?v \<and> idle ?v"
    by (rule own_finish [where i = i, OF u(2)]) (use u(3) in \<open>simp_all add: tester_step_def set_tester_def\<close>)
  have tv: "test_reach t ?v" using test_reach_trans v u(1) by blast
  have ts: "testers ?v = (testers t)(i := Produce s xs)" using u(3) by (simp add: set_tester_def)
  have "\<exists>w. test_reach ?v w \<and> idle w \<and> testers w = (testers ?v)(i := Ended 0)"
    by (rule Cons.IH [OF test_good_reach [OF tv Cons.prems(1)]]) (use v ts in auto)
  then obtain w where "test_reach ?v w" "idle w" "testers w = (testers t)(i := Ended 0)"
    unfolding ts by auto
  then show ?case using test_reach_trans tv by blast
qed

lemma finish_consumer:
  assumes "test_good sd np N cap T V t" "idle t" "testers t i = CheckFlag s n" "flag t = 0"
  shows "\<exists>u m. test_reach t u \<and> idle u \<and> testers u = (testers t)(i := Ended m)"
  using assms
proof (induction "length (dq_list (shared (dq t)))" arbitrary: t n rule: less_induct)
  case less
  note good = less.prems(1)
  have "tester_step i t = call_dq i ObsLoad (Checking s n) t"
    using less.prems(3,4) by (simp add: tester_step_def)
  from call_finish [OF good less.prems(2) this] obtain u q' r where u: "test_reach t u" "idle u"
    "testers u = (testers t)(i := Checking s n)" "flag u = flag t" "shared (dq u) = q'"
    "pcs (dq u) i = Finished r" "dq_exec (shared (dq t)) ObsLoad = Some (q', r)" by auto
  have snap: "q' = shared (dq t)" "r = Snapshot (head q') (tail q')"
    using u(7) dq_snapshot_eq [of "shared (dq t)"] by (simp_all add: dq_snapshot_def)
  have goodu: "test_good sd np N cap T V u" by (rule test_good_reach [OF u(1) good])
  show ?case
  proof (cases "head q' = tail q'")
    case True
    let ?v = "set_tester i (Ended n) u"
    have "test_reach u ?v \<and> idle ?v"
      by (rule own_finish [where i = i, OF u(2)])
        (use u(3,6) snap True in \<open>simp_all add: tester_step_def set_tester_def\<close>)
    then show ?thesis
      using u(1,3) test_reach_trans by (intro exI [of _ ?v] exI [of _ n]) (auto simp: set_tester_def)
  next
    case False
    have "tester_step i u = call_dq i (PopLoad s) (Popping s n) u"
      using u(3,6) snap False by (simp add: tester_step_def)
    from call_finish [OF goodu u(2) this] obtain v q2 r2 where v: "test_reach u v" "idle v"
      "testers v = (testers u)(i := Popping s n)" "flag v = flag u" "shared (dq v) = q2"
      "pcs (dq v) i = Finished r2" "dq_exec (shared (dq u)) (PopLoad s) = Some (q2, r2)" by auto
    have wf: "wf_deque (shared (dq u))" by (rule idle_wf [OF goodu u(2)])
    have "dq_list (shared (dq u)) \<noteq> []" using pop_empty_iff [OF wf, of Front] False u(5) by simp
    from dq.take_some [OF wf this, of s] obtain x where x: "r2 = PopSome x"
      "dq_list (shared (dq u)) = add_at s x (dq_list q2)" using v(7) by (auto simp: dq_take_exec)
    let ?w = "set_tester i (CheckFlag s (n + x)) v"
    have w: "test_reach v ?w \<and> idle ?w"
      by (rule own_finish [where i = i, OF v(2)]) (use v(3,6) x in \<open>simp_all add: tester_step_def set_tester_def\<close>)
    have tw: "test_reach t ?w" using test_reach_trans w v(1) u(1) by blast
    have ts: "testers ?w = (testers t)(i := CheckFlag s (n + x))" using u(3) v(3) by (simp add: set_tester_def)
    have "length (dq_list (shared (dq ?w))) < length (dq_list (shared (dq t)))"
      using x(2) u(5) v(5) snap(1) by (simp add: set_tester_def)
    moreover have "flag ?w = 0" using u(4) v(4) less.prems(4) by (simp add: set_tester_def)
    ultimately obtain z m where "test_reach ?w z" "idle z" "testers z = (testers t)(i := Ended m)"
      using less.hyps [OF _ test_good_reach [OF tw good], of "n + x"] w ts by auto
    then show ?thesis using test_reach_trans tw by blast
  qed
qed

lemma finish_popping:
  assumes good: "test_good sd np N cap T V t" and idle: "idle t"
    and pop: "testers t i = Popping s n" "flag t = 0"
  shows "\<exists>u m. test_reach t u \<and> idle u \<and> testers u = (testers t)(i := Ended m)"
proof -
  obtain m where "tester_step i t = Some (set_tester i (CheckFlag s m) t)"
    using pop(1) by (cases "finished_result (pcs (dq t) i)") (simp_all add: tester_step_def)
  then have u: "test_reach t (set_tester i (CheckFlag s m) t) \<and> idle (set_tester i (CheckFlag s m) t)"
    by (rule own_finish [where i = i, OF idle]) (simp add: set_tester_def)
  have "\<exists>v m'. test_reach (set_tester i (CheckFlag s m) t) v \<and> idle v \<and>
      testers v = (testers (set_tester i (CheckFlag s m) t))(i := Ended m')"
    by (rule finish_consumer [OF test_good_reach [OF _ good]]) (use u pop(2) in \<open>auto simp: set_tester_def\<close>)
  then show ?thesis using u test_reach_trans by (fastforce simp: set_tester_def)
qed

lemma finish_thread:
  assumes good: "test_good sd np N cap T V t" and idle: "idle t" and np: "i < np \<or> flag t = 0"
  shows "\<exists>u m. test_reach t u \<and> idle u \<and> testers u = (testers t)(i := Ended m)"
proof -
  obtain P Q where inv: "test_inv sd np N cap T V P Q t" using good by (auto simp: test_good_def)
  note f = test_invD(8) [OF inv, of i] and r = test_invD(9) [OF inv, of i]
  show ?thesis
  proof (cases "testers t i")
    case (Produce s xs)
    then show ?thesis using finish_producer [OF good idle] by blast
  next
    case (Pushing s xs)
    let ?u = "set_tester i (Produce s xs) t"
    have u: "test_reach t ?u \<and> idle ?u"
      by (rule own_finish [where i = i, OF idle]) (use Pushing in \<open>simp_all add: tester_step_def set_tester_def\<close>)
    have "\<exists>v. test_reach ?u v \<and> idle v \<and> testers v = (testers ?u)(i := Ended 0)"
      by (rule finish_producer [OF test_good_reach [OF _ good]]) (use u in \<open>auto simp: set_tester_def\<close>)
    then show ?thesis using u test_reach_trans by (fastforce simp: set_tester_def)
  next
    case (CheckFlag s n)
    then show ?thesis using finish_consumer [OF good idle] np r by auto
  next
    case (Checking s n)
    have "is_finished (pcs (dq t) i)" using idle by (simp add: idle_def)
    then obtain res where res: "pcs (dq t) i = Finished res" by (cases "pcs (dq t) i") simp_all
    then have "in_obs (Finished res :: nat pc)" using f Checking by simp
    then obtain h e where snap: "pcs (dq t) i = Finished (Snapshot h e)" using res by (cases res) auto
    show ?thesis
    proof (cases "h = e")
      case True
      let ?u = "set_tester i (Ended n) t"
      have "test_reach t ?u \<and> idle ?u"
        by (rule own_finish [where i = i, OF idle])
          (use Checking snap True in \<open>simp_all add: tester_step_def set_tester_def\<close>)
      then show ?thesis by (intro exI [of _ ?u] exI [of _ n]) (simp add: set_tester_def)
    next
      case False
      then have "tester_step i t = call_dq i (PopLoad s) (Popping s n) t"
        using Checking snap by (simp add: tester_step_def)
      from call_finish [OF good idle this] obtain u where u: "test_reach t u" "idle u"
        "testers u = (testers t)(i := Popping s n)" "flag u = flag t" by auto
      have "\<exists>v m. test_reach u v \<and> idle v \<and> testers v = (testers u)(i := Ended m)"
        by (rule finish_popping [OF test_good_reach [OF u(1) good] u(2)])
          (use u(3,4) np r Checking in auto)
      then show ?thesis using u(1,3) test_reach_trans by fastforce
    qed
  next
    case (Popping s n)
    then show ?thesis using finish_popping [OF good idle] np r by auto
  next
    case (Ended n)
    then show ?thesis using test_reach.start idle by (intro exI [of _ t] exI [of _ n]) auto
  qed
qed

lemma finish_threads:
  assumes good: "test_good sd np N cap T V t" and idle: "idle t"
  shows "\<exists>u. test_reach t u \<and> idle u \<and> (\<forall>i<k. is_ended (testers u i))"
proof (induction k)
  case 0
  then show ?case using test_reach.start idle by blast
next
  case (Suc k)
  then obtain u where u: "test_reach t u" "idle u" "\<forall>i<k. is_ended (testers u i)" by blast
  have goodu: "test_good sd np N cap T V u" by (rule test_good_reach [OF u(1) good])
  then obtain P Q where inv: "test_inv sd np N cap T V P Q u" by (auto simp: test_good_def)
  have "k < np \<or> flag u = 0"
  proof (rule disjCI)
    assume "flag u \<noteq> 0"
    then have "producers N u \<noteq> 0" using test_invD(5) [OF inv] by simp
    then obtain i where i: "producing (testers u i)" unfolding producers_def
      by (metis (mono_tags, lifting) sum.neutral)
    then have "i < np" using test_invD(9) [OF inv, of i] by (cases "testers u i") auto
    moreover have "\<not> i < k" using i u(3) by (cases "testers u i") auto
    ultimately show "k < np" by simp
  qed
  then obtain v m where v: "test_reach u v" "idle v" "testers v = (testers u)(k := Ended m)"
    using finish_thread [OF goodu u(2)] by blast
  have "\<forall>i<Suc k. is_ended (testers v i)" using u(3) v(3) by (auto simp: less_Suc_eq)
  then show ?case using v(1,2) u(1) test_reach_trans by blast
qed

lemma test_can_end:
  assumes "test_good sd np N cap T V t"
  shows "\<exists>u. test_reach t u \<and> all_ended N u"
proof -
  obtain u where u: "test_reach t u" "idle u" using reach_idle [OF assms] by blast
  obtain v where "test_reach u v" "\<forall>i<N. is_ended (testers v i)"
    using finish_threads [OF test_good_reach [OF u(1) assms] u(2)] by blast
  then have "test_reach t v" "all_ended N v"
    using u(1) test_reach_trans by (auto simp: all_ended_def list_all_iff)
  then show ?thesis by blast
qed

end
