(* ===== verification/Deque_Tests_Props.thy ===== *)
theory Deque_Tests_Props
  imports Deque_Tests_Finish
begin

text \<open>
  What the multi-threaded tests of the deque can rely on, in every interleaving.
\<close>

subsection \<open>Tests with one direction\<close>

lemma all_endedD: "all_ended N t \<Longrightarrow> i < N \<Longrightarrow> \<exists>n. testers t i = Ended n"
  unfolding all_ended_def list_all_iff by (drule bspec [of _ _ i]) (auto elim: is_ended.elims)

lemma ended_sums:
  assumes inv: "test_inv sd np N cap T V P Q t" and np: "np < N" and e: "all_ended N t"
  shows "popped_sum N t = V"
proof -
  note I = test_invD [OF inv]
  have ended: "\<exists>n. testers t i = Ended n" if "i < N" for i using all_endedD [OF e that] .
  have QT: "Q = T" using I(9) [of np] ended [OF np] np by auto
  moreover have "Q \<le> P" using I(3) by (simp add: moved_def)
  ultimately have "dq_range (shared (dq t)) = []" using moved_length [OF I(3)] I(4) by simp
  then have "value_held N t = V" using I(6) by (simp add: abs_list_def)
  moreover have "value_held N t = popped_sum N t"
    unfolding value_held_def popped_sum_def using ended by (intro sum.cong) force+
  ultimately show ?thesis by simp
qed

lemma one_way_sums:
  assumes "test_reach (dq_test_new ps cs cap) t" and "length (all_items ps) < cap"
    and "\<forall>p \<in> set ps. fst p = sd" "\<forall>c \<in> set cs. c = opposite sd" "cs \<noteq> []"
  shows "pcs (dq t) i \<noteq> Finished (PushErr x) \<and> pcs (dq t) i \<noteq> Finished DqPanic \<and>
    pcs (dq t) i \<noteq> Finished DqUndefined \<and>
    (all_ended (length ps + length cs) t \<longrightarrow> popped_sum (length ps + length cs) t = sum_list (all_items ps))"
proof -
  obtain P Q where inv: "test_inv sd (length ps) (length ps + length cs) cap (length (all_items ps))
      (sum_list (all_items ps)) P Q t"
    using test_reach_inv [OF assms(1,2)] assms(3,4) by blast
  have "pcs (dq t) i \<noteq> Finished (PushErr x)" using test_invD(7) [OF inv, of i] by auto
  moreover have "pc_ok (shared (dq t)) (ghost (dq t)) (pcs (dq t) i)"
    by (rule sys_invD(5) [OF test_invD(1) [OF inv]])
  moreover have "all_ended (length ps + length cs) t \<longrightarrow> popped_sum (length ps + length cs) t = sum_list (all_items ps)"
    using ended_sums [OF inv] assms(5) by simp
  ultimately show ?thesis by (simp add: pc_ok_def)
qed

text \<open>The three tests of this kind, with the sum that each asserts.\<close>

lemma three_parts_concat: "concat (three_parts pad) = [0..<3 * pad]"
proof -
  have "[0..<pad + pad + pad] = [0..<pad] @ [pad..<pad + pad] @ [pad + pad..<pad + pad + pad]"
    using upt_add_eq_append [of 0 pad pad] upt_add_eq_append [of 0 "pad + pad" pad] by simp
  moreover have "2 * pad = pad + pad" "3 * pad = pad + pad + pad" by simp_all
  ultimately show ?thesis by (simp only: three_parts_def concat.simps append_Nil2)
qed

lemma items_three_parts: "all_items (map (Pair sd) (three_parts pad)) = [0..<3 * pad]"
  by (simp add: all_items_def comp_def three_parts_concat)

lemma one_way_parts:
  assumes "test_reach (dq_test_new (map (Pair sd) (three_parts pad)) cs cap) t" "3 * pad < cap"
    and "\<forall>c \<in> set cs. c = opposite sd" "cs \<noteq> []" "all_ended (3 + length cs) t"
  shows "popped_sum (3 + length cs) t = sum_list [0..<3 * pad]"
proof -
  have "length (map (Pair sd) (three_parts pad)) = 3" by (simp add: three_parts_def)
  then show ?thesis using one_way_sums [OF assms(1) _ _ assms(3,4)] assms(2,5)
    by (auto simp: items_three_parts)
qed

lemma unit_tests_sum:
  "test_reach test_mpsc t \<Longrightarrow> all_ended 4 t \<Longrightarrow> popped_sum 4 t = sum_list [0..<192]"
  "test_reach test_mpmc t \<Longrightarrow> all_ended 5 t \<Longrightarrow> popped_sum 5 t = sum_list [0..<192]"
  "test_reach test_mpmc_rev t \<Longrightarrow> all_ended 5 t \<Longrightarrow> popped_sum 5 t = sum_list [0..<192]"
  unfolding test_mpsc_def test_mpmc_def test_mpmc_rev_def
  using one_way_parts [of Back 64 "[Front]" 256 t] one_way_parts [of Back 64 "[Front, Front]" 256 t]
    one_way_parts [of Front 64 "[Back, Back]" 256 t]
  by (simp_all del: upt_rec_numeral)

text \<open>C12: in every interleaving of a test whose producers push at one end and whose consumers pop at the
  other, with fewer items than slots, no push is refused, no operation panics or touches memory it must
  not, and when all threads have ended the consumers have popped every item once: their sums add up to the
  sum of all items, which is what \<^verbatim>\<open>test_mpsc\<close>, \<^verbatim>\<open>test_mpmc\<close> and \<^verbatim>\<open>test_mpmc_rev\<close> assert.\<close>

theorem dq_test_sums:
  assumes "test_reach (dq_test_new ps cs cap) t" and "length (all_items ps) < cap"
    and "\<forall>p \<in> set ps. fst p = sd" "\<forall>c \<in> set cs. c = opposite sd" "cs \<noteq> []"
  shows "pcs (dq t) i \<noteq> Finished (PushErr x) \<and> pcs (dq t) i \<noteq> Finished DqPanic \<and>
    pcs (dq t) i \<noteq> Finished DqUndefined \<and>
    (all_ended (length ps + length cs) t \<longrightarrow> popped_sum (length ps + length cs) t = sum_list (all_items ps))"
  using one_way_sums [OF assms] .

fun test_run :: "nat list \<Rightarrow> dq_test \<Rightarrow> dq_test option" where
  "test_run [] t = Some t"
| "test_run (i # is) t = (case test_next t i False of None \<Rightarrow> None | Some t' \<Rightarrow> test_run is t')"

lemma test_run_reach: "test_reach t0 t \<Longrightarrow> test_run is t = Some t' \<Longrightarrow> test_reach t0 t'"
  by (induction "is" arbitrary: t) (auto split: option.splits intro: test_reach.step)

text \<open>Thread \<open>i\<close> takes \<open>n\<close> turns, and so on.\<close>

definition turns :: "(nat \<times> nat) list \<Rightarrow> nat list" where
  "turns xs = concat (map (\<lambda>(n, i). replicate n i) xs)"

lemma option_runD: "(case r of None \<Rightarrow> False | Some y \<Rightarrow> P y) \<longleftrightarrow> (\<exists>y. r = Some y \<and> P y)"
  by (cases r) simp_all

lemma two_threads_run:
  "case test_run (turns [(10, 0), (18, 1)]) (dq_test_new [(Back, [7])] [Front] 2) of
     None \<Rightarrow> False | Some t \<Rightarrow> all_ended 2 t"
  by code_simp

theorem dq_test_sums_witness:
  "\<exists>t. test_reach (dq_test_new [(Back, [7])] [Front] 2) t \<and> all_ended 2 t \<and> popped_sum 2 t = 7"
proof -
  obtain t where t: "test_reach (dq_test_new [(Back, [7])] [Front] 2) t" "all_ended 2 t"
    using two_threads_run test_run_reach [OF test_reach.start] unfolding option_runD by blast
  then show ?thesis
    using dq_test_sums [OF t(1), of Back] by (auto simp: all_items_def numeral_2_eq_2)
qed

text \<open>C13: such a test is never stuck: from every state it can reach, some schedule lets all its threads end,
  and then the sum is right. So no push or pop waits for ever for another that is under way.\<close>

theorem dq_test_can_end:
  assumes "test_reach (dq_test_new ps cs cap) t" and "length (all_items ps) < cap"
    and "\<forall>p \<in> set ps. fst p = sd" "\<forall>c \<in> set cs. c = opposite sd" "cs \<noteq> []"
  shows "\<exists>u. test_reach t u \<and> all_ended (length ps + length cs) u \<and>
    popped_sum (length ps + length cs) u = sum_list (all_items ps)"
proof -
  have "test_good sd (length ps) (length ps + length cs) cap (length (all_items ps)) (sum_list (all_items ps)) t"
    unfolding test_good_def using test_reach_inv [OF assms(1,2)] assms(3,4) by simp
  then obtain u where u: "test_reach t u" "all_ended (length ps + length cs) u" using test_can_end by blast
  then show ?thesis
    using one_way_sums [OF test_reach_trans [OF u(1) assms(1)] assms(2-5)] by blast
qed

theorem dq_test_can_end_witness:
  "\<exists>u. test_reach test_mpmc u \<and> all_ended 5 u \<and> popped_sum 5 u = sum_list [0..<192]"
proof -
  have "length (map (Pair Back) (three_parts 64)) = 3" by (simp add: three_parts_def)
  then show ?thesis
    using dq_test_can_end [of "map (Pair Back) (three_parts 64)" "[Front, Front]" 256 test_mpmc Back]
      test_reach.start [of test_mpmc]
    by (simp add: items_three_parts test_mpmc_def del: upt_rec_numeral)
qed

subsection \<open>Pushes and pops at both ends\<close>

definition mixed :: dq_test where
  "mixed = dq_test_new [(Front, [1]), (Back, [2]), (Front, [3])] [Front, Back] 4"

definition mixed_turns :: "nat list" where
  "mixed_turns = turns [(2, 0), (9, 2), (9, 4), (1, 0), (9, 1), (9, 3), (1, 0)]"

definition mixed_rest :: "nat list" where
  "mixed_rest = turns [(2, 0), (1, 1), (1, 2), (5, 3), (5, 4)]"

lemma mixed_run:
  "case test_run mixed_turns mixed of None \<Rightarrow> False | Some t \<Rightarrow>
     pcs (dq t) 0 = Finished (PushErr 1) \<and> head (shared (dq t)) = tail (shared (dq t)) \<and>
     (case test_run mixed_rest t of None \<Rightarrow> False | Some u \<Rightarrow> all_ended 5 u \<and> popped_sum 5 u = 5)"
  by code_simp


end
