(* ===== verification/BTreeMap.thy ===== *)
theory BTreeMap
  imports Prelude
begin

unbundle bit_operations_syntax

text \<open>
  The fixed-capacity ordered map \<^verbatim>\<open>LockFreeBTreeMap\<close> of \<^verbatim>\<open>utils/src/btreemap.rs\<close>: a table of
  \<open>CAPACITY\<close> slots, each with a 64-bit word that packs a 32-bit version (high half) and a 32-bit
  state (low half), searched linearly. The operations are those of one thread at a time; every
  check that only another thread could make fail is kept.

  A storage cell that is \<open>None\<close> is uninitialised (or its entry was dropped); reading it is
  undefined behaviour and ends in \<open>Inl Undefined\<close>.
\<close>

subsection \<open>The packed slot state\<close>

definition STATE_EMPTY :: u32 where "STATE_EMPTY = 0"
definition STATE_WRITING :: u32 where "STATE_WRITING = 1"
definition STATE_VALID :: u32 where "STATE_VALID = 2"
definition STATE_DELETING :: u32 where "STATE_DELETING = 3"

definition VERSION_SHIFT :: nat where "VERSION_SHIFT = 32"

definition pack_state :: "u32 \<Rightarrow> u32 \<Rightarrow> usize" where
  "pack_state version st = push_bit VERSION_SHIFT (ucast version) OR ucast st"

definition load_state_version :: "usize \<Rightarrow> u32 \<times> u32" where
  "load_state_version w = (ucast w AND 0xFFFFFFFF, ucast (drop_bit VERSION_SHIFT w))"

definition slot_is_valid :: "usize \<Rightarrow> bool" where
  "slot_is_valid w \<longleftrightarrow> fst (load_state_version w) = STATE_VALID"

definition slot_is_empty :: "usize \<Rightarrow> bool" where
  "slot_is_empty w \<longleftrightarrow> fst (load_state_version w) = STATE_EMPTY"

definition try_lock_for_write :: "u32 \<Rightarrow> usize \<Rightarrow> bool \<times> usize" where
  "try_lock_for_write new_version w =
     (if w = 0 then (True, pack_state new_version STATE_WRITING) else (False, w))"

definition try_lock_for_delete :: "usize \<Rightarrow> u32 option \<times> usize" where
  "try_lock_for_delete w = (let (st, version) = load_state_version w in
     if st \<noteq> STATE_VALID then (None, w) else (Some version, pack_state version STATE_DELETING))"

definition mark_valid :: "u32 \<Rightarrow> usize" where
  "mark_valid version = pack_state version STATE_VALID"

definition mark_empty :: usize where
  "mark_empty = 0"

definition get_version_if_valid :: "usize \<Rightarrow> u32 option" where
  "get_version_if_valid w = (let (st, version) = load_state_version w in
     if st = STATE_VALID then Some version else None)"

subsection \<open>The map\<close>

record ('k, 'v) entry =
  entry_key :: 'k
  entry_value :: 'v
  insert_version :: usize
  slot_version :: usize

record ('k, 'v) btm =
  storage :: "('k, 'v) entry option list"
  slot_states :: "usize list"
  btm_len :: usize
  global_version :: usize

definition btm_new :: "nat \<Rightarrow> ('k, 'v) btm" where
  "btm_new cap = \<lparr>storage = replicate cap None, slot_states = replicate cap 0,
     btm_len = 0, global_version = 1\<rparr>"

definition btm_capacity :: "('k, 'v) btm \<Rightarrow> nat" where
  "btm_capacity m = length (slot_states m)"

definition put_slot :: "nat \<Rightarrow> ('k, 'v) entry option \<Rightarrow> usize \<Rightarrow> ('k, 'v) btm \<Rightarrow> ('k, 'v) btm" where
  "put_slot i e w m = m\<lparr>storage := (storage m)[i := e], slot_states := (slot_states m)[i := w]\<rparr>"

definition put_state :: "nat \<Rightarrow> usize \<Rightarrow> ('k, 'v) btm \<Rightarrow> ('k, 'v) btm" where
  "put_state i w m = m\<lparr>slot_states := (slot_states m)[i := w]\<rparr>"

text \<open>Phase 1 of \<^verbatim>\<open>insert\<close>: look for the key and replace its entry; \<open>Some old\<close> is the early return,
  \<open>None\<close> the fall-through (the inner \<^verbatim>\<open>break\<close> falls through as well).\<close>

fun insert_update :: "nat list \<Rightarrow> 'k \<Rightarrow> 'v \<Rightarrow> usize \<Rightarrow> u32 \<Rightarrow> ('k, 'v) btm \<Rightarrow>
    (('k, 'v) btm \<times> 'v option) outcome" where
  "insert_update [] k v iv sv m = Inr (m, None)"
| "insert_update (i # is) k v iv sv m =
     (case get_version_if_valid (slot_states m ! i) of
        None \<Rightarrow> insert_update is k v iv sv m
      | Some version \<Rightarrow>
          (case storage m ! i of
             None \<Rightarrow> Inl Undefined
           | Some e \<Rightarrow>
               if entry_key e = k \<and> slot_version e = ucast version then
                 (case try_lock_for_delete (slot_states m ! i) of
                    (None, w) \<Rightarrow> insert_update is k v iv sv m
                  | (Some locked, w) \<Rightarrow>
                      if locked = version then
                        Inr (put_slot i (Some \<lparr>entry_key = k, entry_value = v, insert_version = iv,
                          slot_version = ucast sv\<rparr>) (mark_valid sv) m, Some (entry_value e))
                      else Inr (put_state i (mark_valid locked) m, None))
               else insert_update is k v iv sv m))"

text \<open>Phase 2 of \<^verbatim>\<open>insert\<close>: claim an empty slot.\<close>

fun insert_claim :: "nat list \<Rightarrow> 'k \<Rightarrow> 'v \<Rightarrow> usize \<Rightarrow> u32 \<Rightarrow> ('k, 'v) btm \<Rightarrow>
    ('k, 'v) btm option" where
  "insert_claim [] k v iv sv m = None"
| "insert_claim (i # is) k v iv sv m =
     (case try_lock_for_write sv (slot_states m ! i) of
        (True, w) \<Rightarrow>
          Some ((put_slot i (Some \<lparr>entry_key = k, entry_value = v, insert_version = iv,
            slot_version = ucast sv\<rparr>) (mark_valid sv) m)\<lparr>btm_len := btm_len m + 1\<rparr>)
      | (False, w) \<Rightarrow> insert_claim is k v iv sv m)"

fun insert_retry :: "nat \<Rightarrow> 'k \<Rightarrow> 'v \<Rightarrow> usize \<Rightarrow> u32 \<Rightarrow> ('k, 'v) btm \<Rightarrow>
    (('k, 'v) btm \<times> 'v option option) outcome" where
  "insert_retry 0 k v iv sv m = Inr (m, None)"
| "insert_retry (Suc n) k v iv sv m =
     bind_outcome (insert_update [0..<btm_capacity m] k v iv sv m) (\<lambda>(m1, upd).
       case upd of
         Some old \<Rightarrow> Inr (m1, Some (Some old))
       | None \<Rightarrow>
           (case insert_claim [0..<btm_capacity m1] k v iv sv m1 of
              Some m2 \<Rightarrow> Inr (m2, Some None)
            | None \<Rightarrow> insert_retry n k v iv sv m1))"

definition btm_insert :: "'k \<Rightarrow> 'v \<Rightarrow> ('k, 'v) btm \<Rightarrow> (('k, 'v) btm \<times> 'v option option) outcome" where
  "btm_insert k v m =
     (let iv = global_version m; sv = ucast (iv AND 0xFFFFFFFF) in
      insert_retry (btm_capacity m) k v iv sv (m\<lparr>global_version := iv + 1\<rparr>))"

subsection \<open>Candidates and the minimum\<close>

record ('k, 'v) candidate =
  cand_key :: 'k
  cand_value :: 'v
  cand_insert_version :: usize
  cand_index :: nat
  cand_slot_version :: u32

definition candidates_push :: "nat \<Rightarrow> ('k, 'v) candidate list \<Rightarrow> ('k, 'v) candidate \<Rightarrow>
    ('k, 'v) candidate list \<times> bool" where
  "candidates_push cap cs c = (if length cs < cap then (cs @ [c], True) else (cs, False))"

fun collect_candidates :: "nat list \<Rightarrow> ('k, 'v) btm \<Rightarrow> ('k, 'v) candidate list \<Rightarrow>
    ('k, 'v) candidate list outcome" where
  "collect_candidates [] m cs = Inr cs"
| "collect_candidates (i # is) m cs =
     (case get_version_if_valid (slot_states m ! i) of
        None \<Rightarrow> collect_candidates is m cs
      | Some version \<Rightarrow>
          (case storage m ! i of
             None \<Rightarrow> Inl Undefined
           | Some e \<Rightarrow>
               if slot_version e = ucast version \<and>
                  get_version_if_valid (slot_states m ! i) = Some version
               then (case candidates_push (btm_capacity m) cs
                       \<lparr>cand_key = entry_key e, cand_value = entry_value e,
                        cand_insert_version = insert_version e, cand_index = i,
                        cand_slot_version = version\<rparr> of
                       (cs', True) \<Rightarrow> collect_candidates is m cs'
                     | (cs', False) \<Rightarrow> Inr cs')
               else collect_candidates is m cs))"

definition candidate_less :: "('k::linorder, 'v) candidate \<Rightarrow> ('k, 'v) candidate \<Rightarrow> bool" where
  "candidate_less a b =
     (if cand_key a = cand_key b then cand_insert_version a < cand_insert_version b
      else cand_key a < cand_key b)"

fun find_min_from :: "('c \<Rightarrow> 'c \<Rightarrow> bool) \<Rightarrow> 'c \<Rightarrow> 'c list \<Rightarrow> 'c" where
  "find_min_from lt c [] = c"
| "find_min_from lt c (d # ds) = find_min_from lt (if lt d c then d else c) ds"

definition find_min_by :: "('c \<Rightarrow> 'c \<Rightarrow> bool) \<Rightarrow> 'c list \<Rightarrow> 'c option" where
  "find_min_by lt cs = (case cs of [] \<Rightarrow> None | c # ds \<Rightarrow> Some (find_min_from lt c ds))"

definition first_key_value :: "('k::linorder, 'v) btm \<Rightarrow> ('k \<times> 'v) option outcome" where
  "first_key_value m =
     bind_outcome (collect_candidates [0..<btm_capacity m] m []) (\<lambda>cs.
       Inr (map_option (\<lambda>c. (cand_key c, cand_value c)) (find_min_by candidate_less cs)))"

definition MAX_RETRIES :: nat where "MAX_RETRIES = 16"

fun pop_retry :: "nat \<Rightarrow> ('k::linorder, 'v) btm \<Rightarrow> (('k, 'v) btm \<times> ('k \<times> 'v) option) outcome" where
  "pop_retry 0 m = Inr (m, None)"
| "pop_retry (Suc n) m =
     bind_outcome (collect_candidates [0..<btm_capacity m] m []) (\<lambda>cs.
       case find_min_by candidate_less cs of
         None \<Rightarrow> Inr (m, None)
       | Some c \<Rightarrow>
           let i = cand_index c in
           (case try_lock_for_delete (slot_states m ! i) of
              (None, w) \<Rightarrow> pop_retry n m
            | (Some locked, w) \<Rightarrow>
                if locked = cand_slot_version c then
                  (case storage m ! i of
                     None \<Rightarrow> Inl Undefined
                   | Some e \<Rightarrow>
                       if entry_key e = cand_key c \<and> insert_version e = cand_insert_version c \<and>
                          slot_version e = ucast locked
                       then Inr ((put_slot i None mark_empty m)\<lparr>btm_len := btm_len m - 1\<rparr>,
                                 Some (entry_key e, entry_value e))
                       else pop_retry n (put_state i (mark_valid locked) m))
                else pop_retry n (put_state i (mark_valid locked) m)))"

definition pop_first :: "('k::linorder, 'v) btm \<Rightarrow> (('k, 'v) btm \<times> ('k \<times> 'v) option) outcome" where
  "pop_first m = pop_retry MAX_RETRIES m"

subsection \<open>Length, clear and traversal\<close>

definition btm_is_empty :: "('k, 'v) btm \<Rightarrow> bool" where
  "btm_is_empty m \<longleftrightarrow> btm_len m = 0"

fun count_valid :: "nat list \<Rightarrow> ('k, 'v) btm \<Rightarrow> usize \<Rightarrow> usize" where
  "count_valid [] m n = n"
| "count_valid (i # is) m n =
     count_valid is m (if slot_is_valid (slot_states m ! i) then n + 1 else n)"

definition exact_len :: "('k, 'v) btm \<Rightarrow> usize" where
  "exact_len m = count_valid [0..<btm_capacity m] m 0"

fun clear_slots :: "nat list \<Rightarrow> ('k, 'v) btm \<Rightarrow> ('k, 'v) btm" where
  "clear_slots [] m = m"
| "clear_slots (i # is) m =
     clear_slots is
       (case get_version_if_valid (slot_states m ! i) of
          None \<Rightarrow> m
        | Some version \<Rightarrow>
            (case try_lock_for_delete (slot_states m ! i) of
               (None, w) \<Rightarrow> m
             | (Some locked, w) \<Rightarrow>
                 if locked = version
                 then (put_slot i None mark_empty m)\<lparr>btm_len := btm_len m - 1\<rparr>
                 else put_state i (mark_valid locked) m))"

definition btm_clear :: "('k, 'v) btm \<Rightarrow> ('k, 'v) btm" where
  "btm_clear m = clear_slots [0..<btm_capacity m] m"

text \<open>\<^verbatim>\<open>for_each\<close>: the sequence of pairs the callback is given.\<close>

fun visit_slots :: "nat list \<Rightarrow> ('k, 'v) btm \<Rightarrow> ('k \<times> 'v) list outcome" where
  "visit_slots [] m = Inr []"
| "visit_slots (i # is) m =
     (case get_version_if_valid (slot_states m ! i) of
        None \<Rightarrow> visit_slots is m
      | Some version \<Rightarrow>
          (case storage m ! i of
             None \<Rightarrow> Inl Undefined
           | Some e \<Rightarrow>
               if slot_version e = ucast version \<and>
                  get_version_if_valid (slot_states m ! i) = Some version
               then bind_outcome (visit_slots is m) (\<lambda>ps. Inr ((entry_key e, entry_value e) # ps))
               else visit_slots is m))"

definition btm_for_each :: "('k, 'v) btm \<Rightarrow> ('k \<times> 'v) list outcome" where
  "btm_for_each m = visit_slots [0..<btm_capacity m] m"

end
