(* ===== verification/BTreeMap_Spec.thy ===== *)
theory BTreeMap_Spec
  imports BTreeMap "HOL-Library.Multiset"
begin

unbundle bit_operations_syntax

text \<open>
  The map of \<^verbatim>\<open>utils/src/btreemap.rs\<close> as a finite collection of key-value pairs: the invariant of
  the slot table, the effect of each operation on the pairs, and the contract \<open>ordered_map\<close> that
  the CFS scheduler relies on, interpreted on the model.
\<close>

subsection \<open>The packed word\<close>

named_theorems slot_word_simps

lemma and_mask32: "(x :: u32) AND 0xFFFFFFFF = x"
proof -
  have "(0xFFFFFFFF :: u32) = - 1" by simp
  then show ?thesis by (simp only: and.right_neutral)
qed

lemma load_pack [slot_word_simps]: "load_state_version (pack_state v st) = (st, v)"
proof -
  have "(ucast (push_bit 32 (ucast v :: usize) OR ucast st) :: u32) = st"
    by (rule bit_word_eqI) (auto simp: bit_simps)
  moreover have "(ucast (drop_bit 32 (push_bit 32 (ucast v :: usize) OR ucast st)) :: u32) = v"
    by (rule bit_word_eqI) (auto simp: bit_simps dest: bit_imp_le_length)
  ultimately show ?thesis
    by (simp add: load_state_version_def pack_state_def VERSION_SHIFT_def and_mask32)
qed

text \<open>Arithmetic forms of the packing, for evaluation.\<close>

lemma pack_state_code [code]:
  "pack_state v st = word_of_int (uint v * 4294967296 + uint st)"
proof -
  have "pack_state v st = push_bit 32 (ucast v :: usize) + ucast st"
    unfolding pack_state_def VERSION_SHIFT_def
    by (rule disjunctive_add [symmetric]) (auto simp: bit_simps dest: bit_imp_le_length)
  also have "\<dots> = word_of_int (uint v * 4294967296 + uint st)"
    by (simp add: push_bit_eq_mult)
  finally show ?thesis .
qed

lemma load_state_version_code [code]:
  "load_state_version w = (word_of_int (uint w), word_of_int (uint w div 4294967296))"
proof -
  have "uint (drop_bit 32 w) = uint w div 4294967296"
    using unsigned_less [of w, where 'a = int] by (simp add: unsigned_drop_bit_eq) (simp add: drop_bit_eq_div take_bit_int_eq_self)
  moreover have "ucast (drop_bit 32 w) = (word_of_int (uint (drop_bit 32 w)) :: u32)" by (rule ucast_eq)
  moreover have "ucast w = (word_of_int (uint w) :: u32)" by (rule ucast_eq)
  ultimately show ?thesis by (simp only: load_state_version_def VERSION_SHIFT_def and_mask32)
qed

lemma load_zero [slot_word_simps]: "load_state_version 0 = (STATE_EMPTY, 0)"
  by (simp add: load_state_version_def STATE_EMPTY_def)

lemma get_version_simps [slot_word_simps]:
  "get_version_if_valid 0 = None" "get_version_if_valid (mark_valid v) = Some v"
  by (simp_all add: get_version_if_valid_def mark_valid_def load_pack load_zero STATE_EMPTY_def STATE_VALID_def)

lemma lock_delete_valid [slot_word_simps]:
  "try_lock_for_delete (mark_valid v) = (Some v, pack_state v STATE_DELETING)"
  by (simp add: try_lock_for_delete_def mark_valid_def load_pack)

lemma mark_valid_nz [slot_word_simps]: "mark_valid v \<noteq> 0"
proof
  assume "mark_valid v = 0"
  then have "get_version_if_valid (mark_valid v) = None" by (simp add: get_version_simps)
  then show False by (simp add: get_version_simps)
qed

lemma lock_write_simps [slot_word_simps]:
  "try_lock_for_write sv 0 = (True, pack_state sv STATE_WRITING)"
  "try_lock_for_write sv (mark_valid v) = (False, mark_valid v)"
  by (simp_all add: try_lock_for_write_def mark_valid_nz)

lemma slot_is_valid_simps [slot_word_simps]:
  "slot_is_valid (mark_valid v)" "\<not> slot_is_valid 0"
  by (simp_all add: slot_is_valid_def mark_valid_def load_pack load_zero STATE_EMPTY_def STATE_VALID_def)

subsection \<open>The invariant and the pairs\<close>

definition live :: "('k, 'v) btm \<Rightarrow> nat \<Rightarrow> ('k, 'v) entry option" where
  "live m i = (if slot_states m ! i = 0 then None else storage m ! i)"

definition slot_wf :: "('k, 'v) btm \<Rightarrow> nat \<Rightarrow> bool" where
  "slot_wf m i \<longleftrightarrow> slot_states m ! i = 0 \<or>
     (\<exists>v e. slot_states m ! i = mark_valid v \<and> storage m ! i = Some e \<and> slot_version e = ucast v)"

definition live_entries :: "('k, 'v) btm \<Rightarrow> ('k, 'v) entry list" where
  "live_entries m = List.map_filter (live m) [0..<btm_capacity m]"

definition btm_pairs :: "('k, 'v) btm \<Rightarrow> ('k \<times> 'v) list" where
  "btm_pairs m = map (\<lambda>e. (entry_key e, entry_value e)) (live_entries m)"

definition wf_btm :: "('k, 'v) btm \<Rightarrow> bool" where
  "wf_btm m \<longleftrightarrow> length (storage m) = btm_capacity m \<and> btm_capacity m < 2 ^ 64 \<and>
     (\<forall>i < btm_capacity m. slot_wf m i) \<and> distinct (map fst (btm_pairs m)) \<and>
     btm_len m = of_nat (length (btm_pairs m))"

lemma wf_btmD:
  assumes "wf_btm m"
  shows "length (storage m) = btm_capacity m" "btm_capacity m < 2 ^ 64"
    "i < btm_capacity m \<Longrightarrow> slot_wf m i" "distinct (map fst (btm_pairs m))"
    "btm_len m = of_nat (length (btm_pairs m))"
  using assms by (auto simp: wf_btm_def)

lemma slot_cases:
  assumes "slot_wf m i"
  obtains (empty) "slot_states m ! i = 0" "live m i = None"
    | (valid) v e where "slot_states m ! i = mark_valid v" "storage m ! i = Some e"
        "slot_version e = ucast v" "live m i = Some e"
  using assms by (auto simp: slot_wf_def live_def slot_word_simps)

lemma map_filter_Cons: "List.map_filter f (x # xs) =
    (case f x of None \<Rightarrow> List.map_filter f xs | Some y \<Rightarrow> y # List.map_filter f xs)"
  by (simp split: option.split)

lemma set_map_filter: "set (List.map_filter f xs) = {y. \<exists>x \<in> set xs. f x = Some y}"
  by (induction xs) (auto split: option.splits)

lemma map_filter_cong_on: "(\<And>x. x \<in> set xs \<Longrightarrow> f x = g x) \<Longrightarrow> List.map_filter f xs = List.map_filter g xs"
  by (induction xs) (auto split: option.split)

lemma length_map_filter_le: "length (List.map_filter f xs) \<le> length xs"
  by (induction xs) (auto split: option.splits)

lemma length_map_filter_eq: "length (List.map_filter f xs) = length xs \<longleftrightarrow> (\<forall>x \<in> set xs. f x \<noteq> None)"
proof (induction xs)
  case (Cons x xs)
  then show ?case using length_map_filter_le [of f xs] by (auto split: option.splits)
qed simp

definition mset_option :: "'a option \<Rightarrow> 'a multiset" where
  "mset_option x = (case x of None \<Rightarrow> {#} | Some y \<Rightarrow> {#y#})"

lemma mset_option_simps [simp]: "mset_option None = {#}" "mset_option (Some y) = {#y#}"
  by (simp_all add: mset_option_def)

lemma mset_map_filter_update:
  assumes "distinct xs" "i \<in> set xs" "g i = y" "\<And>j. j \<in> set xs \<Longrightarrow> j \<noteq> i \<Longrightarrow> g j = f j"
  shows "mset (List.map_filter g xs) + mset_option (f i) = mset (List.map_filter f xs) + mset_option y"
  using assms
proof (induction xs)
  case (Cons x xs)
  show ?case
  proof (cases "x = i")
    case True
    then have "List.map_filter g xs = List.map_filter f xs"
      using Cons.prems by (intro map_filter_cong_on) auto
    then show ?thesis using True Cons.prems(3) by (auto split: option.splits)
  next
    case False
    then have "mset (List.map_filter g xs) + mset_option (f i) = mset (List.map_filter f xs) + mset_option y"
      using Cons by auto
    moreover have "g x = f x" using Cons.prems(4) [of x] False by simp
    ultimately show ?thesis by (auto split: option.splits)
  qed
qed simp

lemma live_entries_update:
  assumes "i < btm_capacity m" "btm_capacity m' = btm_capacity m" "live m' i = y"
    and "\<And>j. j < btm_capacity m \<Longrightarrow> j \<noteq> i \<Longrightarrow> live m' j = live m j"
  shows "mset (live_entries m') + mset_option (live m i) = mset (live_entries m) + mset_option y"
  unfolding live_entries_def assms(2) using assms by (intro mset_map_filter_update) auto

lemma in_live_entries: "e \<in> set (live_entries m) \<longleftrightarrow> (\<exists>i < btm_capacity m. live m i = Some e)"
  by (auto simp: live_entries_def set_map_filter)

lemma in_btm_pairs:
  "(k, v) \<in> set (btm_pairs m) \<longleftrightarrow>
     (\<exists>i < btm_capacity m. \<exists>e. live m i = Some e \<and> entry_key e = k \<and> entry_value e = v)"
  by (force simp: btm_pairs_def in_live_entries)

lemma distinct_of_mset: "mset xs = mset ys \<Longrightarrow> distinct xs = distinct ys"
  by (metis mset_eq_imp_distinct_iff)

lemma btm_pairs_new [simp]: "btm_pairs (btm_new cap) = []"
  by (auto simp: btm_pairs_def live_entries_def btm_capacity_def btm_new_def live_def set_map_filter
      simp flip: set_empty)

lemma btm_capacity_new [simp]: "btm_capacity (btm_new cap) = cap"
  by (simp add: btm_capacity_def btm_new_def)

lemma wf_btm_new: "cap < 2 ^ 64 \<Longrightarrow> wf_btm (btm_new cap)"
  unfolding wf_btm_def by (simp add: slot_wf_def) (simp add: btm_capacity_def btm_new_def)

subsection \<open>Writing one slot\<close>

lemma put_slot_simps [simp]:
  "btm_capacity (put_slot i e w m) = btm_capacity m" "btm_len (put_slot i e w m) = btm_len m"
  "btm_capacity (m\<lparr>btm_len := n\<rparr>) = btm_capacity m" "live (m\<lparr>btm_len := n\<rparr>) = live m"
  "btm_capacity (m\<lparr>global_version := g\<rparr>) = btm_capacity m" "live (m\<lparr>global_version := g\<rparr>) = live m"
  "slot_wf (m\<lparr>btm_len := n\<rparr>) = slot_wf m" "slot_wf (m\<lparr>global_version := g\<rparr>) = slot_wf m"
  "length (storage (put_slot i e w m)) = length (storage m)"
  by (simp_all add: put_slot_def btm_capacity_def live_def slot_wf_def fun_eq_iff)

lemma pairs_frame [simp]:
  "btm_pairs (m\<lparr>btm_len := n\<rparr>) = btm_pairs m" "btm_pairs (m\<lparr>global_version := g\<rparr>) = btm_pairs m"
  by (simp_all add: btm_pairs_def live_entries_def)

lemma put_slot_live:
  assumes "length (storage m) = btm_capacity m" "j < btm_capacity m" "i < btm_capacity m"
  shows "live (put_slot i e w m) j = (if j = i then (if w = 0 then None else e) else live m j)"
    and "slot_wf (put_slot i e w m) j \<longleftrightarrow>
      (if j = i then w = 0 \<or> (\<exists>v x. w = mark_valid v \<and> e = Some x \<and> slot_version x = ucast v)
       else slot_wf m j)"
  using assms by (auto simp: put_slot_def live_def slot_wf_def btm_capacity_def nth_list_update)

text \<open>Replacing the entry of one slot replaces one pair.\<close>

lemma put_slot_pairs:
  assumes len: "length (storage m) = btm_capacity m" and i: "i < btm_capacity m"
  shows "mset (btm_pairs (put_slot i (Some e) (mark_valid sv) m)) +
      mset_option (map_option (\<lambda>e. (entry_key e, entry_value e)) (live m i)) =
    add_mset (entry_key e, entry_value e) (mset (btm_pairs m))" (is ?put)
    and "mset (btm_pairs (put_slot i None mark_empty m)) +
      mset_option (map_option (\<lambda>e. (entry_key e, entry_value e)) (live m i)) = mset (btm_pairs m)" (is ?del)
proof -
  let ?f = "\<lambda>e. (entry_key e, entry_value e)"
  have im: "image_mset ?f (mset_option x) = mset_option (map_option ?f x)" for x :: "('a, 'b) entry option"
    by (cases x) auto
  have "mset (live_entries (put_slot i (Some e) (mark_valid sv) m)) + mset_option (live m i) =
      mset (live_entries m) + mset_option (Some e)"
    by (rule live_entries_update [OF i]) (use len i in \<open>auto simp: put_slot_live slot_word_simps\<close>)
  from arg_cong [OF this, of "image_mset ?f"] show ?put by (simp add: btm_pairs_def im)
  have "mset (live_entries (put_slot i None mark_empty m)) + mset_option (live m i) =
      mset (live_entries m) + mset_option None"
    by (rule live_entries_update [OF i]) (use len i in \<open>auto simp: put_slot_live mark_empty_def\<close>)
  from arg_cong [OF this, of "image_mset ?f"] show ?del by (simp add: btm_pairs_def im)
qed

lemma length_pairs_le: "length (btm_pairs m) \<le> btm_capacity m"
  using length_map_filter_le [of "live m" "[0..<btm_capacity m]"]
  by (simp add: btm_pairs_def live_entries_def)

lemma pairs_full_iff: "length (btm_pairs m) = btm_capacity m \<longleftrightarrow> (\<forall>i < btm_capacity m. live m i \<noteq> None)"
  using length_map_filter_eq [of "live m" "[0..<btm_capacity m]"]
  by (auto simp: btm_pairs_def live_entries_def)

lemma keys_distinct_slots:
  assumes "wf_btm m" "live m i = Some a" "live m j = Some b" "i < btm_capacity m" "j < btm_capacity m"
    "entry_key a = entry_key b"
  shows "i = j"
proof (rule ccontr)
  assume ne: "i \<noteq> j"
  let ?m = "put_slot i None mark_empty m"
  note len = wf_btmD(1) [OF assms(1)]
  have "live ?m j = Some b" using put_slot_live(1) [OF len assms(5,4)] ne assms(3) by simp
  then have "(entry_key b, entry_value b) \<in> set (btm_pairs ?m)"
    using assms(5) by (auto simp: in_btm_pairs)
  then have k: "entry_key a \<in> set (map fst (btm_pairs ?m))" using assms(6) by force
  have "mset (btm_pairs m) = add_mset (entry_key a, entry_value a) (mset (btm_pairs ?m))"
    using put_slot_pairs(2) [OF len assms(4)] assms(2) by simp
  then have "mset (btm_pairs m) = mset ((entry_key a, entry_value a) # btm_pairs ?m)" by simp
  then have "distinct (map fst (btm_pairs m)) = distinct (map fst ((entry_key a, entry_value a) # btm_pairs ?m))"
    by (intro distinct_of_mset) (simp only: mset_map)
  then show False using wf_btmD(4) [OF assms(1)] k by simp
qed

subsection \<open>Insert\<close>

lemma insert_update_skip:
  assumes "\<And>j. j \<in> set is \<Longrightarrow> slot_wf m j \<and> (\<forall>e. live m j = Some e \<longrightarrow> entry_key e \<noteq> k)"
  shows "insert_update (is @ js) k v iv sv m = insert_update js k v iv sv m"
  using assms
proof (induction "is")
  case (Cons i "is")
  then have "slot_wf m i" by simp
  then show ?case using Cons by (cases rule: slot_cases) (auto simp: slot_word_simps)
qed simp

lemma insert_update_hit:
  assumes "slot_wf m i" "live m i = Some e" "entry_key e = k"
  shows "insert_update (i # js) k v iv sv m =
    Inr (put_slot i (Some \<lparr>entry_key = k, entry_value = v, insert_version = iv, slot_version = ucast sv\<rparr>)
      (mark_valid sv) m, Some (entry_value e))"
  using assms by (cases rule: slot_cases) (auto simp: slot_word_simps)

lemma insert_claim_skip:
  assumes "\<And>j. j \<in> set is \<Longrightarrow> slot_wf m j \<and> live m j \<noteq> None"
  shows "insert_claim (is @ js) k v iv sv m = insert_claim js k v iv sv m"
  using assms
proof (induction "is")
  case (Cons i "is")
  have "live m i \<noteq> None" "slot_wf m i" using Cons.prems [of i] by auto
  from this(2,1) show ?case using Cons by (cases rule: slot_cases) (auto simp: slot_word_simps)
qed simp

lemma insert_claim_hit:
  assumes "slot_wf m i" "live m i = None"
  shows "insert_claim (i # js) k v iv sv m =
    Some ((put_slot i (Some \<lparr>entry_key = k, entry_value = v, insert_version = iv, slot_version = ucast sv\<rparr>)
      (mark_valid sv) m)\<lparr>btm_len := btm_len m + 1\<rparr>)"
  using assms by (cases rule: slot_cases) (auto simp: slot_word_simps)

lemma upt_split: "i < n \<Longrightarrow> [0..<n] = [0..<i] @ i # [Suc i..<n]"
  using upt_add_eq_append [of 0 i "n - i"] by (simp add: upt_conv_Cons)

subsection \<open>The abstract map\<close>

definition btm_map :: "('k, 'v) btm \<Rightarrow> 'k \<Rightarrow> 'v option" where
  "btm_map m = map_of (btm_pairs m)"

lemma distinct_fst_mset: "mset xs = mset ys \<Longrightarrow> distinct (map fst xs) \<longleftrightarrow> distinct (map fst ys)"
  by (rule distinct_of_mset) simp

lemma map_of_mset_cong:
  assumes "mset xs = mset ys" "distinct (map fst xs)"
  shows "map_of xs = map_of ys"
  using assms distinct_fst_mset [OF assms(1)] map_of_inject_set mset_eq_setD by blast

lemma btm_map_frame [simp]:
  "btm_map (m\<lparr>btm_len := n\<rparr>) = btm_map m" "btm_map (m\<lparr>global_version := g\<rparr>) = btm_map m"
  by (simp_all add: btm_map_def)

lemma btm_map_new [simp]: "btm_map (btm_new cap) = Map.empty"
  by (simp add: btm_map_def)

lemma card_dom_btm_map: "wf_btm m \<Longrightarrow> card (dom (btm_map m)) = length (btm_pairs m)"
  using distinct_card [OF wf_btmD(4), of m] by (simp add: btm_map_def dom_map_of_conv_image_fst)

lemma btm_map_SomeE:
  assumes "btm_map m k = Some v"
  obtains i e where "i < btm_capacity m" "live m i = Some e" "entry_key e = k" "entry_value e = v"
  using map_of_SomeD [OF assms [unfolded btm_map_def]] by (auto simp: in_btm_pairs)

lemma btm_map_live:
  assumes "wf_btm m" "i < btm_capacity m" "live m i = Some e"
  shows "btm_map m (entry_key e) = Some (entry_value e)"
  unfolding btm_map_def using assms by (intro map_of_is_SomeI wf_btmD(4)) (auto simp: in_btm_pairs)

lemma live_exists:
  assumes "wf_btm m"
  shows "card (dom (btm_map m)) < btm_capacity m \<longleftrightarrow> (\<exists>i < btm_capacity m. live m i = None)"
  using pairs_full_iff [of m] length_pairs_le [of m] card_dom_btm_map [OF assms] by auto

text \<open>What erasing and writing one slot do to the abstract map.\<close>

lemma pairs_split_at:
  assumes "length (storage m) = btm_capacity m" "i < btm_capacity m"
  shows "mset (btm_pairs m) = mset_option (map_option (\<lambda>e. (entry_key e, entry_value e)) (live m i)) +
      mset (btm_pairs (put_slot i None mark_empty m))"
    and "mset (btm_pairs (put_slot i (Some e) (mark_valid sv) m)) =
      mset ((entry_key e, entry_value e) # btm_pairs (put_slot i None mark_empty m))"
proof -
  note p = put_slot_pairs [OF assms]
  show 1: "mset (btm_pairs m) = mset_option (map_option (\<lambda>e. (entry_key e, entry_value e)) (live m i)) +
      mset (btm_pairs (put_slot i None mark_empty m))" using p(2) by (simp add: add.commute)
  show "mset (btm_pairs (put_slot i (Some e) (mark_valid sv) m)) =
      mset ((entry_key e, entry_value e) # btm_pairs (put_slot i None mark_empty m))"
    using p(1) [of e sv] unfolding 1 by simp
qed

lemma erase_slot:
  assumes wf: "wf_btm m" and i: "i < btm_capacity m" and e: "live m i = Some e"
    and m': "m' = (put_slot i None mark_empty m)\<lparr>btm_len := btm_len m - 1\<rparr>"
  shows "wf_btm m'" "btm_map m' = (btm_map m)(entry_key e := None)" "btm_capacity m' = btm_capacity m"
    "length (btm_pairs m) = Suc (length (btm_pairs m'))"
proof -
  let ?n = "put_slot i None mark_empty m"
  note len = wf_btmD(1) [OF wf]
  have ms: "mset (btm_pairs m) = mset ((entry_key e, entry_value e) # btm_pairs ?n)"
    using pairs_split_at(1) [OF len i] e by simp
  have d: "distinct (map fst ((entry_key e, entry_value e) # btm_pairs ?n))"
    using distinct_fst_mset [OF ms] wf_btmD(4) [OF wf] by blast
  have l: "length (btm_pairs m) = Suc (length (btm_pairs ?n))"
    using arg_cong [OF ms, of size] by simp
  show "wf_btm m'" unfolding wf_btm_def m'
    using d l wf_btmD(1,2,3,5) [OF wf] by (simp add: put_slot_live mark_empty_def len i)
  have "btm_map m = map_of ((entry_key e, entry_value e) # btm_pairs ?n)"
    unfolding btm_map_def by (rule map_of_mset_cong [OF ms wf_btmD(4) [OF wf]])
  moreover have "map_of (btm_pairs ?n) (entry_key e) = None" using d by (simp add: map_of_eq_None_iff)
  ultimately show "btm_map m' = (btm_map m)(entry_key e := None)"
    by (simp add: m' btm_map_def fun_eq_iff)
  show "btm_capacity m' = btm_capacity m" "length (btm_pairs m) = Suc (length (btm_pairs m'))"
    using l by (simp_all add: m')
qed

lemma write_slot:
  assumes wf: "wf_btm m" and i: "i < btm_capacity m" and sv: "slot_version e = ucast sv"
    and k: "case live m i of None \<Rightarrow> btm_map m (entry_key e) = None | Some old \<Rightarrow> entry_key old = entry_key e"
    and m': "m' = (put_slot i (Some e) (mark_valid sv) m)
      \<lparr>btm_len := btm_len m + (if live m i = None then 1 else 0)\<rparr>"
  shows "wf_btm m'" "btm_map m' = (btm_map m)(entry_key e \<mapsto> entry_value e)"
    "btm_capacity m' = btm_capacity m"
proof -
  let ?n = "put_slot i None mark_empty m" let ?q = "put_slot i (Some e) (mark_valid sv) m"
  note len = wf_btmD(1) [OF wf]
  note ms = pairs_split_at(1) [OF len i] pairs_split_at(2) [OF len i, of e sv]
  have d: "distinct (map fst ((entry_key e, entry_value e) # btm_pairs ?n)) \<and>
      map_of (btm_pairs ?n) = (btm_map m)(entry_key e := None) \<and>
      btm_len m + (if live m i = None then 1 else 0) = of_nat (Suc (length (btm_pairs ?n)))"
  proof (cases "live m i")
    case None
    then have ms': "mset (btm_pairs m) = mset (btm_pairs ?n)" using ms(1) by simp
    have "distinct (map fst (btm_pairs ?n))"
      using distinct_fst_mset [OF ms'] wf_btmD(4) [OF wf] by blast
    moreover have "map_of (btm_pairs ?n) = btm_map m"
      using map_of_mset_cong [OF ms' wf_btmD(4) [OF wf]] by (simp add: btm_map_def)
    moreover have "length (btm_pairs m) = length (btm_pairs ?n)" using arg_cong [OF ms', of size] by simp
    ultimately show ?thesis using None k wf_btmD(5) [OF wf]
      by (auto simp: map_of_eq_None_iff dest: sym)
  next
    case (Some old)
    note er = erase_slot [OF wf i Some refl]
    have "map_of (btm_pairs ?n) (entry_key old) = None"
      using fun_cong [OF er(2), of "entry_key old"] by (simp add: btm_map_def)
    then have "entry_key old \<notin> fst ` set (btm_pairs ?n)" by (simp only: map_of_eq_None_iff simp_thms)
    moreover have ke: "entry_key old = entry_key e" using k Some by simp
    moreover have "distinct (map fst (btm_pairs ?n))" using wf_btmD(4) [OF er(1)] by simp
    moreover have "map_of (btm_pairs ?n) = (btm_map m)(entry_key e := None)"
      using er(2) unfolding ke by (simp only: btm_map_frame) (simp only: btm_map_def)
    moreover have "btm_len m = of_nat (Suc (length (btm_pairs ?n)))"
      using wf_btmD(5) [OF wf] er(4) by simp
    ultimately show ?thesis using Some by (simp only: list.map fst_conv distinct.simps set_map) simp
  qed
  have dq: "distinct (map fst (btm_pairs ?q))"
    using distinct_fst_mset [OF ms(2)] d by blast
  have lq: "length (btm_pairs ?q) = Suc (length (btm_pairs ?n))" using arg_cong [OF ms(2), of size] by simp
  show "wf_btm m'" unfolding wf_btm_def m'
    using dq lq d wf_btmD(1,2,3) [OF wf] sv by (auto simp: put_slot_live len i)
  have "btm_map ?q = map_of ((entry_key e, entry_value e) # btm_pairs ?n)"
    unfolding btm_map_def by (rule map_of_mset_cong [OF ms(2) dq])
  then show "btm_map m' = (btm_map m)(entry_key e \<mapsto> entry_value e)"
    using d by (simp add: m' fun_eq_iff)
  show "btm_capacity m' = btm_capacity m" by (simp add: m')
qed

lemma btm_insert_code [code]:
  "btm_insert k v m = (let iv = global_version m in
     insert_retry (btm_capacity m) k v iv (ucast iv) (m\<lparr>global_version := iv + 1\<rparr>))"
proof -
  have "(0xFFFFFFFF :: usize) = mask 32" by (simp add: mask_eq_exp_minus_1)
  then have "(ucast (iv AND 0xFFFFFFFF) :: u32) = ucast iv" for iv :: usize
    by (simp only:) (rule bit_word_eqI, simp only: bit_unsigned_iff bit_and_iff bit_mask_iff, auto)
  then show ?thesis by (simp add: btm_insert_def Let_def)
qed

subsection \<open>What insert does\<close>

definition new_entry :: "'k \<Rightarrow> 'v \<Rightarrow> usize \<Rightarrow> u32 \<Rightarrow> ('k, 'v) entry" where
  "new_entry k v iv sv =
     \<lparr>entry_key = k, entry_value = v, insert_version = iv, slot_version = ucast sv\<rparr>"

lemma new_entry_simps [simp]:
  "entry_key (new_entry k v iv sv) = k" "entry_value (new_entry k v iv sv) = v"
  "slot_version (new_entry k v iv sv) = ucast sv"
  by (simp_all add: new_entry_def)

lemma wf_frame_gv [simp]: "wf_btm (m\<lparr>global_version := g\<rparr>) = wf_btm m"
  by (simp add: wf_btm_def)

lemma insert_update_absent:
  assumes "wf_btm m" "btm_map m k = None"
  shows "insert_update [0..<btm_capacity m] k v iv sv m = Inr (m, None)"
proof -
  have "insert_update ([0..<btm_capacity m] @ []) k v iv sv m = insert_update [] k v iv sv m"
  proof (rule insert_update_skip)
    fix j assume "j \<in> set [0..<btm_capacity m]"
    then show "slot_wf m j \<and> (\<forall>e. live m j = Some e \<longrightarrow> entry_key e \<noteq> k)"
      using assms wf_btmD(3) [OF assms(1)] btm_map_live [OF assms(1)] by fastforce
  qed
  then show ?thesis by simp
qed

lemma insert_update_present:
  assumes wf: "wf_btm m" and i: "i < btm_capacity m" and e: "live m i = Some e" "entry_key e = k"
  shows "insert_update [0..<btm_capacity m] k v iv sv m =
    Inr (put_slot i (Some (new_entry k v iv sv)) (mark_valid sv) m, Some (entry_value e))"
proof -
  have "insert_update ([0..<i] @ i # [Suc i..<btm_capacity m]) k v iv sv m =
      insert_update (i # [Suc i..<btm_capacity m]) k v iv sv m"
  proof (rule insert_update_skip)
    fix j assume "j \<in> set [0..<i]"
    then show "slot_wf m j \<and> (\<forall>e. live m j = Some e \<longrightarrow> entry_key e \<noteq> k)"
      using wf_btmD(3) [OF wf, of j] keys_distinct_slots [OF wf, of j _ i e] i e by auto
  qed
  then show ?thesis
    unfolding upt_split [OF i] new_entry_def using insert_update_hit [OF wf_btmD(3) [OF wf i] e] by simp
qed

lemma insert_claim_full:
  assumes "wf_btm m" "\<And>i. i < btm_capacity m \<Longrightarrow> live m i \<noteq> None"
  shows "insert_claim [0..<btm_capacity m] k v iv sv m = None"
  using insert_claim_skip [of "[0..<btm_capacity m]" m "[]"] assms(2) wf_btmD(3) [OF assms(1)] by simp

lemma insert_claim_room:
  assumes wf: "wf_btm m" and "j < btm_capacity m" "live m j = None"
  obtains i where "i < btm_capacity m" "live m i = None"
    "insert_claim [0..<btm_capacity m] k v iv sv m =
      Some ((put_slot i (Some (new_entry k v iv sv)) (mark_valid sv) m)\<lparr>btm_len := btm_len m + 1\<rparr>)"
proof -
  define i where "i = (LEAST i. live m i = None)"
  have i: "live m i = None" "i \<le> j" unfolding i_def using assms(3) by (rule LeastI, intro Least_le)
  have below: "live m l \<noteq> None" if "l < i" for l using not_less_Least [OF that [unfolded i_def]] .
  have ic: "i < btm_capacity m" using i(2) assms(2) by simp
  have "insert_claim ([0..<i] @ i # [Suc i..<btm_capacity m]) k v iv sv m =
      insert_claim (i # [Suc i..<btm_capacity m]) k v iv sv m"
    using below wf_btmD(3) [OF wf] ic by (intro insert_claim_skip) auto
  then show thesis
    using insert_claim_hit [OF wf_btmD(3) [OF wf ic] i(1)] ic i(1) upt_split [OF ic]
    by (intro that) (simp_all add: new_entry_def)
qed

lemma insert_retry_full:
  assumes "wf_btm m" "btm_map m k = None" "\<And>i. i < btm_capacity m \<Longrightarrow> live m i \<noteq> None"
  shows "insert_retry n k v iv sv m = Inr (m, None)"
  by (induction n) (simp_all add: insert_update_absent insert_claim_full assms)

text \<open>The three outcomes of \<^verbatim>\<open>insert\<close>: replaced, added, refused.\<close>

definition insert_result :: "nat \<Rightarrow> ('k \<Rightarrow> 'v option) \<Rightarrow> 'k \<Rightarrow> 'v option option" where
  "insert_result cap f k = (case f k of
     Some old \<Rightarrow> Some (Some old)
   | None \<Rightarrow> if card (dom f) < cap then Some None else None)"

definition map_insert :: "nat \<Rightarrow> ('k \<Rightarrow> 'v option) \<Rightarrow> 'k \<Rightarrow> 'v \<Rightarrow> 'k \<Rightarrow> 'v option" where
  "map_insert cap f k v = (if insert_result cap f k = None then f else f(k \<mapsto> v))"

lemma retry_insert:
  assumes wf: "wf_btm m" and n: "n = btm_capacity m"
  obtains m' where "insert_retry n k v iv sv m = Inr (m', insert_result n (btm_map m) k)"
    "wf_btm m'" "btm_capacity m' = btm_capacity m" "btm_map m' = map_insert n (btm_map m) k v"
proof (cases "btm_map m k")
  case (Some old)
  then obtain i e where i: "i < btm_capacity m" and e: "live m i = Some e" "entry_key e = k"
    and "entry_value e = old" by (rule btm_map_SomeE)
  let ?m = "put_slot i (Some (new_entry k v iv sv)) (mark_valid sv) m"
  have m': "?m = ?m\<lparr>btm_len := btm_len m + (if live m i = None then 1 else 0)\<rparr>"
    using e by (simp add: put_slot_def)
  have r: "insert_retry n k v iv sv m = Inr (?m, Some (Some old))"
    using insert_update_present [OF wf i e] \<open>entry_value e = old\<close> i unfolding n by (cases "btm_capacity m") simp_all
  have "wf_btm ?m \<and> btm_map ?m = (btm_map m)(k \<mapsto> v)"
    using write_slot [OF wf i, of "new_entry k v iv sv" sv, OF _ _ m'] e by simp
  then show thesis using r Some by (intro that [of ?m]) (simp_all add: insert_result_def map_insert_def)
next
  case None
  note absent = insert_update_absent [OF wf None]
  show thesis
  proof (cases "\<exists>j < btm_capacity m. live m j = None")
    case True
    then obtain j where j: "j < btm_capacity m" "live m j = None" by blast
    from insert_claim_room [OF wf j] obtain i where i: "i < btm_capacity m" and l: "live m i = None"
      and c: "insert_claim [0..<btm_capacity m] k v iv sv m =
        Some ((put_slot i (Some (new_entry k v iv sv)) (mark_valid sv) m)\<lparr>btm_len := btm_len m + 1\<rparr>)" .
    let ?m = "(put_slot i (Some (new_entry k v iv sv)) (mark_valid sv) m)\<lparr>btm_len := btm_len m + 1\<rparr>"
    have "wf_btm ?m \<and> btm_map ?m = (btm_map m)(k \<mapsto> v)"
      using write_slot [OF wf i, of "new_entry k v iv sv" sv ?m] l None by simp
    moreover have "insert_retry n k v iv sv m = Inr (?m, Some None)"
      using absent c i unfolding n by (cases "btm_capacity m") simp_all
    ultimately show thesis using live_exists [OF wf] True None n
      by (intro that [of ?m]) (simp_all add: insert_result_def map_insert_def)
  next
    case False
    then have "insert_retry n k v iv sv m = Inr (m, None)" by (intro insert_retry_full wf None) auto
    then show thesis using live_exists [OF wf] False None n wf
      by (intro that [of m]) (simp_all add: insert_result_def map_insert_def)
  qed
qed

lemma insert_spec:
  assumes "wf_btm m"
  obtains m' where "btm_insert k v m = Inr (m', insert_result (btm_capacity m) (btm_map m) k)"
    "wf_btm m'" "btm_capacity m' = btm_capacity m"
    "btm_map m' = map_insert (btm_capacity m) (btm_map m) k v"
  using retry_insert [of "m\<lparr>global_version := global_version m + 1\<rparr>" "btm_capacity m" k v
      "global_version m" "ucast (global_version m AND 0xFFFFFFFF)"] assms
  by (auto simp: btm_insert_def Let_def)

subsection \<open>What the minimum search and pop do\<close>

definition cand_at :: "('k, 'v) btm \<Rightarrow> nat \<Rightarrow> ('k, 'v) candidate option" where
  "cand_at m i = map_option (\<lambda>e. \<lparr>cand_key = entry_key e, cand_value = entry_value e,
     cand_insert_version = insert_version e, cand_index = i,
     cand_slot_version = snd (load_state_version (slot_states m ! i))\<rparr>) (live m i)"

definition map_min :: "('k::linorder \<Rightarrow> 'v option) \<Rightarrow> ('k \<times> 'v) option" where
  "map_min f = (if dom f = {} then None else Some (Min (dom f), the (f (Min (dom f)))))"

definition map_pop :: "('k::linorder \<Rightarrow> 'v option) \<Rightarrow> 'k \<Rightarrow> 'v option" where
  "map_pop f = (if dom f = {} then f else f(Min (dom f) := None))"

lemma load_mark_valid [slot_word_simps]: "load_state_version (mark_valid v) = (STATE_VALID, v)"
  by (simp add: mark_valid_def load_pack)

lemma collect_candidates_eq:
  assumes "\<And>i. i \<in> set is \<Longrightarrow> slot_wf m i" "length cs + length is \<le> btm_capacity m"
  shows "collect_candidates is m cs = Inr (cs @ List.map_filter (cand_at m) is)"
  using assms
proof (induction "is" arbitrary: cs)
  case (Cons i "is")
  then have "slot_wf m i" by simp
  then show ?case
  proof (cases rule: slot_cases)
    case empty
    then show ?thesis using Cons by (simp add: slot_word_simps cand_at_def)
  next
    case (valid v e)
    then show ?thesis using Cons by (simp add: slot_word_simps cand_at_def candidates_push_def)
  qed
qed simp

lemma collect_all:
  assumes "wf_btm m"
  shows "collect_candidates [0..<btm_capacity m] m [] =
    Inr (List.map_filter (cand_at m) [0..<btm_capacity m])"
  using collect_candidates_eq [of "[0..<btm_capacity m]" m "[]"] wf_btmD(3) [OF assms] by simp

lemma candidate_less_key:
  "candidate_less a b \<Longrightarrow> cand_key a \<le> cand_key b" "\<not> candidate_less a b \<Longrightarrow> cand_key b \<le> cand_key a"
  by (auto simp: candidate_less_def split: if_splits)

lemma find_min_from_least:
  fixes c :: "('k::linorder, 'v) candidate"
  shows "find_min_from candidate_less c ds \<in> set (c # ds) \<and>
    (\<forall>d \<in> set (c # ds). cand_key (find_min_from candidate_less c ds) \<le> cand_key d)"
proof (induction ds arbitrary: c)
  case (Cons d ds)
  then show ?case using Cons [of d] Cons [of c] candidate_less_key [of d c]
    by (auto intro: order_trans)
qed simp

lemma find_min_by_cases:
  fixes cs :: "('k::linorder, 'v) candidate list"
  obtains "cs = []" "find_min_by candidate_less cs = None"
    | c where "find_min_by candidate_less cs = Some c" "c \<in> set cs" "\<And>d. d \<in> set cs \<Longrightarrow> cand_key c \<le> cand_key d"
  using find_min_from_least by (cases cs) (auto simp: find_min_by_def)

text \<open>The minimum candidate of a well-formed map is the entry with the least key.\<close>

lemma minimum_candidate:
  assumes wf: "wf_btm m"
  defines "cs \<equiv> List.map_filter (cand_at m) [0..<btm_capacity m]"
  obtains (none) "find_min_by candidate_less cs = None" "dom (btm_map m) = {}"
    | (some) c i e v where "find_min_by candidate_less cs = Some c" "i < btm_capacity m"
        "slot_states m ! i = mark_valid v" "storage m ! i = Some e" "slot_version e = ucast v"
        "live m i = Some e" "cand_at m i = Some c" "Min (dom (btm_map m)) = entry_key e"
        "btm_map m (entry_key e) = Some (entry_value e)"
proof (cases cs rule: find_min_by_cases)
  case 1
  have "live m i = None" if "i < btm_capacity m" for i
  proof -
    have "cand_at m i = None"
      using that 1(1) by (cases "cand_at m i") (auto simp: cs_def set_map_filter simp flip: set_empty)
    then show ?thesis by (simp add: cand_at_def)
  qed
  then have "dom (btm_map m) = {}" by (fastforce elim: btm_map_SomeE)
  then show thesis using 1 none by blast
next
  case (2 c)
  then obtain i where i: "i < btm_capacity m" "cand_at m i = Some c" by (auto simp: cs_def set_map_filter)
  then obtain e where e: "live m i = Some e" "cand_key c = entry_key e" by (auto simp: cand_at_def)
  note at = btm_map_live [OF wf i(1) e(1)]
  have least: "entry_key e \<le> k" if "k \<in> dom (btm_map m)" for k
  proof -
    from that obtain j e' where j: "j < btm_capacity m" "live m j = Some e'" "entry_key e' = k"
      by (auto elim: btm_map_SomeE)
    then have "the (cand_at m j) \<in> set cs" by (auto simp: cs_def set_map_filter cand_at_def)
    then show ?thesis using 2(3) e j by (fastforce simp: cand_at_def)
  qed
  have "finite (dom (btm_map m))" by (simp add: btm_map_def finite_dom_map_of)
  then have min: "Min (dom (btm_map m)) = entry_key e" using least at by (intro Min_eqI) auto
  from wf_btmD(3) [OF wf i(1)] show thesis
  proof (cases rule: slot_cases)
    case empty
    then show thesis using e by simp
  next
    case (valid v e')
    then show thesis using some [of c i v e] 2(1) i e(1) min at by simp
  qed
qed

lemma first_key_value_spec: "wf_btm m \<Longrightarrow> first_key_value m = Inr (map_min (btm_map m))"
  by (rule minimum_candidate [of m])
    (auto simp: first_key_value_def collect_all map_min_def cand_at_def)

lemma pop_spec:
  assumes wf: "wf_btm m"
  obtains m' where "pop_first m = Inr (m', map_min (btm_map m))" "wf_btm m'"
    "btm_capacity m' = btm_capacity m" "btm_map m' = map_pop (btm_map m)"
  using wf
proof (cases rule: minimum_candidate)
  case none
  then show thesis using wf
    by (intro that [of m])
      (simp_all add: pop_first_def MAX_RETRIES_def numeral_eq_Suc collect_all map_min_def map_pop_def)
next
  case (some c i e v)
  let ?m = "(put_slot i None mark_empty m)\<lparr>btm_len := btm_len m - 1\<rparr>"
  note er = erase_slot [OF wf some(2) some(6) refl]
  have ne: "dom (btm_map m) \<noteq> {}" using some(9) by blast
  have c: "cand_key c = entry_key e" "cand_value c = entry_value e"
    "cand_insert_version c = insert_version e" "cand_index c = i" "cand_slot_version c = v"
    using some(3,6,7) by (auto simp: cand_at_def load_mark_valid)
  have "pop_retry (Suc 15) m = Inr (?m, Some (entry_key e, entry_value e))"
    unfolding pop_retry.simps collect_all [OF wf] bind_outcome_Inr some(1)
    by (simp add: c some lock_delete_valid)
  then have "pop_first m = Inr (?m, map_min (btm_map m))"
    using some(8,9) ne by (simp add: pop_first_def MAX_RETRIES_def map_min_def)
  then show thesis using er some(8) ne by (intro that [of ?m]) (simp_all add: map_pop_def)
qed

subsection \<open>Length, clear and traversal\<close>

lemma count_valid_eq:
  assumes "\<And>i. i \<in> set is \<Longrightarrow> slot_wf m i"
  shows "count_valid is m n = n + of_nat (length (List.map_filter (live m) is))"
  using assms
proof (induction "is" arbitrary: n)
  case (Cons i "is")
  then have "slot_wf m i" by simp
  then show ?case using Cons by (cases rule: slot_cases) (auto simp: slot_word_simps)
qed simp

lemma len_spec:
  assumes wf: "wf_btm m"
  shows "exact_len m = btm_len m" "unat (btm_len m) = card (dom (btm_map m))"
    "btm_is_empty m \<longleftrightarrow> dom (btm_map m) = {}"
proof -
  show "exact_len m = btm_len m"
    using count_valid_eq [of "[0..<btm_capacity m]" m 0] wf_btmD(3,5) [OF wf]
    by (simp add: exact_len_def btm_pairs_def live_entries_def)
  have "length (btm_pairs m) < 2 ^ 64" using length_pairs_le [of m] wf_btmD(2) [OF wf] by linarith
  then show u: "unat (btm_len m) = card (dom (btm_map m))"
    by (simp add: wf_btmD(5) [OF wf] card_dom_btm_map [OF wf] unat_of_nat take_bit_nat_eq_self)
  have "finite (dom (btm_map m))" by (simp add: btm_map_def finite_dom_map_of)
  then show "btm_is_empty m \<longleftrightarrow> dom (btm_map m) = {}"
    using u unat_eq_zero [of "btm_len m"] by (simp add: btm_is_empty_def)
qed

lemma visit_slots_eq:
  assumes "\<And>i. i \<in> set is \<Longrightarrow> slot_wf m i"
  shows "visit_slots is m =
    Inr (map (\<lambda>e. (entry_key e, entry_value e)) (List.map_filter (live m) is))"
  using assms
proof (induction "is")
  case (Cons i "is")
  then have "slot_wf m i" by simp
  then show ?case using Cons by (cases rule: slot_cases) (auto simp: slot_word_simps)
qed simp

lemma for_each_spec: "wf_btm m \<Longrightarrow> btm_for_each m = Inr (btm_pairs m)"
  using visit_slots_eq [of "[0..<btm_capacity m]" m]
  by (simp add: btm_for_each_def wf_btmD(3) btm_pairs_def live_entries_def)

lemma clear_slots_spec:
  assumes "wf_btm m" "set is \<subseteq> {..<btm_capacity m}"
  shows "wf_btm (clear_slots is m) \<and> btm_capacity (clear_slots is m) = btm_capacity m \<and>
    (\<forall>j < btm_capacity m. live (clear_slots is m) j = (if j \<in> set is then None else live m j))"
  using assms
proof (induction "is" arbitrary: m)
  case (Cons i "is")
  then have i: "i < btm_capacity m" by simp
  from wf_btmD(3) [OF Cons.prems(1) i] show ?case
  proof (cases rule: slot_cases)
    case empty
    then show ?thesis using Cons by (auto simp: slot_word_simps)
  next
    case (valid v e)
    let ?m = "(put_slot i None mark_empty m)\<lparr>btm_len := btm_len m - 1\<rparr>"
    note er = erase_slot [OF Cons.prems(1) i valid(4) refl]
    have "live ?m j = (if j = i then None else live m j)" if "j < btm_capacity m" for j
      using put_slot_live(1) [OF wf_btmD(1) [OF Cons.prems(1)] that i, of None mark_empty]
      by (simp add: mark_empty_def)
    moreover have "clear_slots (i # is) m = clear_slots is ?m" using valid by (simp add: slot_word_simps)
    ultimately show ?thesis using Cons.IH [OF er(1)] Cons.prems(2) er(3) by auto
  qed
qed simp

lemma clear_spec:
  assumes "wf_btm m"
  shows "wf_btm (btm_clear m)" "btm_map (btm_clear m) = Map.empty" "btm_capacity (btm_clear m) = btm_capacity m"
proof -
  have "set [0..<btm_capacity m] \<subseteq> {..<btm_capacity m}" by auto
  note c = clear_slots_spec [OF assms this, folded btm_clear_def]
  show "wf_btm (btm_clear m)" "btm_capacity (btm_clear m) = btm_capacity m" using c by auto
  have "live (btm_clear m) j = None" if "j < btm_capacity m" for j using c that by auto
  then have "dom (btm_map (btm_clear m)) = {}" using c by (fastforce elim: btm_map_SomeE)
  then show "btm_map (btm_clear m) = Map.empty" by simp
qed

subsection \<open>The contract of an ordered map\<close>

text \<open>Filling a map from a list of pairs and draining it with \<^verbatim>\<open>pop_first\<close>.\<close>

fun fill :: "('k \<Rightarrow> 'v \<Rightarrow> 'm \<Rightarrow> ('m \<times> 'r) outcome) \<Rightarrow> ('k \<times> 'v) list \<Rightarrow> 'm \<Rightarrow> 'm outcome" where
  "fill ins [] m = Inr m"
| "fill ins ((k, v) # ps) m = bind_outcome (ins k v m) (\<lambda>(m', r). fill ins ps m')"

fun drain :: "('m \<Rightarrow> ('m \<times> 'a option) outcome) \<Rightarrow> nat \<Rightarrow> 'm \<Rightarrow> 'a list outcome" where
  "drain pop 0 m = Inr []"
| "drain pop (Suc n) m = bind_outcome (pop m) (\<lambda>(m', r). case r of
     None \<Rightarrow> Inr []
   | Some p \<Rightarrow> bind_outcome (drain pop n m') (\<lambda>ps. Inr (p # ps)))"

locale ordered_map =
  fixes ins :: "'k::linorder \<Rightarrow> 'v \<Rightarrow> 'm \<Rightarrow> ('m \<times> 'v option option) outcome"
    and pop :: "'m \<Rightarrow> ('m \<times> ('k \<times> 'v) option) outcome"
    and abs :: "'m \<Rightarrow> 'k \<Rightarrow> 'v option"
    and invar :: "'m \<Rightarrow> bool"
    and cap :: "'m \<Rightarrow> nat"
  assumes finite_abs: "invar m \<Longrightarrow> finite (dom (abs m))"
    and ins_law: "invar m \<Longrightarrow> \<exists>m'. ins k v m = Inr (m', insert_result (cap m) (abs m) k) \<and>
      invar m' \<and> cap m' = cap m \<and> abs m' = map_insert (cap m) (abs m) k v"
    and pop_law: "invar m \<Longrightarrow> \<exists>m'. pop m = Inr (m', map_min (abs m)) \<and>
      invar m' \<and> cap m' = cap m \<and> abs m' = map_pop (abs m)"
begin

lemma insE:
  assumes "invar m"
  obtains m' where "ins k v m = Inr (m', insert_result (cap m) (abs m) k)" "invar m'"
    "cap m' = cap m" "abs m' = map_insert (cap m) (abs m) k v"
  using ins_law [OF assms] by blast

lemma popE:
  assumes "invar m"
  obtains m' where "pop m = Inr (m', map_min (abs m))" "invar m'" "cap m' = cap m" "abs m' = map_pop (abs m)"
  using pop_law [OF assms] by blast

lemma drain_sorted:
  assumes "invar m" "card (dom (abs m)) \<le> n"
  shows "drain pop n m = Inr (map (\<lambda>k. (k, the (abs m k))) (sorted_list_of_set (dom (abs m))))"
  using assms
proof (induction n arbitrary: m)
  case 0
  then show ?case using finite_abs by simp
next
  case (Suc n)
  note fin = finite_abs [OF Suc.prems(1)]
  from popE [OF Suc.prems(1)] obtain m' where p: "pop m = Inr (m', map_min (abs m))" "invar m'"
    and a: "abs m' = map_pop (abs m)" by blast
  show ?case
  proof (cases "dom (abs m) = {}")
    case True
    then show ?thesis using p by (simp add: map_min_def)
  next
    case False
    let ?k = "Min (dom (abs m))"
    have d: "dom (abs m') = dom (abs m) - {?k}" using a False by (auto simp: map_pop_def)
    then have "card (dom (abs m')) \<le> n" using Suc.prems(2) fin Min_in [OF fin False] by simp
    from Suc.IH [OF p(2) this] have "drain pop (Suc n) m =
        Inr ((?k, the (abs m ?k)) # map (\<lambda>k. (k, the (abs m' k))) (sorted_list_of_set (dom (abs m'))))"
      using p(1) False by (simp add: map_min_def)
    moreover have "map (\<lambda>k. (k, the (abs m' k))) (sorted_list_of_set (dom (abs m'))) =
        map (\<lambda>k. (k, the (abs m k))) (sorted_list_of_set (dom (abs m')))"
      using fin d False by (intro map_cong) (auto simp: a map_pop_def)
    ultimately show ?thesis using sorted_list_of_set_nonempty [OF fin False] by (simp add: d)
  qed
qed

lemma fill_abs:
  assumes "invar m" "distinct (map fst ps)" "fst ` set ps \<inter> dom (abs m) = {}"
    "card (dom (abs m)) + length ps \<le> cap m"
  shows "\<exists>m'. fill ins ps m = Inr m' \<and> invar m' \<and> cap m' = cap m \<and> abs m' = abs m ++ map_of ps"
  using assms
proof (induction ps arbitrary: m)
  case (Cons p ps)
  obtain k v where p: "p = (k, v)" by (cases p)
  note fin = finite_abs [OF Cons.prems(1)]
  have k: "abs m k = None" using Cons.prems(3) p by auto
  from insE [OF Cons.prems(1)] obtain m' where m': "ins k v m = Inr (m', insert_result (cap m) (abs m) k)"
    "invar m'" "cap m' = cap m" "abs m' = map_insert (cap m) (abs m) k v" .
  have a: "abs m' = (abs m)(k \<mapsto> v)"
    using m'(4) k Cons.prems(4) by (simp add: map_insert_def insert_result_def)
  have "card (dom (abs m')) = Suc (card (dom (abs m)))" using a k fin by (simp add: domIff)
  then have "\<exists>m''. fill ins ps m' = Inr m'' \<and> invar m'' \<and> cap m'' = cap m' \<and> abs m'' = abs m' ++ map_of ps"
  proof (intro Cons.IH)
    show "invar m'" "distinct (map fst ps)" using m' Cons.prems(2) p by auto
    show "fst ` set ps \<inter> dom (abs m') = {}" using Cons.prems(2,3) p unfolding a by auto
    show "card (dom (abs m')) + length ps \<le> cap m'"
      using \<open>card (dom (abs m')) = _\<close> Cons.prems(4) m'(3) by simp
  qed
  moreover have "abs m' ++ map_of ps = abs m ++ map_of (p # ps)"
    using a p Cons.prems(2) by (auto simp: fun_eq_iff map_add_def map_of_eq_None_iff image_iff split: option.splits)
  moreover have "fill ins (p # ps) m = fill ins ps m'" using m'(1) p by simp
  ultimately show ?case using m'(3) by (simp only:)
qed auto

text \<open>Filling an empty map and draining it sorts by key.\<close>

lemma fill_drain:
  assumes "invar m" "abs m = Map.empty" "distinct (map fst ps)" "length ps \<le> cap m"
  shows "bind_outcome (fill ins ps m) (drain pop (length ps)) = Inr (sort_key fst ps)"
proof -
  obtain m' where m': "fill ins ps m = Inr m'" "invar m'" "abs m' = map_of ps"
    using fill_abs [OF assms(1,3)] assms(2,4) by auto
  have "card (dom (abs m')) \<le> length ps"
    using card_length [of "map fst ps"] by (simp add: m'(3) dom_map_of_conv_image_fst)
  from drain_sorted [OF m'(2) this] have d: "drain pop (length ps) m' =
      Inr (map (\<lambda>k. (k, the (map_of ps k))) (sorted_list_of_set (fst ` set ps)))"
    by (simp add: m'(3) dom_map_of_conv_image_fst)
  have "sorted_list_of_set (fst ` set ps) = map fst (sort_key fst ps)"
    using assms(3) by (intro sorted_distinct_set_unique) (auto simp: distinct_map)
  moreover have "map (\<lambda>p. (fst p, the (map_of ps (fst p)))) (sort_key fst ps) = sort_key fst ps"
    using assms(3) by (intro map_idI) auto
  ultimately show ?thesis using d m'(1) by (simp add: comp_def)
qed

end

interpretation om: ordered_map btm_insert pop_first btm_map wf_btm btm_capacity
proof (unfold_locales, goal_cases)
  case (1 m)
  then show ?case by (simp add: btm_map_def finite_dom_map_of)
next
  case (2 m k v)
  then show ?case by (metis insert_spec)
next
  case (3 m)
  then show ?case by (metis pop_spec)
qed

subsection \<open>Properties\<close>

text \<open>A packed slot word gives back exactly the version and the state it was packed from, and
  distinct pairs pack to distinct words; the word of a slot marked valid is never the word 0 that
  means empty, whatever its version, version 0 included.\<close>

theorem btm_pack_roundtrip:
  "load_state_version (pack_state v st) = (st, v) \<and>
   (pack_state v st = pack_state v' st' \<longleftrightarrow> v = v' \<and> st = st') \<and>
   get_version_if_valid (mark_valid v) = Some v \<and> \<not> fst (try_lock_for_write v' (mark_valid v))"
proof -
  have "v = v' \<and> st = st'" if "pack_state v st = pack_state v' st'"
    using arg_cong [OF that, of load_state_version] by (simp add: load_pack)
  then show ?thesis by (auto simp: slot_word_simps)
qed

text \<open>C17: \<^verbatim>\<open>insert\<close> on a well-formed map never runs into undefined behaviour: it replaces the value
  of a present key and returns the old one, adds an absent key while a slot is free and returns
  \<open>Some None\<close>, and returns \<open>None\<close> and leaves the pairs as they were when the map is full; the map
  stays well formed.\<close>

theorem btm_insert_correct:
  fixes m :: "('k::linorder, 'v) btm"
  assumes "wf_btm m"
  shows "\<exists>m'. wf_btm m' \<and> btm_capacity m' = btm_capacity m \<and>
    (case btm_map m k of
       Some old \<Rightarrow> btm_insert k v m = Inr (m', Some (Some old)) \<and> btm_map m' = (btm_map m)(k \<mapsto> v)
     | None \<Rightarrow>
         if card (dom (btm_map m)) < btm_capacity m
         then btm_insert k v m = Inr (m', Some None) \<and> btm_map m' = (btm_map m)(k \<mapsto> v)
         else btm_insert k v m = Inr (m', None) \<and> btm_map m' = btm_map m)"
proof -
  from om.insE [OF assms] obtain m' where
    "btm_insert k v m = Inr (m', insert_result (btm_capacity m) (btm_map m) k)" "wf_btm m'"
    "btm_capacity m' = btm_capacity m" "btm_map m' = map_insert (btm_capacity m) (btm_map m) k v" .
  then show ?thesis
    by (intro exI [of _ m']) (auto simp: insert_result_def map_insert_def split: option.split)
qed

theorem btm_insert_correct_witness:
  "\<exists>m'. wf_btm m' \<and> btm_insert (5::nat) (7::nat) (btm_new 2) = Inr (m', Some None) \<and>
     btm_map m' = [5 \<mapsto> 7]"
  using btm_insert_correct [OF wf_btm_new, of 2 "5::nat" "7::nat"] by auto


definition two_entries :: "(nat, nat) btm" where
  "two_entries = \<lparr>
     storage = [Some \<lparr>entry_key = 9, entry_value = 1, insert_version = 1, slot_version = 1\<rparr>,
                Some \<lparr>entry_key = 4, entry_value = 2, insert_version = 2, slot_version = 2\<rparr>],
     slot_states = [mark_valid 1, mark_valid 2], btm_len = 2, global_version = 3\<rparr>"

lemma pairs_two_entries: "btm_pairs two_entries = [(9, 1), (4, 2)]"
  by code_simp

lemma wf_two_entries: "wf_btm two_entries"
proof -
  have "slot_wf two_entries i" if "i < 2" for i
    using less_2_cases [OF that]
    by (rule disjE) (simp_all add: slot_wf_def two_entries_def exI [of _ "1 :: u32"] exI [of _ "2 :: u32"])
  moreover have "btm_capacity two_entries = 2" "length (storage two_entries) = 2" "btm_len two_entries = 2"
    by (simp_all add: btm_capacity_def two_entries_def)
  ultimately show ?thesis by (simp add: wf_btm_def pairs_two_entries)
qed

lemma dom_two_entries: "dom (btm_map two_entries) = {9, 4}" "btm_map two_entries 4 = Some 2"
  by (auto simp: btm_map_def pairs_two_entries)


text \<open>The stored length is exact on a well-formed map: it equals the number of keys and the
  slot-by-slot count of \<^verbatim>\<open>exact_len\<close>, \<^verbatim>\<open>is_empty\<close> holds exactly when no key is present, \<^verbatim>\<open>clear\<close> leaves a
  well-formed empty map of the same capacity, and \<^verbatim>\<open>for_each\<close> visits every pair of the map once.\<close>

theorem btm_len_exact:
  assumes "wf_btm m"
  shows "exact_len m = btm_len m \<and> unat (btm_len m) = card (dom (btm_map m)) \<and>
    (btm_is_empty m \<longleftrightarrow> dom (btm_map m) = {}) \<and>
    wf_btm (btm_clear m) \<and> btm_map (btm_clear m) = Map.empty \<and> btm_capacity (btm_clear m) = btm_capacity m \<and>
    (\<exists>ps. btm_for_each m = Inr ps \<and> distinct (map fst ps) \<and> map_of ps = btm_map m)"
  using len_spec [OF assms] clear_spec [OF assms] for_each_spec [OF assms] wf_btmD(4) [OF assms]
  by (simp add: btm_map_def)

theorem btm_len_exact_witness: "unat (btm_len two_entries) = 2 \<and> exact_len two_entries = btm_len two_entries"
  using btm_len_exact [OF wf_two_entries] by (simp add: dom_two_entries)

text \<open>Inserting pairs with distinct keys into an empty map that has room for them, in any order,
  and then popping as often gives the pairs back sorted by key: the map is a priority queue.\<close>

theorem btm_fill_drain_sorts:
  assumes "distinct (map fst ps)" "length ps \<le> cap" "cap < 2 ^ 64"
  shows "bind_outcome (fill btm_insert ps (btm_new cap)) (drain pop_first (length ps)) =
    Inr (sort_key fst ps)"
  using assms by (intro om.fill_drain wf_btm_new) auto

theorem btm_fill_drain_sorts_witness:
  "bind_outcome (fill btm_insert [(3, 0), (1, 1), (2::nat, 2::nat)] (btm_new 4)) (drain pop_first 3) =
    Inr [(1, 1), (2, 2), (3, 0)]"
proof -
  have "sort_key fst [(3, 0), (1, 1), (2::nat, 2::nat)] = [(1, 1), (2, 2), (3, 0)]" by code_simp
  then show ?thesis
    using btm_fill_drain_sorts [of "[(3, 0), (1, 1), (2::nat, 2::nat)]" 4] 
    by (simp add: numeral_3_eq_3 del: fill.simps drain.simps)
qed

end
