(* ===== verification/BTreeMap_Conc.thy ===== *)
theory BTreeMap_Conc
  imports BTreeMap_Spec
begin

text \<open>
  \<^verbatim>\<open>insert\<close>, \<^verbatim>\<open>pop_first\<close> and \<^verbatim>\<open>clear\<close> of \<^verbatim>\<open>utils/src/btreemap.rs\<close> under any interleaving of any
  number of threads. One step is one atomic access to a slot word, to the length or to the version
  counter, or one access to the entry of a slot (sequentially consistent). The two scans read entries
  without holding the slot: a read of an entry that was dropped meanwhile may see anything, the argument
  \<open>g\<close> of the step; a read that overlaps a write sees the entry before or after it.
\<close>

subsection \<open>The operations as step machines\<close>

text \<open>
  The results name the pairs the call was about: \<^verbatim>\<open>insert(k, v)\<close> returned \<^verbatim>\<open>Some(None)\<close>
  (\<open>InsertedNew k v\<close>), \<^verbatim>\<open>Some(Some(o))\<close> (\<open>Replaced k v o\<close>) or \<^verbatim>\<open>None\<close>; \<^verbatim>\<open>clear\<close> returns nothing, the
  list in \<open>Cleared\<close> records what it dropped.
\<close>

datatype ('k, 'v) btm_result =
  InsertedNew 'k 'v
| Replaced 'k 'v 'v
| InsertFailed
| Popped 'k 'v
| PoppedNone
| Cleared "('k \<times> 'v) list"
| BtmUndefined

text \<open>
  Program points, each named after the access performed next. \<open>iv\<close>: the insert version; \<open>n\<close>: the retries
  left, this one included; \<open>i\<close>: the slot; \<open>ver\<close>: the version seen valid; \<open>w\<close>: the word loaded; the
  optional entry: the one that is replaced.
\<close>

datatype ('k, 'v) bpc =
  InsFetch 'k 'v
| InsScan 'k 'v usize nat nat
| InsCheck 'k 'v usize nat nat u32
| InsLock 'k 'v usize nat nat u32
| InsLockCas 'k 'v usize nat nat u32 usize
| InsRestore 'k 'v usize nat nat u32
| InsOld 'k 'v usize nat
| InsClaim 'k 'v usize nat nat
| InsWrite 'k 'v usize nat "('k, 'v) entry option"
| InsMark 'k 'v usize nat "('k, 'v) entry option"
| InsLen 'k 'v
| PopScan nat nat "('k, 'v) candidate list"
| PopCheck nat nat "('k, 'v) candidate list" u32
| PopRecheck nat nat "('k, 'v) candidate list" u32
| PopClone nat nat "('k, 'v) candidate list" u32
| PopLock nat "('k, 'v) candidate"
| PopLockCas nat "('k, 'v) candidate" usize
| PopVerify nat "('k, 'v) candidate" u32
| PopRestore nat nat u32
| PopDrop nat "('k, 'v) entry"
| PopMark nat "('k, 'v) entry"
| PopLen "('k, 'v) entry"
| ClrScan nat "('k \<times> 'v) list"
| ClrLock nat u32 "('k \<times> 'v) list"
| ClrCas nat u32 usize "('k \<times> 'v) list"
| ClrRestore nat u32 "('k \<times> 'v) list"
| ClrDrop nat "('k \<times> 'v) list"
| ClrMark nat "('k \<times> 'v) list"
| ClrLen nat "('k \<times> 'v) list"
| BFinished "('k, 'v) btm_result"

definition put_data :: "nat \<Rightarrow> ('k, 'v) entry option \<Rightarrow> ('k, 'v) btm \<Rightarrow> ('k, 'v) btm" where
  "put_data i e m = m\<lparr>storage := (storage m)[i := e]\<rparr>"

definition seen_entry :: "('k, 'v) entry \<Rightarrow> ('k, 'v) btm \<Rightarrow> nat \<Rightarrow> ('k, 'v) entry" where
  "seen_entry g m i = (case storage m ! i of Some e \<Rightarrow> e | None \<Rightarrow> g)"

definition new_version :: "usize \<Rightarrow> u32" where
  "new_version iv = ucast (iv AND 0xFFFFFFFF)"

definition written_entry :: "'k \<Rightarrow> 'v \<Rightarrow> usize \<Rightarrow> ('k, 'v) entry" where
  "written_entry k v iv = \<lparr>entry_key = k, entry_value = v, insert_version = iv, slot_version = ucast (new_version iv)\<rparr>"

fun btm_insert_step :: "('k, 'v) entry \<Rightarrow> ('k, 'v) btm \<Rightarrow> ('k, 'v) bpc \<Rightarrow> ('k, 'v) btm \<times> ('k, 'v) bpc" where
  "btm_insert_step g m (InsFetch k v) =
     (m\<lparr>global_version := global_version m + 1\<rparr>,
      if btm_capacity m = 0 then BFinished InsertFailed else InsScan k v (global_version m) (btm_capacity m) 0)"
| "btm_insert_step g m (InsScan k v iv n i) =
     (m, if i < btm_capacity m
         then (case get_version_if_valid (slot_states m ! i) of
                 Some ver \<Rightarrow> InsCheck k v iv n i ver
               | None \<Rightarrow> InsScan k v iv n (Suc i))
         else InsClaim k v iv n 0)"
| "btm_insert_step g m (InsCheck k v iv n i ver) =
     (m, let e = seen_entry g m i in
         if entry_key e = k \<and> slot_version e = ucast ver then InsLock k v iv n i ver
         else InsScan k v iv n (Suc i))"
| "btm_insert_step g m (InsLock k v iv n i ver) =
     (m, let w = slot_states m ! i in
         if slot_is_valid w then InsLockCas k v iv n i ver w else InsScan k v iv n (Suc i))"
| "btm_insert_step g m (InsLockCas k v iv n i ver w) =
     (if slot_states m ! i = w
      then let lv = snd (load_state_version w) in
           (put_state i (pack_state lv STATE_DELETING) m,
            if lv = ver then InsOld k v iv i else InsRestore k v iv n i lv)
      else (m, InsScan k v iv n (Suc i)))"
| "btm_insert_step g m (InsRestore k v iv n i lv) = (put_state i (mark_valid lv) m, InsClaim k v iv n 0)"
| "btm_insert_step g m (InsOld k v iv i) =
     (m, case storage m ! i of None \<Rightarrow> BFinished BtmUndefined | Some e \<Rightarrow> InsWrite k v iv i (Some e))"
| "btm_insert_step g m (InsClaim k v iv n i) =
     (if i < btm_capacity m
      then if slot_states m ! i = 0
           then (put_state i (pack_state (new_version iv) STATE_WRITING) m, InsWrite k v iv i None)
           else (m, InsClaim k v iv n (Suc i))
      else (m, if n \<le> 1 then BFinished InsertFailed else InsScan k v iv (n - 1) 0))"
| "btm_insert_step g m (InsWrite k v iv i old) = (put_data i (Some (written_entry k v iv)) m, InsMark k v iv i old)"
| "btm_insert_step g m (InsMark k v iv i old) =
     (put_state i (mark_valid (new_version iv)) m,
      case old of Some e \<Rightarrow> BFinished (Replaced k v (entry_value e)) | None \<Rightarrow> InsLen k v)"
| "btm_insert_step g m (InsLen k v) = (m\<lparr>btm_len := btm_len m + 1\<rparr>, BFinished (InsertedNew k v))"
| "btm_insert_step g m p = (m, p)"

definition pop_again :: "nat \<Rightarrow> ('k, 'v) bpc" where
  "pop_again n = (if n \<le> 1 then BFinished PoppedNone else PopScan (n - 1) 0 [])"

text \<open>The end of a scan: the least candidate, if there is one.\<close>

definition pop_choose :: "nat \<Rightarrow> ('k::linorder, 'v) candidate list \<Rightarrow> ('k, 'v) bpc" where
  "pop_choose n cs = (case find_min_by candidate_less cs of None \<Rightarrow> BFinished PoppedNone | Some c \<Rightarrow> PopLock n c)"

fun btm_pop_step :: "('k, 'v) entry \<Rightarrow> ('k::linorder, 'v) btm \<Rightarrow> ('k, 'v) bpc \<Rightarrow> ('k, 'v) btm \<times> ('k, 'v) bpc" where
  "btm_pop_step g m (PopScan n i cs) =
     (m, if i < btm_capacity m
         then (case get_version_if_valid (slot_states m ! i) of
                 Some ver \<Rightarrow> PopCheck n i cs ver
               | None \<Rightarrow> PopScan n (Suc i) cs)
         else pop_choose n cs)"
| "btm_pop_step g m (PopCheck n i cs ver) =
     (m, if slot_version (seen_entry g m i) = ucast ver then PopRecheck n i cs ver else PopScan n (Suc i) cs)"
| "btm_pop_step g m (PopRecheck n i cs ver) =
     (m, if get_version_if_valid (slot_states m ! i) = Some ver then PopClone n i cs ver else PopScan n (Suc i) cs)"
| "btm_pop_step g m (PopClone n i cs ver) =
     (m, let e = seen_entry g m i in
         case candidates_push (btm_capacity m) cs
           \<lparr>cand_key = entry_key e, cand_value = entry_value e, cand_insert_version = insert_version e,
            cand_index = i, cand_slot_version = ver\<rparr> of
           (cs', ok) \<Rightarrow> if ok then PopScan n (Suc i) cs' else pop_choose n cs')"
| "btm_pop_step g m (PopLock n c) =
     (m, let w = slot_states m ! cand_index c in
         if slot_is_valid w then PopLockCas n c w else pop_again n)"
| "btm_pop_step g m (PopLockCas n c w) =
     (if slot_states m ! cand_index c = w
      then let lv = snd (load_state_version w) in
           (put_state (cand_index c) (pack_state lv STATE_DELETING) m,
            if lv = cand_slot_version c then PopVerify n c lv else PopRestore n (cand_index c) lv)
      else (m, pop_again n))"
| "btm_pop_step g m (PopVerify n c lv) =
     (m, case storage m ! cand_index c of
           None \<Rightarrow> BFinished BtmUndefined
         | Some e \<Rightarrow>
             if entry_key e = cand_key c \<and> insert_version e = cand_insert_version c \<and> slot_version e = ucast lv
             then PopDrop (cand_index c) e
             else PopRestore n (cand_index c) lv)"
| "btm_pop_step g m (PopRestore n i lv) = (put_state i (mark_valid lv) m, pop_again n)"
| "btm_pop_step g m (PopDrop i e) = (put_data i None m, PopMark i e)"
| "btm_pop_step g m (PopMark i e) = (put_state i mark_empty m, PopLen e)"
| "btm_pop_step g m (PopLen e) = (m\<lparr>btm_len := btm_len m - 1\<rparr>, BFinished (Popped (entry_key e) (entry_value e)))"
| "btm_pop_step g m p = (m, p)"

fun btm_clear_step :: "('k, 'v) btm \<Rightarrow> ('k, 'v) bpc \<Rightarrow> ('k, 'v) btm \<times> ('k, 'v) bpc" where
  "btm_clear_step m (ClrScan i ps) =
     (m, if i < btm_capacity m
         then (case get_version_if_valid (slot_states m ! i) of
                 Some ver \<Rightarrow> ClrLock i ver ps
               | None \<Rightarrow> ClrScan (Suc i) ps)
         else BFinished (Cleared ps))"
| "btm_clear_step m (ClrLock i ver ps) =
     (m, let w = slot_states m ! i in if slot_is_valid w then ClrCas i ver w ps else ClrScan (Suc i) ps)"
| "btm_clear_step m (ClrCas i ver w ps) =
     (if slot_states m ! i = w
      then let lv = snd (load_state_version w) in
           (put_state i (pack_state lv STATE_DELETING) m,
            if lv = ver then ClrDrop i ps else ClrRestore i lv ps)
      else (m, ClrScan (Suc i) ps))"
| "btm_clear_step m (ClrRestore i lv ps) = (put_state i (mark_valid lv) m, ClrScan (Suc i) ps)"
| "btm_clear_step m (ClrDrop i ps) =
     (case storage m ! i of
        None \<Rightarrow> (m, BFinished BtmUndefined)
      | Some e \<Rightarrow> (put_data i None m, ClrMark i (ps @ [(entry_key e, entry_value e)])))"
| "btm_clear_step m (ClrMark i ps) = (put_state i mark_empty m, ClrLen i ps)"
| "btm_clear_step m (ClrLen i ps) = (m\<lparr>btm_len := btm_len m - 1\<rparr>, ClrScan (Suc i) ps)"
| "btm_clear_step m p = (m, p)"

fun bpc_kind :: "('k, 'v) bpc \<Rightarrow> nat" where
  "bpc_kind (PopScan n i cs) = 1"
| "bpc_kind (PopCheck n i cs ver) = 1"
| "bpc_kind (PopRecheck n i cs ver) = 1"
| "bpc_kind (PopClone n i cs ver) = 1"
| "bpc_kind (PopLock n c) = 1"
| "bpc_kind (PopLockCas n c w) = 1"
| "bpc_kind (PopVerify n c lv) = 1"
| "bpc_kind (PopRestore n i lv) = 1"
| "bpc_kind (PopDrop i e) = 1"
| "bpc_kind (PopMark i e) = 1"
| "bpc_kind (PopLen e) = 1"
| "bpc_kind (ClrScan i ps) = 2"
| "bpc_kind (ClrLock i ver ps) = 2"
| "bpc_kind (ClrCas i ver w ps) = 2"
| "bpc_kind (ClrRestore i lv ps) = 2"
| "bpc_kind (ClrDrop i ps) = 2"
| "bpc_kind (ClrMark i ps) = 2"
| "bpc_kind (ClrLen i ps) = 2"
| "bpc_kind p = 0"

definition btm_step :: "('k, 'v) entry \<Rightarrow> ('k::linorder, 'v) btm \<Rightarrow> ('k, 'v) bpc \<Rightarrow> ('k, 'v) btm \<times> ('k, 'v) bpc" where
  "btm_step g m p =
     (if bpc_kind p = 0 then btm_insert_step g m p
      else if bpc_kind p = 1 then btm_pop_step g m p else btm_clear_step m p)"

text \<open>The points at which a call begins, and those at which it has returned.\<close>

fun is_done :: "('k, 'v) bpc \<Rightarrow> bool" where
  "is_done (BFinished r) = True"
| "is_done p = False"

fun is_call :: "('k, 'v) bpc \<Rightarrow> bool" where
  "is_call (InsFetch k v) = True"
| "is_call (PopScan n i cs) = (n = MAX_RETRIES \<and> i = 0 \<and> cs = [])"
| "is_call (ClrScan i ps) = (i = 0 \<and> ps = [])"
| "is_call p = False"

subsection \<open>Threads sharing one map\<close>

text \<open>\<open>results\<close>: what the calls returned, the last one first.\<close>

record ('k, 'v) bsys =
  bmap :: "('k, 'v) btm"
  bpcs :: "nat \<Rightarrow> ('k, 'v) bpc"
  results :: "('k, 'v) btm_result list"

datatype ('k, 'v) bsys_event = BInvoke nat "('k, 'v) bpc" | BRun nat "('k, 'v) entry"

definition bsys_new :: "nat \<Rightarrow> ('k, 'v) bsys" where
  "bsys_new cap = \<lparr>bmap = btm_new cap, bpcs = (\<lambda>_. BFinished PoppedNone), results = []\<rparr>"

fun add_result :: "('k, 'v) bpc \<Rightarrow> ('k, 'v) btm_result list \<Rightarrow> ('k, 'v) btm_result list" where
  "add_result (BFinished r) rs = r # rs"
| "add_result p rs = rs"

fun bsys_next :: "nat \<Rightarrow> ('k::linorder, 'v) bsys \<Rightarrow> ('k, 'v) bsys_event \<Rightarrow> ('k, 'v) bsys option" where
  "bsys_next N s (BInvoke t p) =
     (if t < N \<and> is_done (bpcs s t) \<and> is_call p then Some (s\<lparr>bpcs := (bpcs s)(t := p)\<rparr>) else None)"
| "bsys_next N s (BRun t g) =
     (if t < N \<and> \<not> is_done (bpcs s t)
      then case btm_step g (bmap s) (bpcs s t) of (m', p') \<Rightarrow>
        Some \<lparr>bmap = m', bpcs = (bpcs s)(t := p'), results = add_result p' (results s)\<rparr>
      else None)"

text \<open>
  The states \<open>N\<close> threads reach from an empty map. The versions are 32 bits of a 64-bit counter; the
  guard says that the counter has not gone round, that is, fewer than \<open>2 ^ 32\<close> inserts were begun.
\<close>

definition no_wrap :: "('k, 'v) btm \<Rightarrow> bool" where
  "no_wrap m \<longleftrightarrow> global_version m \<le> 0x100000000"

inductive bsys_reach :: "nat \<Rightarrow> nat \<Rightarrow> ('k::linorder, 'v) bsys \<Rightarrow> bool" for N cap where
  start: "bsys_reach N cap (bsys_new cap)"
| step: "bsys_reach N cap s \<Longrightarrow> bsys_next N s e = Some s' \<Longrightarrow> no_wrap (bmap s') \<Longrightarrow>
    bsys_reach N cap s'"

fun bsys_run :: "nat \<Rightarrow> ('k::linorder, 'v) bsys_event list \<Rightarrow> ('k, 'v) bsys \<Rightarrow> ('k, 'v) bsys option" where
  "bsys_run N [] s = Some s"
| "bsys_run N (e # es) s =
     (case bsys_next N s e of
        None \<Rightarrow> None
      | Some s' \<Rightarrow> if no_wrap (bmap s') then bsys_run N es s' else None)"

lemma bsys_run_reach: "bsys_reach N cap s \<Longrightarrow> bsys_run N es s = Some s' \<Longrightarrow> bsys_reach N cap s'"
  by (induction es arbitrary: s) (auto split: option.splits if_splits intro: bsys_reach.step)

text \<open>The pairs a call put into the map, and those it took out.\<close>

fun pairs_in :: "('k, 'v) btm_result \<Rightarrow> ('k \<times> 'v) multiset" where
  "pairs_in (InsertedNew k v) = {#(k, v)#}"
| "pairs_in (Replaced k v old) = {#(k, v)#}"
| "pairs_in r = {#}"

fun pairs_out :: "('k, 'v) btm_result \<Rightarrow> ('k \<times> 'v) multiset" where
  "pairs_out (Replaced k v old) = {#(k, old)#}"
| "pairs_out (Popped k v) = {#(k, v)#}"
| "pairs_out (Cleared ps) = mset ps"
| "pairs_out r = {#}"

definition all_in :: "('k, 'v) bsys \<Rightarrow> ('k \<times> 'v) multiset" where
  "all_in s = sum_list (map pairs_in (results s))"

definition all_out :: "('k, 'v) bsys \<Rightarrow> ('k \<times> 'v) multiset" where
  "all_out s = sum_list (map pairs_out (results s))"

end
