(* ===== verification/BTreeMap_Conc_Inv.thy ===== *)
theory BTreeMap_Conc_Inv
  imports BTreeMap_Conc
begin

text \<open>
  What holds in every state the threads of \<open>bsys_reach\<close> reach: a slot is empty, valid with an
  initialised entry of its version, or owned by exactly one thread that knows its content; the
  version of an insert that has not written yet is nowhere in the map and known to no scan; and
  pairs are conserved between the calls and the slots.
\<close>

subsection \<open>The invariant\<close>

text \<open>The slot a thread has locked, and what it knows of the word and of the entry there.\<close>

fun owns :: "('k, 'v) bpc \<Rightarrow> nat option" where
  "owns (InsRestore k v iv n i lv) = Some i"
| "owns (InsOld k v iv i) = Some i"
| "owns (InsWrite k v iv i old) = Some i"
| "owns (InsMark k v iv i old) = Some i"
| "owns (PopVerify n c lv) = Some (cand_index c)"
| "owns (PopRestore n i lv) = Some i"
| "owns (PopDrop i e) = Some i"
| "owns (PopMark i e) = Some i"
| "owns (ClrRestore i lv ps) = Some i"
| "owns (ClrDrop i ps) = Some i"
| "owns (ClrMark i ps) = Some i"
| "owns p = None"

definition entry_of_version :: "u32 \<Rightarrow> ('k, 'v) entry option \<Rightarrow> bool" where
  "entry_of_version lv d \<longleftrightarrow> (\<exists>e. d = Some e \<and> slot_version e = ucast lv)"

fun data_claim :: "('k, 'v) bpc \<Rightarrow> ('k, 'v) entry option \<Rightarrow> bool" where
  "data_claim (InsRestore k v iv n i lv) d = entry_of_version lv d"
| "data_claim (InsOld k v iv i) d = (\<exists>e. d = Some e \<and> entry_key e = k)"
| "data_claim (InsWrite k v iv i old) d = (d = old \<and> (\<forall>e. old = Some e \<longrightarrow> entry_key e = k))"
| "data_claim (InsMark k v iv i old) d = (d = Some (written_entry k v iv))"
| "data_claim (PopVerify n c lv) d = entry_of_version lv d"
| "data_claim (PopRestore n i lv) d = entry_of_version lv d"
| "data_claim (PopDrop i e) d = (d = Some e)"
| "data_claim (PopMark i e) d = (d = None)"
| "data_claim (ClrRestore i lv ps) d = entry_of_version lv d"
| "data_claim (ClrDrop i ps) d = (d \<noteq> None)"
| "data_claim (ClrMark i ps) d = (d = None)"
| "data_claim p d = True"

definition busy_word :: "usize \<Rightarrow> bool" where
  "busy_word w \<longleftrightarrow> fst (load_state_version w) \<in> {STATE_WRITING, STATE_DELETING}"

text \<open>A slot no one has locked.\<close>

definition idle_slot :: "usize \<Rightarrow> ('k, 'v) entry option \<Rightarrow> bool" where
  "idle_slot w d \<longleftrightarrow> w = 0 \<and> d = None \<or> (\<exists>v. w = mark_valid v \<and> entry_of_version v d)"

text \<open>Indices are in range, and a word to be compared was seen valid.\<close>

fun local_ok :: "nat \<Rightarrow> ('k, 'v) bpc \<Rightarrow> bool" where
  "local_ok cap (InsCheck k v iv n i ver) = (i < cap)"
| "local_ok cap (InsLock k v iv n i ver) = (i < cap)"
| "local_ok cap (InsLockCas k v iv n i ver w) = (i < cap \<and> slot_is_valid w)"
| "local_ok cap (PopScan n i cs) = (\<forall>c \<in> set cs. cand_index c < cap)"
| "local_ok cap (PopCheck n i cs ver) = (i < cap \<and> (\<forall>c \<in> set cs. cand_index c < cap))"
| "local_ok cap (PopRecheck n i cs ver) = (i < cap \<and> (\<forall>c \<in> set cs. cand_index c < cap))"
| "local_ok cap (PopClone n i cs ver) = (i < cap \<and> (\<forall>c \<in> set cs. cand_index c < cap))"
| "local_ok cap (PopLock n c) = (cand_index c < cap)"
| "local_ok cap (PopLockCas n c w) = (cand_index c < cap \<and> slot_is_valid w)"
| "local_ok cap (ClrLock i ver ps) = (i < cap)"
| "local_ok cap (ClrCas i ver w ps) = (i < cap \<and> slot_is_valid w)"
| "local_ok cap (BFinished r) = (r \<noteq> BtmUndefined)"
| "local_ok cap p = True"

definition bpc_ok :: "nat \<Rightarrow> ('k, 'v) btm \<Rightarrow> ('k, 'v) bpc \<Rightarrow> bool" where
  "bpc_ok cap m p \<longleftrightarrow> local_ok cap p \<and>
     (\<forall>i. owns p = Some i \<longrightarrow> i < cap \<and> busy_word (slot_states m ! i) \<and> data_claim p (storage m ! i))"

definition slots_inv :: "nat \<Rightarrow> ('k, 'v) btm \<Rightarrow> (nat \<Rightarrow> ('k, 'v) bpc) \<Rightarrow> bool" where
  "slots_inv cap m ps \<longleftrightarrow>
     length (slot_states m) = cap \<and> length (storage m) = cap \<and>
     (\<forall>t. bpc_ok cap m (ps t)) \<and>
     (\<forall>t u i. owns (ps t) = Some i \<longrightarrow> owns (ps u) = Some i \<longrightarrow> t = u) \<and>
     (\<forall>i < cap. idle_slot (slot_states m ! i) (storage m ! i) \<or> (\<exists>t. owns (ps t) = Some i))"

text \<open>The version of an insert that has not been written yet, and a version a scan has seen.\<close>

fun unwritten :: "('k, 'v) bpc \<Rightarrow> usize option" where
  "unwritten (InsScan k v iv n i) = Some iv"
| "unwritten (InsCheck k v iv n i ver) = Some iv"
| "unwritten (InsLock k v iv n i ver) = Some iv"
| "unwritten (InsLockCas k v iv n i ver w) = Some iv"
| "unwritten (InsRestore k v iv n i lv) = Some iv"
| "unwritten (InsOld k v iv i) = Some iv"
| "unwritten (InsClaim k v iv n i) = Some iv"
| "unwritten (InsWrite k v iv i old) = Some iv"
| "unwritten p = None"

fun seen_version :: "('k, 'v) bpc \<Rightarrow> u32 option" where
  "seen_version (InsCheck k v iv n i ver) = Some ver"
| "seen_version (InsLock k v iv n i ver) = Some ver"
| "seen_version (InsLockCas k v iv n i ver w) = Some ver"
| "seen_version p = None"

text \<open>After the check, an entry of the version seen has the key of the insert.\<close>

fun key_claim :: "('k, 'v) btm \<Rightarrow> ('k, 'v) bpc \<Rightarrow> bool" where
  "key_claim m (InsLock k v iv n i ver) =
     (\<forall>e. storage m ! i = Some e \<longrightarrow> slot_version e = ucast ver \<longrightarrow> entry_key e = k)"
| "key_claim m (InsLockCas k v iv n i ver w) =
     (\<forall>e. storage m ! i = Some e \<longrightarrow> slot_version e = ucast ver \<longrightarrow> entry_key e = k)"
| "key_claim m p = True"

definition versions_inv :: "nat \<Rightarrow> ('k, 'v) btm \<Rightarrow> (nat \<Rightarrow> ('k, 'v) bpc) \<Rightarrow> bool" where
  "versions_inv cap m ps \<longleftrightarrow> no_wrap m \<and>
     (\<forall>t iv. unwritten (ps t) = Some iv \<longrightarrow> iv < global_version m) \<and>
     (\<forall>t u iv. unwritten (ps t) = Some iv \<longrightarrow> unwritten (ps u) = Some iv \<longrightarrow> t = u) \<and>
     (\<forall>i < cap. \<forall>e. storage m ! i = Some e \<longrightarrow>
        slot_version e < global_version m \<and> (\<forall>t. unwritten (ps t) \<noteq> Some (slot_version e))) \<and>
     (\<forall>t ver. seen_version (ps t) = Some ver \<longrightarrow>
        ucast ver < global_version m \<and> (\<forall>u. unwritten (ps u) \<noteq> Some (ucast ver))) \<and>
     (\<forall>t. key_claim m (ps t))"

text \<open>
  Pairs of a call under way: \<open>credit\<close> those that are in the map already and will be counted as put in
  when it returns, \<open>debit\<close> those that are out of it already.
\<close>

fun credit :: "('k, 'v) bpc \<Rightarrow> ('k \<times> 'v) multiset" where
  "credit (InsMark k v iv i old) = {#(k, v)#}"
| "credit (InsLen k v) = {#(k, v)#}"
| "credit p = {#}"

fun debit :: "('k, 'v) bpc \<Rightarrow> ('k \<times> 'v) multiset" where
  "debit (InsMark k v iv i old) = (case old of None \<Rightarrow> {#} | Some e \<Rightarrow> {#(k, entry_value e)#})"
| "debit (PopMark i e) = {#(entry_key e, entry_value e)#}"
| "debit (PopLen e) = {#(entry_key e, entry_value e)#}"
| "debit (ClrScan i ps) = mset ps"
| "debit (ClrLock i ver ps) = mset ps"
| "debit (ClrCas i ver w ps) = mset ps"
| "debit (ClrRestore i lv ps) = mset ps"
| "debit (ClrDrop i ps) = mset ps"
| "debit (ClrMark i ps) = mset ps"
| "debit (ClrLen i ps) = mset ps"
| "debit p = {#}"

definition entry_pair :: "('k, 'v) entry option \<Rightarrow> ('k \<times> 'v) multiset" where
  "entry_pair d = (case d of None \<Rightarrow> {#} | Some e \<Rightarrow> {#(entry_key e, entry_value e)#})"

text \<open>The same for the length: slots not yet counted, and slots no longer occupied but still counted.\<close>

fun uncounted :: "('k, 'v) bpc \<Rightarrow> usize" where
  "uncounted (InsMark k v iv i old) = (case old of None \<Rightarrow> 1 | Some e \<Rightarrow> 0)"
| "uncounted (InsLen k v) = 1"
| "uncounted p = 0"

fun overcounted :: "('k, 'v) bpc \<Rightarrow> usize" where
  "overcounted (PopMark i e) = 1"
| "overcounted (PopLen e) = 1"
| "overcounted (ClrMark i ps) = 1"
| "overcounted (ClrLen i ps) = 1"
| "overcounted p = 0"

definition occupied :: "('k, 'v) entry option \<Rightarrow> usize" where
  "occupied d = (case d of None \<Rightarrow> 0 | Some e \<Rightarrow> 1)"

definition balanced :: "nat \<Rightarrow> nat \<Rightarrow> ('k, 'v) bsys \<Rightarrow> bool" where
  "balanced N cap s \<longleftrightarrow>
     all_in s + (\<Sum>t<N. credit (bpcs s t)) =
       all_out s + (\<Sum>t<N. debit (bpcs s t)) + (\<Sum>i<cap. entry_pair (storage (bmap s) ! i)) \<and>
     btm_len (bmap s) + (\<Sum>t<N. uncounted (bpcs s t)) =
       (\<Sum>t<N. overcounted (bpcs s t)) + (\<Sum>i<cap. occupied (storage (bmap s) ! i))"

subsection \<open>Words and slots\<close>

lemma busy_pack [simp]: "busy_word (pack_state v STATE_WRITING)" "busy_word (pack_state v STATE_DELETING)"
  by (simp_all add: busy_word_def load_pack)

lemma not_busy [simp]: "\<not> busy_word 0" "\<not> busy_word (mark_valid v)" "\<not> busy_word mark_empty"
  by (simp_all add: busy_word_def load_zero load_mark_valid mark_empty_def STATE_EMPTY_def STATE_VALID_def
      STATE_WRITING_def STATE_DELETING_def)

lemma valid_not_busy: "slot_is_valid w \<Longrightarrow> \<not> busy_word w"
  by (simp add: slot_is_valid_def busy_word_def STATE_VALID_def STATE_WRITING_def STATE_DELETING_def)

lemma get_version_SomeD: "get_version_if_valid w = Some v \<Longrightarrow> slot_is_valid w \<and> v = snd (load_state_version w)"
  by (auto simp: get_version_if_valid_def slot_is_valid_def split: prod.splits if_splits)

lemma slots_invD:
  assumes "slots_inv cap m ps"
  shows "length (slot_states m) = cap" "length (storage m) = cap" "btm_capacity m = cap"
    "bpc_ok cap m (ps t)"
    "owns (ps t) = Some i \<Longrightarrow> owns (ps u) = Some i \<Longrightarrow> t = u"
    "i < cap \<Longrightarrow> idle_slot (slot_states m ! i) (storage m ! i) \<or> (\<exists>t. owns (ps t) = Some i)"
  using assms unfolding slots_inv_def btm_capacity_def by blast+

lemma slots_inv_localD: "slots_inv cap m ps \<Longrightarrow> local_ok cap (ps t)"
  using slots_invD(4) [of cap m ps t] by (simp add: bpc_ok_def)

lemma slots_inv_ownsD:
  assumes "slots_inv cap m ps" "owns (ps t) = Some i"
  shows "i < cap" "busy_word (slot_states m ! i)" "data_claim (ps t) (storage m ! i)"
  using slots_invD(4) [OF assms(1), of t] assms(2) by (auto simp: bpc_ok_def)

lemma slots_inv_idle:
  assumes "slots_inv cap m ps" "i < cap" "\<not> busy_word (slot_states m ! i)"
  shows "idle_slot (slot_states m ! i) (storage m ! i)"
  using slots_invD(6) [OF assms(1,2)] slots_inv_ownsD(2) [OF assms(1)] assms(3) by blast

lemma slots_inv_valid:
  assumes "slots_inv cap m ps" "i < cap" "slot_is_valid (slot_states m ! i)"
  shows "entry_of_version (snd (load_state_version (slot_states m ! i))) (storage m ! i)"
proof -
  have "idle_slot (slot_states m ! i) (storage m ! i)"
    using slots_inv_idle [OF assms(1,2)] valid_not_busy [OF assms(3)] by blast
  moreover have "slot_states m ! i \<noteq> 0"
    using assms(3) by (auto simp: slot_is_valid_def load_zero STATE_EMPTY_def STATE_VALID_def)
  ultimately show ?thesis by (auto simp: idle_slot_def load_mark_valid)
qed

lemma slots_inv_zero:
  assumes "slots_inv cap m ps" "i < cap" "slot_states m ! i = 0"
  shows "storage m ! i = None"
  using slots_inv_idle [OF assms(1,2)] assms(3) mark_valid_nz by (auto simp: idle_slot_def)

subsection \<open>Steps that touch no slot, and steps that touch one\<close>

lemma slots_inv_quiet:
  assumes inv: "slots_inv cap m ps" and m': "storage m' = storage m" "slot_states m' = slot_states m"
    and p': "owns (ps t) = None" "owns p' = None" "local_ok cap p'"
  shows "slots_inv cap m' (ps(t := p'))"
proof -
  have "owns ((ps(t := p')) u) = owns (ps u)" for u using p' by simp
  moreover have "bpc_ok cap m' ((ps(t := p')) u)" for u
    using slots_invD(4) [OF inv, of u] m' p' by (simp add: bpc_ok_def)
  ultimately show ?thesis using inv m' unfolding slots_inv_def by auto
qed

definition slot_after :: "('k, 'v) bpc \<Rightarrow> nat \<Rightarrow> usize \<Rightarrow> ('k, 'v) entry option \<Rightarrow> bool" where
  "slot_after p i w d \<longleftrightarrow>
     owns p = Some i \<and> busy_word w \<and> data_claim p d \<or> owns p = None \<and> idle_slot w d"

lemma slots_inv_touch:
  assumes inv: "slots_inv cap m ps" and K: "K < cap"
    and len: "length (slot_states m') = cap" "length (storage m') = cap"
    and frame: "\<And>i. i \<noteq> K \<Longrightarrow> slot_states m' ! i = slot_states m ! i \<and> storage m' ! i = storage m ! i"
    and mine: "owns (ps t) = Some K \<or> owns (ps t) = None \<and> \<not> busy_word (slot_states m ! K)"
    and p': "local_ok cap p'" "slot_after p' K (slot_states m' ! K) (storage m' ! K)"
  shows "slots_inv cap m' (ps(t := p'))"
proof -
  have others: "owns (ps u) \<noteq> Some K" if "u \<noteq> t" for u
    using mine slots_invD(5) [OF inv, of u K t] slots_inv_ownsD(2) [OF inv, of u K] that by blast
  have ok: "bpc_ok cap m' ((ps(t := p')) u)" for u
  proof (cases "u = t")
    case True
    then show ?thesis using p' K by (auto simp: bpc_ok_def slot_after_def)
  next
    case False
    have "i \<noteq> K" if "owns (ps u) = Some i" for i using others [OF False] that by auto
    then show ?thesis using False slots_invD(4) [OF inv, of u] frame by (auto simp: bpc_ok_def)
  qed
  have own': "owns p' = None \<or> owns p' = Some K" using p'(2) by (auto simp: slot_after_def)
  have uniq: "u = v" if "owns ((ps(t := p')) u) = Some i" "owns ((ps(t := p')) v) = Some i" for u v i
    using that own' others slots_invD(5) [OF inv, of u i v] by (auto split: if_splits)
  have cover: "idle_slot (slot_states m' ! i) (storage m' ! i) \<or> (\<exists>u. owns ((ps(t := p')) u) = Some i)"
    if i: "i < cap" for i
  proof (cases "i = K")
    case True
    then show ?thesis using p'(2) by (auto simp: slot_after_def)
  next
    case False
    from slots_invD(6) [OF inv i] show ?thesis
    proof
      assume "\<exists>u. owns (ps u) = Some i"
      then obtain u where u: "owns (ps u) = Some i" by blast
      then have "u \<noteq> t" using mine False by auto
      then show ?thesis using u by auto
    qed (use frame [OF False] in simp)
  qed
  show ?thesis unfolding slots_inv_def using len ok uniq cover by blast
qed

lemma put_state_frame [simp]:
  "length (slot_states (put_state i w m)) = length (slot_states m)" "storage (put_state i w m) = storage m"
  "global_version (put_state i w m) = global_version m" "btm_len (put_state i w m) = btm_len m"
  "j \<noteq> i \<Longrightarrow> slot_states (put_state i w m) ! j = slot_states m ! j"
  "i < length (slot_states m) \<Longrightarrow> slot_states (put_state i w m) ! i = w"
  by (simp_all add: put_state_def)

lemma put_data_frame [simp]:
  "slot_states (put_data i d m) = slot_states m" "length (storage (put_data i d m)) = length (storage m)"
  "global_version (put_data i d m) = global_version m" "btm_len (put_data i d m) = btm_len m"
  "j \<noteq> i \<Longrightarrow> storage (put_data i d m) ! j = storage m ! j"
  "i < length (storage m) \<Longrightarrow> storage (put_data i d m) ! i = d"
  by (simp_all add: put_data_def)

lemma slots_inv_put_state:
  assumes "slots_inv cap m ps" "i < cap"
    and "owns (ps t) = Some i \<or> owns (ps t) = None \<and> \<not> busy_word (slot_states m ! i)"
    and "local_ok cap p'" "slot_after p' i w (storage m ! i)"
  shows "slots_inv cap (put_state i w m) (ps(t := p'))"
  using slots_inv_touch [OF assms(1,2), where m' = "put_state i w m"] slots_invD(1,2) [OF assms(1)] assms
  by auto

lemma slots_inv_put_data:
  assumes "slots_inv cap m ps" "owns (ps t) = Some i" "local_ok cap p'" "owns p' = Some i" "data_claim p' d"
  shows "slots_inv cap (put_data i d m) (ps(t := p'))"
  using slots_inv_touch [OF assms(1), of i "put_data i d m" t p'] slots_invD(1,2) [OF assms(1)]
    slots_inv_ownsD [OF assms(1,2)] assms(2-) by (auto simp: slot_after_def)

lemma slots_inv_keep:
  assumes "slots_inv cap m ps" "owns (ps t) = Some i" "local_ok cap p'" "owns p' = Some i"
    "data_claim p' (storage m ! i)"
  shows "slots_inv cap m (ps(t := p'))"
  using slots_inv_touch [OF assms(1), of i m t p'] slots_invD(1,2) [OF assms(1)]
    slots_inv_ownsD [OF assms(1,2)] assms(2-) by (auto simp: slot_after_def)

subsection \<open>Every step keeps the slots\<close>

lemma find_min_from_in: "find_min_from lt c ds \<in> set (c # ds)"
proof (induction ds arbitrary: c)
  case (Cons d ds)
  then show ?case using Cons [of "if lt d c then d else c"] by (auto split: if_splits)
qed simp

lemma find_min_by_in: "find_min_by lt cs = Some c \<Longrightarrow> c \<in> set cs"
  using find_min_from_in by (fastforce simp: find_min_by_def split: list.splits)

lemma pop_again_ok [simp]: "local_ok cap (pop_again n)" "owns (pop_again n) = None"
  by (simp_all add: pop_again_def)

lemma pop_choose_ok:
  "(\<forall>c \<in> set cs. cand_index c < cap) \<Longrightarrow> local_ok cap (pop_choose n cs) \<and> owns (pop_choose n cs) = None"
  by (auto simp: pop_choose_def dest: find_min_by_in split: option.splits)

lemma idle_marked: "entry_of_version v d \<Longrightarrow> idle_slot (mark_valid v) d"
  by (auto simp: idle_slot_def)

lemma slots_step_insert:
  assumes inv: "slots_inv cap m ps" and ver: "versions_inv cap m ps" and p: "bpc_kind (ps t) = 0"
  shows "slots_inv cap (fst (btm_insert_step g m (ps t))) (ps(t := snd (btm_insert_step g m (ps t))))"
proof (cases "ps t")
  case (InsLockCas k v iv n i vr w)
  note ok = slots_inv_localD [OF inv, of t, unfolded InsLockCas, simplified]
  show ?thesis
  proof (cases "slot_states m ! i = w")
    case True
    let ?lv = "snd (load_state_version w)"
    have e: "entry_of_version ?lv (storage m ! i)" using slots_inv_valid [OF inv] ok True by auto
    have "entry_key x = k" if "storage m ! i = Some x" "?lv = vr" for x
      using ver e that InsLockCas unfolding versions_inv_def entry_of_version_def
      by (metis key_claim.simps(2) option.inject)
    with e have "slot_after (snd (btm_insert_step g m (ps t))) i (pack_state ?lv STATE_DELETING) (storage m ! i)"
      using InsLockCas True by (auto simp: slot_after_def entry_of_version_def Let_def split: if_splits)
    then show ?thesis
      using InsLockCas True ok valid_not_busy
      by (auto simp: Let_def slot_after_def split: if_splits intro!: slots_inv_put_state [OF inv])
  qed (use InsLockCas in \<open>auto intro: slots_inv_quiet [OF inv]\<close>)
next
  case (InsOld k v iv i)
  then show ?thesis using slots_inv_ownsD(3) [OF inv, of t i]
    by (auto intro!: slots_inv_keep [OF inv])
next
  case (InsRestore k v iv n i lv)
  then show ?thesis using slots_inv_ownsD [OF inv, of t i]
    by (auto simp: slot_after_def idle_marked intro!: slots_inv_put_state [OF inv])
next
  case (InsClaim k v iv n i)
  then show ?thesis using slots_inv_zero [OF inv, of i]
    by (auto simp: slots_invD(3) [OF inv] slot_after_def split: if_splits
        intro!: slots_inv_put_state [OF inv] slots_inv_quiet [OF inv])
next
  case (InsWrite k v iv i old)
  then show ?thesis by (auto intro!: slots_inv_put_data [OF inv])
next
  case (InsMark k v iv i old)
  let ?p = "snd (btm_insert_step g m (ps t))"
  have "owns ?p = None" "local_ok cap ?p" using InsMark by (auto split: option.splits)
  then show ?thesis using InsMark slots_inv_ownsD [OF inv, of t i]
    by (auto simp: slot_after_def idle_marked entry_of_version_def written_entry_def
        intro!: slots_inv_put_state [OF inv])
next
  case (InsFetch k v)
  show ?thesis by (rule slots_inv_quiet [OF inv]) (auto simp: InsFetch)
qed (use p slots_inv_localD [OF inv, of t] in
    \<open>auto simp: slots_invD(3) [OF inv] Let_def split: if_splits option.splits intro!: slots_inv_quiet [OF inv]\<close>)

lemma slots_step_pop:
  assumes inv: "slots_inv cap m ps" and p: "bpc_kind (ps t) = 1"
  shows "slots_inv cap (fst (btm_pop_step g m (ps t))) (ps(t := snd (btm_pop_step g m (ps t))))"
proof (cases "ps t")
  case (PopScan n i cs)
  then show ?thesis using slots_inv_localD [OF inv, of t] pop_choose_ok
    by (auto simp: slots_invD(3) [OF inv] split: if_splits option.splits intro!: slots_inv_quiet [OF inv])
next
  case (PopClone n i cs vr)
  then show ?thesis using slots_inv_localD [OF inv, of t] pop_choose_ok
    by (auto simp: slots_invD(3) [OF inv] Let_def candidates_push_def split: if_splits intro!: slots_inv_quiet [OF inv])
next
  case (PopLockCas n c w)
  note ok = slots_inv_localD [OF inv, of t, unfolded PopLockCas, simplified]
  show ?thesis
  proof (cases "slot_states m ! cand_index c = w")
    case True
    have "entry_of_version (snd (load_state_version w)) (storage m ! cand_index c)"
      using slots_inv_valid [OF inv] ok True by auto
    then show ?thesis
      using PopLockCas True ok valid_not_busy
      by (auto simp: Let_def slot_after_def split: if_splits intro!: slots_inv_put_state [OF inv])
  qed (use PopLockCas in \<open>auto intro!: slots_inv_quiet [OF inv]\<close>)
next
  case (PopVerify n c lv)
  then show ?thesis using slots_inv_ownsD(3) [OF inv, of t "cand_index c"]
    by (auto simp: entry_of_version_def split: if_splits intro!: slots_inv_keep [OF inv])
next
  case (PopRestore n i lv)
  then show ?thesis using slots_inv_ownsD [OF inv, of t i]
    by (auto simp: slot_after_def idle_marked intro!: slots_inv_put_state [OF inv])
next
  case (PopDrop i e)
  then show ?thesis by (auto intro!: slots_inv_put_data [OF inv])
next
  case (PopMark i e)
  then show ?thesis using slots_inv_ownsD [OF inv, of t i]
    by (auto simp: slot_after_def idle_slot_def mark_empty_def intro!: slots_inv_put_state [OF inv])
qed (use p slots_inv_localD [OF inv, of t] in
    \<open>auto simp: slots_invD(3) [OF inv] Let_def split: if_splits option.splits intro!: slots_inv_quiet [OF inv]\<close>)

lemma slots_step_clear:
  assumes inv: "slots_inv cap m ps" and p: "bpc_kind (ps t) = 2"
  shows "slots_inv cap (fst (btm_clear_step m (ps t))) (ps(t := snd (btm_clear_step m (ps t))))"
proof (cases "ps t")
  case (ClrCas i vr w xs)
  note ok = slots_inv_localD [OF inv, of t, unfolded ClrCas, simplified]
  show ?thesis
  proof (cases "slot_states m ! i = w")
    case True
    have "entry_of_version (snd (load_state_version w)) (storage m ! i)"
      using slots_inv_valid [OF inv] ok True by auto
    then show ?thesis
      using ClrCas True ok valid_not_busy
      by (auto simp: Let_def slot_after_def entry_of_version_def split: if_splits
          intro!: slots_inv_put_state [OF inv])
  qed (use ClrCas in \<open>auto intro!: slots_inv_quiet [OF inv]\<close>)
next
  case (ClrRestore i lv xs)
  then show ?thesis using slots_inv_ownsD [OF inv, of t i]
    by (auto simp: slot_after_def idle_marked intro!: slots_inv_put_state [OF inv])
next
  case (ClrDrop i xs)
  then show ?thesis using slots_inv_ownsD(3) [OF inv, of t i]
    by (auto intro!: slots_inv_put_data [OF inv])
next
  case (ClrMark i xs)
  then show ?thesis using slots_inv_ownsD [OF inv, of t i]
    by (auto simp: slot_after_def idle_slot_def mark_empty_def intro!: slots_inv_put_state [OF inv])
qed (use p slots_inv_localD [OF inv, of t] in
    \<open>auto simp: slots_invD(3) [OF inv] Let_def split: if_splits option.splits intro!: slots_inv_quiet [OF inv]\<close>)

lemma bpc_kinds:
  obtains "bpc_kind p = 0" "btm_step g m p = btm_insert_step g m p"
  | "bpc_kind p = 1" "btm_step g m p = btm_pop_step g m p"
  | "bpc_kind p = 2" "btm_step g m p = btm_clear_step m p"
proof -
  have "bpc_kind p = 0 \<or> bpc_kind p = 1 \<or> bpc_kind p = 2" by (cases p) auto
  then show thesis using that by (auto simp: btm_step_def)
qed

lemma slots_step:
  assumes "slots_inv cap m ps" "versions_inv cap m ps"
  shows "slots_inv cap (fst (btm_step g m (ps t))) (ps(t := snd (btm_step g m (ps t))))"
proof (cases rule: bpc_kinds [of "ps t" g m])
  case 1
  then show ?thesis using slots_step_insert [OF assms 1(1), of g] by metis
next
  case 2
  then show ?thesis using slots_step_pop [OF assms(1) 2(1), of g] by metis
next
  case 3
  then show ?thesis using slots_step_clear [OF assms(1) 3(1)] by metis
qed

subsection \<open>Every step keeps the versions\<close>

lemma versions_invD:
  assumes "versions_inv cap m ps"
  shows "no_wrap m" "unwritten (ps t) = Some iv \<Longrightarrow> iv < global_version m"
    "unwritten (ps t) = Some iv \<Longrightarrow> unwritten (ps u) = Some iv \<Longrightarrow> t = u"
    "i < cap \<Longrightarrow> storage m ! i = Some e \<Longrightarrow> slot_version e < global_version m"
    "i < cap \<Longrightarrow> storage m ! i = Some e \<Longrightarrow> unwritten (ps t) \<noteq> Some (slot_version e)"
    "seen_version (ps t) = Some ver \<Longrightarrow> ucast ver < global_version m"
    "seen_version (ps t) = Some ver \<Longrightarrow> unwritten (ps u) \<noteq> Some (ucast ver)"
    "key_claim m (ps t)"
  using assms unfolding versions_inv_def by blast+

text \<open>Entries only go, and the thread keeps or gives up its version.\<close>

lemma key_claim_stable:
  assumes "key_claim m p"
    and "\<forall>ver. seen_version p = Some ver \<longrightarrow>
      (\<forall>j x. storage m' ! j = Some x \<and> slot_version x = ucast ver \<longrightarrow> storage m ! j = Some x)"
  shows "key_claim m' p"
proof (cases p)
  case (InsLock k v iv n i ver)
  show ?thesis using assms unfolding InsLock key_claim.simps seen_version.simps by blast
next
  case (InsLockCas k v iv n i ver w)
  show ?thesis using assms unfolding InsLockCas key_claim.simps seen_version.simps by blast
qed simp_all

lemma key_claim_mono:
  assumes "key_claim m p" "\<And>i e. storage m' ! i = Some e \<Longrightarrow> storage m ! i = Some e"
  shows "key_claim m' p"
  using key_claim_stable [OF assms(1), of m'] assms(2) by blast

definition version_kept :: "nat \<Rightarrow> ('k, 'v) btm \<Rightarrow> ('k, 'v) bpc \<Rightarrow> ('k, 'v) bpc \<Rightarrow> bool" where
  "version_kept cap m p p' \<longleftrightarrow>
     (unwritten p' = None \<or> unwritten p' = unwritten p) \<and>
     (seen_version p' = None \<or> seen_version p' = seen_version p \<or>
      (\<exists>ver i. seen_version p' = Some ver \<and> i < cap \<and> entry_of_version ver (storage m ! i)))"

lemma versions_inv_fewer:
  assumes inv: "versions_inv cap m ps" and gv: "global_version m' = global_version m"
    and fewer: "\<And>i e. storage m' ! i = Some e \<Longrightarrow> storage m ! i = Some e"
    and kept: "version_kept cap m (ps t) p'" and key: "key_claim m' p'"
  shows "versions_inv cap m' (ps(t := p'))"
proof -
  note D = versions_invD [OF inv]
  let ?qs = "ps(t := p')"
  have unw: "unwritten (?qs u) = Some iv \<Longrightarrow> unwritten (ps u) = Some iv" for u iv
    using kept by (auto simp: version_kept_def split: if_splits)
  have seen: "ucast ver < global_version m \<and> (\<forall>v. unwritten (ps v) \<noteq> Some (ucast ver))"
    if s: "seen_version (?qs u) = Some ver" for u ver
  proof (cases "seen_version (ps u) = Some ver")
    case True
    then show ?thesis using D(6,7) by blast
  next
    case False
    then obtain i where "i < cap" "entry_of_version ver (storage m ! i)"
      using s kept by (auto simp: version_kept_def split: if_splits)
    then obtain e where e: "i < cap" "storage m ! i = Some e" "ucast ver = slot_version e"
      by (auto simp: entry_of_version_def)
    show ?thesis unfolding e(3) using D(4,5) [OF e(1,2)] by blast
  qed
  have keys: "key_claim m' (?qs u)" for u
    using key key_claim_mono [OF D(8) fewer] by simp
  show ?thesis
    unfolding versions_inv_def gv no_wrap_def
  proof (intro conjI allI impI)
    fix u v iv assume "unwritten (?qs u) = Some iv" "unwritten (?qs v) = Some iv"
    then show "u = v" using unw D(3) by blast
  next
    fix i e u assume "i < cap" "storage m' ! i = Some e"
    then show "unwritten (?qs u) \<noteq> Some (slot_version e)" using fewer D(5) unw by blast
  next
    fix u v ver assume "seen_version (?qs u) = Some ver"
    then show "unwritten (?qs v) \<noteq> Some (ucast ver)" using seen unw by blast
  qed (use D(1) [unfolded no_wrap_def] unw D(2) fewer D(4) seen keys in blast)+
qed

lemma no_wrap_nat: "no_wrap m \<longleftrightarrow> unat (global_version m) \<le> 2 ^ 32"
  by (simp add: no_wrap_def word_le_nat_alt)

text \<open>The first step of an insert takes a version no one has had.\<close>

lemma fresh_version:
  assumes "no_wrap m'" "global_version m' = global_version m + 1" "no_wrap m"
  shows "x < global_version m \<Longrightarrow> x < global_version m'" "global_version m < global_version m'"
    "unat (global_version m) < 2 ^ 32"
proof -
  have "unat (global_version m + 1) = unat (global_version m) + 1"
    using assms(3) by (simp add: no_wrap_nat unat_plus_if_size word_size)
  then show "x < global_version m \<Longrightarrow> x < global_version m'" "global_version m < global_version m'"
    "unat (global_version m) < 2 ^ 32"
    using assms by (auto simp: word_less_nat_alt no_wrap_nat)
qed

lemma versions_inv_fetch:
  assumes inv: "versions_inv cap m ps" and nw: "no_wrap m'"
    and gv: "global_version m' = global_version m + 1" and st: "storage m' = storage m"
    and p': "unwritten p' = None \<or> unwritten p' = Some (global_version m)" "seen_version p' = None"
      "key_claim m' p'"
  shows "versions_inv cap m' (ps(t := p'))"
proof -
  note D = versions_invD [OF inv]
  note up = fresh_version [OF nw gv D(1)]
  let ?qs = "ps(t := p')"
  have unw: "u = t \<and> iv = global_version m \<or> u \<noteq> t \<and> unwritten (ps u) = Some iv"
    if "unwritten (?qs u) = Some iv" for u iv
    using that p'(1) by (auto split: if_splits)
  have seen: "seen_version (ps u) = Some ver" if "seen_version (?qs u) = Some ver" for u ver
    using that p'(2) by (auto split: if_splits)
  have keys: "key_claim m' (?qs u)" for u
    using p'(3) key_claim_mono [OF D(8), of m'] by (simp add: st)
  show ?thesis
    unfolding versions_inv_def st
  proof (intro conjI allI impI)
    show "no_wrap m'" by (rule nw)
  next
    fix u iv assume "unwritten (?qs u) = Some iv"
    then show "iv < global_version m'" using unw [of u iv] up(1,2) D(2) by auto
  next
    fix u v iv assume "unwritten (?qs u) = Some iv" "unwritten (?qs v) = Some iv"
    then show "u = v" using unw [of u iv] unw [of v iv] D(2,3) by auto
  next
    fix i e assume "i < cap" "storage m ! i = Some e"
    then show "slot_version e < global_version m'" using D(4) up(1) by blast
  next
    fix i e u assume e: "i < cap" "storage m ! i = Some e"
    show "unwritten (?qs u) \<noteq> Some (slot_version e)"
    proof
      assume "unwritten (?qs u) = Some (slot_version e)"
      then show False using unw D(4) [OF e] D(5) [OF e, of u] by (metis less_irrefl)
    qed
  next
    fix u ver assume "seen_version (?qs u) = Some ver"
    then show "ucast ver < global_version m'" using seen D(6) up(1) by blast
  next
    fix u v ver assume "seen_version (?qs u) = Some ver"
    then have s: "seen_version (ps u) = Some ver" by (rule seen)
    show "unwritten (?qs v) \<noteq> Some (ucast ver)"
    proof
      assume "unwritten (?qs v) = Some (ucast ver)"
      then show False using unw D(6) [OF s] D(7) [OF s, of v] by (metis less_irrefl)
    qed
  qed (rule keys)
qed

text \<open>The write of the entry publishes the version.\<close>

lemma ucast_version:
  assumes "unat (iv :: usize) < 2 ^ 32"
  shows "ucast (new_version iv) = iv"
proof -
  have "take_bit 32 iv = iv"
    using assms by (simp add: word_unat_eq_iff unsigned_take_bit_eq take_bit_nat_eq_self)
  moreover have "iv AND 0xFFFFFFFF = take_bit 32 iv" by (simp add: take_bit_eq_mask mask_eq_exp_minus_1)
  ultimately show ?thesis by (simp add: new_version_def unsigned_ucast_eq)
qed

lemma versions_inv_write:
  assumes inv: "versions_inv cap m ps" and gv: "global_version m' = global_version m"
    and st: "storage m' = (storage m)[i := Some e]" and iv: "unwritten (ps t) = Some (slot_version e)"
    and p': "unwritten p' = None" "seen_version p' = None" "\<And>m. key_claim m p'"
  shows "versions_inv cap m' (ps(t := p'))"
proof -
  note D = versions_invD [OF inv]
  let ?qs = "ps(t := p')"
  have new: "storage m ! j = Some x \<or> x = e" if "storage m' ! j = Some x" for j x
    using that unfolding st by (cases "i = j"; cases "i < length (storage m)") (auto simp: not_less list_update_beyond)
  have unw: "u \<noteq> t \<and> unwritten (ps u) = Some v" if "unwritten (?qs u) = Some v" for u v
    using that p'(1) by (auto split: if_splits)
  have seen: "u \<noteq> t \<and> seen_version (ps u) = Some ver" if "seen_version (?qs u) = Some ver" for u ver
    using that p'(2) by (auto split: if_splits)
  have keys: "key_claim m' (?qs u)" for u
  proof (cases "u = t")
    case False
    have "storage m ! j = Some x" if "seen_version (ps u) = Some ver" "storage m' ! j = Some x"
      "slot_version x = ucast ver" for j x ver
      using new [OF that(2)] D(7) [OF that(1), of t] iv that(3) by metis
    then show ?thesis using False key_claim_stable [OF D(8), of u m'] by simp
  qed (simp add: p')
  show ?thesis
    unfolding versions_inv_def gv no_wrap_def
  proof (intro conjI allI impI)
    fix u v iv assume "unwritten (?qs u) = Some iv" "unwritten (?qs v) = Some iv"
    then show "u = v" using unw D(3) by blast
  next
    fix j x u assume x: "j < cap" "storage m' ! j = Some x"
    show "unwritten (?qs u) \<noteq> Some (slot_version x)"
    proof
      assume "unwritten (?qs u) = Some (slot_version x)"
      then have u: "u \<noteq> t" "unwritten (ps u) = Some (slot_version x)" using unw by blast+
      show False
      proof (cases "x = e")
        case True
        then show False using D(3) [OF iv, of u] u by simp
      next
        case False
        then show False using new [OF x(2)] D(5) [OF x(1), of x u] u by blast
      qed
    qed
  next
    fix j x assume "j < cap" "storage m' ! j = Some x"
    then show "slot_version x < global_version m" using new [of j x] D(4) [of j x] D(2) [OF iv] by metis
  next
    fix u v ver assume "seen_version (?qs u) = Some ver"
    then show "unwritten (?qs v) \<noteq> Some (ucast ver)" using seen D(7) unw by blast
  qed (use D(1) [unfolded no_wrap_def] unw D(2) seen D(6) keys in blast)+
qed

lemma pop_again_versions [simp]:
  "unwritten (pop_again n) = None" "seen_version (pop_again n) = None" "key_claim m (pop_again n)"
  by (simp_all add: pop_again_def)

lemma pop_choose_versions [simp]:
  "unwritten (pop_choose n cs) = None" "seen_version (pop_choose n cs) = None" "key_claim m (pop_choose n cs)"
  by (simp_all add: pop_choose_def split: option.splits)

lemma put_data_None: "storage (put_data i None m) ! j = Some x \<Longrightarrow> storage m ! j = Some x"
  by (cases "i = j"; cases "i < length (storage m)") (auto simp: put_data_def not_less list_update_beyond)

lemma versions_step_insert:
  assumes inv: "versions_inv cap m ps" and sl: "slots_inv cap m ps" and p: "bpc_kind (ps t) = 0"
    and nw: "no_wrap (fst (btm_insert_step g m (ps t)))"
  shows "versions_inv cap (fst (btm_insert_step g m (ps t))) (ps(t := snd (btm_insert_step g m (ps t))))"
proof (cases "ps t")
  case (InsFetch k v)
  show ?thesis by (rule versions_inv_fetch [OF inv nw]) (auto simp: InsFetch)
next
  case (InsScan k v iv n i)
  have "entry_of_version ver (storage m ! i)" if "get_version_if_valid (slot_states m ! i) = Some ver" "i < cap" for ver
    using slots_inv_valid [OF sl that(2)] get_version_SomeD [OF that(1)] by simp
  then show ?thesis
    by (intro versions_inv_fewer [OF inv])
      (auto simp: InsScan version_kept_def slots_invD(3) [OF sl] split: option.splits)
next
  case (InsCheck k v iv n i ver)
  show ?thesis
    by (intro versions_inv_fewer [OF inv])
      (auto simp: InsCheck version_kept_def seen_entry_def Let_def split: if_splits)
next
  case (InsWrite k v iv i old)
  have "unat iv < 2 ^ 32"
    using versions_invD(1) [OF inv] versions_invD(2) [OF inv, of t iv] InsWrite by (auto simp: no_wrap_nat word_less_nat_alt)
  then have "slot_version (written_entry k v iv) = iv"
    using ucast_version by (simp add: written_entry_def)
  then show ?thesis
    by (intro versions_inv_write [OF inv, where e = "written_entry k v iv" and i = i])
      (auto simp: InsWrite put_data_def)
next
  case (InsLock k v iv n i ver)
  show ?thesis using versions_invD(8) [OF inv, of t]
    by (intro versions_inv_fewer [OF inv]) (auto simp: InsLock version_kept_def Let_def split: if_splits)
qed (use p in \<open>auto simp: version_kept_def Let_def split: option.splits if_splits
    intro!: versions_inv_fewer [OF inv]\<close>)

lemma versions_step_pop:
  assumes inv: "versions_inv cap m ps" and p: "bpc_kind (ps t) = 1"
  shows "versions_inv cap (fst (btm_pop_step g m (ps t))) (ps(t := snd (btm_pop_step g m (ps t))))"
  by (rule versions_inv_fewer [OF inv]; cases "ps t")
    (use p in \<open>auto simp: version_kept_def Let_def candidates_push_def dest: put_data_None
      split: option.splits if_splits prod.splits\<close>)

lemma versions_step_clear:
  assumes inv: "versions_inv cap m ps" and p: "bpc_kind (ps t) = 2"
  shows "versions_inv cap (fst (btm_clear_step m (ps t))) (ps(t := snd (btm_clear_step m (ps t))))"
  by (rule versions_inv_fewer [OF inv]; cases "ps t")
    (use p in \<open>auto simp: version_kept_def Let_def dest: put_data_None split: option.splits if_splits\<close>)

lemma versions_step:
  assumes "versions_inv cap m ps" "slots_inv cap m ps" "no_wrap (fst (btm_step g m (ps t)))"
  shows "versions_inv cap (fst (btm_step g m (ps t))) (ps(t := snd (btm_step g m (ps t))))"
proof (cases rule: bpc_kinds [of "ps t" g m])
  case 1
  then show ?thesis using versions_step_insert [OF assms(1,2) 1(1), of g] assms(3) by metis
next
  case 2
  then show ?thesis using versions_step_pop [OF assms(1) 2(1), of g] by metis
next
  case 3
  then show ?thesis using versions_step_clear [OF assms(1) 3(1)] by metis
qed

subsection \<open>Every step keeps the balance\<close>

text \<open>Changing one summand.\<close>

lemma sum_fun_upd:
  fixes f :: "'a \<Rightarrow> 'b :: comm_monoid_add"
  assumes "t < (N :: nat)"
  shows "(\<Sum>u<N. f ((g(t := x)) u)) + f (g t) = (\<Sum>u<N. f (g u)) + f x"
proof -
  have "(\<Sum>u \<in> {..<N} - {t}. f ((g(t := x)) u)) = (\<Sum>u \<in> {..<N} - {t}. f (g u))"
    by (rule sum.cong) auto
  then show ?thesis
    using assms sum.remove [of "{..<N}" t "\<lambda>u. f ((g(t := x)) u)"] sum.remove [of "{..<N}" t "\<lambda>u. f (g u)"]
    by (simp add: ac_simps)
qed

lemma sum_list_upd:
  fixes f :: "'a \<Rightarrow> 'b :: comm_monoid_add"
  assumes "i < length xs"
  shows "(\<Sum>j<length xs. f (xs[i := x] ! j)) + f (xs ! i) = (\<Sum>j<length xs. f (xs ! j)) + f x"
proof -
  have "(\<Sum>j<length xs. f (xs[i := x] ! j)) = (\<Sum>j<length xs. f ((((!) xs)(i := x)) j))"
    by (rule sum.cong) (use assms in \<open>auto simp: nth_list_update\<close>)
  then show ?thesis using sum_fun_upd [OF assms, of f "(!) xs" x] by simp
qed

definition returned :: "(('k, 'v) btm_result \<Rightarrow> ('k \<times> 'v) multiset) \<Rightarrow> ('k, 'v) bpc \<Rightarrow> ('k \<times> 'v) multiset" where
  "returned f p = (case p of BFinished r \<Rightarrow> f r | _ \<Rightarrow> {#})"

lemma sum_add_result: "sum_list (map f (add_result p rs)) = returned f p + sum_list (map f rs)"
  by (cases p) (simp_all add: returned_def)

text \<open>What a step of a thread from \<open>p\<close> to \<open>p'\<close> that changes the length from \<open>l\<close> to \<open>l'\<close> and one slot from
  \<open>d\<close> to \<open>d'\<close> has to obey.\<close>

definition fair_step ::
  "('k, 'v) bpc \<Rightarrow> ('k, 'v) bpc \<Rightarrow> usize \<Rightarrow> usize \<Rightarrow> ('k, 'v) entry option \<Rightarrow> ('k, 'v) entry option \<Rightarrow> bool"
where
  "fair_step p p' l l' d d' \<longleftrightarrow>
     returned pairs_in p' + credit p' + debit p + entry_pair d =
       credit p + returned pairs_out p' + debit p' + entry_pair d' \<and>
     l' + uncounted p' + overcounted p + occupied d = l + uncounted p + overcounted p' + occupied d'"

lemma balance_msets:
  fixes a :: "'a multiset"
  assumes "a + cr = b + db + c" "a' = gi + a" "b' = go + b" "cr' + kr = cr + kr'" "db' + kd = db + kd'"
    "c' + x = c + y" "gi + kr' + kd + x = kr + go + kd' + y"
  shows "a' + cr' = b' + db' + c'"
proof -
  have "(a' + cr') + (kr + kd + x) = (a + cr) + (gi + kr' + kd + x)"
    using assms(2,4) by (simp add: ac_simps)
  also have "\<dots> = (b + db + c) + (kr + go + kd' + y)" using assms(1,7) by simp
  also have "\<dots> = (go + b) + (db + kd') + (c + y) + kr" by (simp add: ac_simps)
  also have "\<dots> = (go + b) + (db' + kd) + (c' + x) + kr" using assms(5,6) by simp
  also have "\<dots> = (b' + db' + c') + (kr + kd + x)" using assms(3) by (simp add: ac_simps)
  finally show ?thesis by simp
qed

lemma balance_words:
  fixes l :: "'a :: comm_ring_1"
  assumes "l + u = v + q" "u' + ku = u + ku'" "v' + kv = v + kv'" "q' + x = q + y"
    "l' + ku' + kv + x = l + ku + kv' + y"
  shows "l' + u' = v' + q'"
proof -
  have "(l' + u') + (ku + kv + x) = (l' + kv + x) + (u' + ku)" by (simp add: ac_simps)
  also have "\<dots> = (l' + ku' + kv + x) + u" unfolding assms(2) by (simp add: ac_simps)
  also have "\<dots> = (l + u) + (ku + kv' + y)" unfolding assms(5) by (simp add: ac_simps)
  also have "\<dots> = (v + kv') + (q + y) + ku" unfolding assms(1) by (simp add: ac_simps)
  also have "\<dots> = (v' + q') + (ku + kv + x)"
    unfolding assms(3) [symmetric] assms(4) [symmetric] by (simp add: ac_simps)
  finally show ?thesis by simp
qed

lemma balanced_move:
  assumes bal: "balanced N cap s" and t: "t < N"
    and c: "(\<Sum>i<cap. entry_pair (storage m' ! i)) + entry_pair d =
      (\<Sum>i<cap. entry_pair (storage (bmap s) ! i)) + entry_pair d'"
    and occ: "(\<Sum>i<cap. occupied (storage m' ! i)) + occupied d =
      (\<Sum>i<cap. occupied (storage (bmap s) ! i)) + occupied d'"
    and fair: "fair_step (bpcs s t) p' (btm_len (bmap s)) (btm_len m') d d'"
  shows "balanced N cap \<lparr>bmap = m', bpcs = (bpcs s)(t := p'), results = add_result p' (results s)\<rparr>"
proof -
  let ?p = "bpcs s t"
  let ?cr = "\<lambda>ps. \<Sum>u<N. credit (ps u)" and ?db = "\<lambda>ps. \<Sum>u<N. debit (ps u)"
  let ?un = "\<lambda>ps. \<Sum>u<N. uncounted (ps u)" and ?ov = "\<lambda>ps. \<Sum>u<N. overcounted (ps u)"
  let ?qs = "(bpcs s)(t := p')"
  have cr: "?cr ?qs + credit ?p = ?cr (bpcs s) + credit p'" by (rule sum_fun_upd [OF t])
  have db: "?db ?qs + debit ?p = ?db (bpcs s) + debit p'" by (rule sum_fun_upd [OF t])
  have un: "?un ?qs + uncounted ?p = ?un (bpcs s) + uncounted p'" by (rule sum_fun_upd [OF t])
  have ov: "?ov ?qs + overcounted ?p = ?ov (bpcs s) + overcounted p'" by (rule sum_fun_upd [OF t])
  show ?thesis
    unfolding balanced_def all_in_def all_out_def bsys.simps sum_add_result
  proof
    show "returned pairs_in p' + sum_list (map pairs_in (results s)) + ?cr ?qs =
        returned pairs_out p' + sum_list (map pairs_out (results s)) + ?db ?qs +
        (\<Sum>i<cap. entry_pair (storage m' ! i))"
      by (rule balance_msets [OF _ refl refl cr db c])
        (use bal fair in \<open>simp_all add: balanced_def all_in_def all_out_def fair_step_def\<close>)
    show "btm_len m' + ?un ?qs = ?ov ?qs + (\<Sum>i<cap. occupied (storage m' ! i))"
      by (rule balance_words [OF _ un ov occ]) (use bal fair in \<open>simp_all add: balanced_def fair_step_def\<close>)
  qed
qed

definition after_step :: "('k, 'v) bsys \<Rightarrow> nat \<Rightarrow> ('k, 'v) btm \<times> ('k, 'v) bpc \<Rightarrow> ('k, 'v) bsys" where
  "after_step s t r =
     \<lparr>bmap = fst r, bpcs = (bpcs s)(t := snd r), results = add_result (snd r) (results s)\<rparr>"

lemma balanced_quiet:
  assumes "balanced N cap s" "t < N" "storage (fst r) = storage (bmap s)"
    and "fair_step (bpcs s t) (snd r) (btm_len (bmap s)) (btm_len (fst r)) None None"
  shows "balanced N cap (after_step s t r)"
  unfolding after_step_def using assms by (intro balanced_move [where d = None and d' = None]) simp_all

lemma balanced_put:
  assumes "balanced N cap s" "t < N" "length (storage (bmap s)) = cap" "i < cap"
    and "storage (fst r) = (storage (bmap s))[i := d']"
    and "fair_step (bpcs s t) (snd r) (btm_len (bmap s)) (btm_len (fst r)) (storage (bmap s) ! i) d'"
  shows "balanced N cap (after_step s t r)"
  unfolding after_step_def
  using assms sum_list_upd [of i "storage (bmap s)" entry_pair d'] sum_list_upd [of i "storage (bmap s)" occupied d']
  by (intro balanced_move [where d = "storage (bmap s) ! i" and d' = d']) simp_all

lemma returned_simps [simp]: "returned f (BFinished r) = f r" "\<not> is_done p \<Longrightarrow> returned f p = {#}"
  by (simp add: returned_def) (cases p; simp add: returned_def)

lemmas fair_defs = fair_step_def entry_pair_def occupied_def

lemma pop_again_fair [simp]:
  "credit (pop_again n) = {#}" "debit (pop_again n) = {#}" "uncounted (pop_again n) = 0"
  "overcounted (pop_again n) = 0" "returned pairs_in (pop_again n) = {#}" "returned pairs_out (pop_again n) = {#}"
  by (simp_all add: pop_again_def returned_def)

lemma pop_choose_fair [simp]:
  "credit (pop_choose n cs) = {#}" "debit (pop_choose n cs) = {#}" "uncounted (pop_choose n cs) = 0"
  "overcounted (pop_choose n cs) = 0" "returned pairs_in (pop_choose n cs) = {#}"
  "returned pairs_out (pop_choose n cs) = {#}"
  by (simp_all add: pop_choose_def returned_def split: option.splits)

lemma put_storage: "storage (put_data i d m) = (storage m)[i := d]" "btm_len (put_data i d m) = btm_len m"
  by (simp_all add: put_data_def)

lemma balanced_step_insert:
  assumes bal: "balanced N cap s" and sl: "slots_inv cap (bmap s) (bpcs s)" and t: "t < N"
    and p: "bpc_kind (bpcs s t) = 0" and nd: "\<not> is_done (bpcs s t)"
  shows "balanced N cap (after_step s t (btm_insert_step g (bmap s) (bpcs s t)))"
proof (cases "bpcs s t")
  case (InsOld k v iv i)
  show ?thesis using slots_inv_ownsD(3) [OF sl, of t i] InsOld 
    by (intro balanced_quiet [OF bal t]) (auto simp: fair_step_def)
next
  case (InsWrite k v iv i old)
  have own: "i < cap" "storage (bmap s) ! i = old" "\<And>e. old = Some e \<Longrightarrow> entry_key e = k"
    using slots_inv_ownsD(1,3) [OF sl, of t i] InsWrite by auto
  show ?thesis 
    by (intro balanced_put [OF bal t slots_invD(2) [OF sl] own(1)])
      (use own in \<open>auto simp: InsWrite put_storage fair_defs written_entry_def split: option.splits\<close>)
qed (use p nd in \<open>auto simp: fair_step_def Let_def split: if_splits option.splits
    intro!: balanced_quiet [OF bal t]\<close>)

lemma balanced_step_pop:
  assumes bal: "balanced N cap s" and sl: "slots_inv cap (bmap s) (bpcs s)" and t: "t < N"
    and p: "bpc_kind (bpcs s t) = 1"
  shows "balanced N cap (after_step s t (btm_pop_step g (bmap s) (bpcs s t)))"
proof (cases "bpcs s t")
  case (PopVerify n c lv)
  show ?thesis using slots_inv_ownsD(3) [OF sl, of t "cand_index c"] PopVerify 
    by (intro balanced_quiet [OF bal t])
      (auto simp: fair_step_def entry_of_version_def)
next
  case (PopDrop i e)
  have own: "i < cap" "storage (bmap s) ! i = Some e"
    using slots_inv_ownsD(1,3) [OF sl, of t i] PopDrop by auto
  show ?thesis 
    by (intro balanced_put [OF bal t slots_invD(2) [OF sl] own(1)])
      (use own in \<open>auto simp: PopDrop put_storage fair_defs\<close>)
qed (use p in \<open>auto simp: fair_step_def Let_def candidates_push_def
    split: if_splits option.splits intro!: balanced_quiet [OF bal t]\<close>)

lemma balanced_step_clear:
  assumes bal: "balanced N cap s" and sl: "slots_inv cap (bmap s) (bpcs s)" and t: "t < N"
    and p: "bpc_kind (bpcs s t) = 2"
  shows "balanced N cap (after_step s t (btm_clear_step (bmap s) (bpcs s t)))"
proof (cases "bpcs s t")
  case (ClrDrop i xs)
  then obtain e where own: "i < cap" "storage (bmap s) ! i = Some e"
    using slots_inv_ownsD(1,3) [OF sl, of t i] by auto
  show ?thesis 
    by (intro balanced_put [OF bal t slots_invD(2) [OF sl] own(1)])
      (use own in \<open>auto simp: ClrDrop put_storage fair_defs\<close>)
qed (use p in \<open>auto simp: fair_step_def Let_def
    split: if_splits option.splits intro!: balanced_quiet [OF bal t]\<close>)

lemma balanced_step:
  assumes "balanced N cap s" "slots_inv cap (bmap s) (bpcs s)" "t < N" "\<not> is_done (bpcs s t)"
  shows "balanced N cap (after_step s t (btm_step g (bmap s) (bpcs s t)))"
proof (cases rule: bpc_kinds [of "bpcs s t" g "bmap s"])
  case 1
  then show ?thesis using balanced_step_insert [OF assms(1-3) 1(1) assms(4), of g] by metis
next
  case 2
  then show ?thesis using balanced_step_pop [OF assms(1-3) 2(1), of g] by metis
next
  case 3
  then show ?thesis using balanced_step_clear [OF assms(1-3) 3(1)] by metis
qed

subsection \<open>Every reachable state\<close>

definition bsys_inv :: "nat \<Rightarrow> nat \<Rightarrow> ('k, 'v) bsys \<Rightarrow> bool" where
  "bsys_inv N cap s \<longleftrightarrow>
     slots_inv cap (bmap s) (bpcs s) \<and> versions_inv cap (bmap s) (bpcs s) \<and> balanced N cap s"

lemma bsys_inv_new: "bsys_inv N cap (bsys_new cap)"
  by (auto simp: bsys_inv_def bsys_new_def slots_inv_def versions_inv_def balanced_def btm_new_def bpc_ok_def
      no_wrap_def idle_slot_def all_in_def all_out_def entry_pair_def occupied_def)

text \<open>A call that begins holds no slot, no version and no pair.\<close>

lemma is_call_neutral:
  assumes "is_call p"
  shows "owns p = None" "local_ok cap p" "unwritten p = None" "seen_version p = None" "key_claim m p"
    "credit p = {#}" "debit p = {#}" "uncounted p = 0" "overcounted p = 0"
  using assms by (cases p; simp)+

lemma is_done_neutral:
  assumes "is_done p"
  shows "owns p = None" "credit p = {#}" "debit p = {#}" "uncounted p = 0" "overcounted p = 0"
  using assms by (cases p; simp)+

lemma bsys_next_inv:
  assumes inv: "bsys_inv N cap s" and nx: "bsys_next N s e = Some s'" and nw: "no_wrap (bmap s')"
  shows "bsys_inv N cap s'"
proof (cases e)
  case (BInvoke t p)
  then have c: "t < N" "is_done (bpcs s t)" "is_call p" and s': "s' = s\<lparr>bpcs := (bpcs s)(t := p)\<rparr>"
    using nx by (auto split: if_splits)
  note call = is_call_neutral [OF c(3)] and idle = is_done_neutral [OF c(2)]
  have p: "\<not> is_done p" "add_result p (results s) = results s" using c(3) by (cases p; auto)+
  then have "s' = after_step s t (bmap s, p)" by (simp add: s' after_step_def)
  then have "balanced N cap s'"
    using balanced_quiet [of N cap s t "(bmap s, p)"] inv c(1) call idle p(1)
    by (simp add: bsys_inv_def fair_step_def)
  moreover have "slots_inv cap (bmap s') (bpcs s')"
    using slots_inv_quiet [of cap "bmap s" "bpcs s" "bmap s" t p] inv call idle
    by (simp add: s' bsys_inv_def)
  moreover have "versions_inv cap (bmap s') (bpcs s')"
    using versions_inv_fewer [of cap "bmap s" "bpcs s" "bmap s" t p] inv call
    by (simp add: s' bsys_inv_def version_kept_def)
  ultimately show ?thesis by (simp add: bsys_inv_def)
next
  case (BRun t g)
  then have t: "t < N" "\<not> is_done (bpcs s t)" and s': "s' = after_step s t (btm_step g (bmap s) (bpcs s t))"
    using nx by (auto simp: after_step_def split: if_splits prod.splits)
  show ?thesis
    using inv nw slots_step [of cap "bmap s" "bpcs s" g t] versions_step [of cap "bmap s" "bpcs s" g t]
      balanced_step [of N cap s t g] t
    unfolding s' by (simp add: bsys_inv_def after_step_def)
qed

lemma bsys_reach_inv: "bsys_reach N cap s \<Longrightarrow> bsys_inv N cap s"
  by (induction rule: bsys_reach.induct) (auto simp: bsys_inv_new intro: bsys_next_inv)

end
