(* ===== verification/BTreeMap_Conc_Props.thy ===== *)
theory BTreeMap_Conc_Props
  imports BTreeMap_Conc_Inv
begin

text \<open>
  What concurrent callers of the ordered map can rely on: no pair is lost or duplicated and no
  uninitialised entry is used; and what they cannot: keys are unique only as long as no two threads
  insert the same one.
\<close>

subsection \<open>When every call has returned\<close>

lemma bsys_reach_rest: "bsys_reach N cap s \<Longrightarrow> N \<le> t \<Longrightarrow> is_done (bpcs s t)"
proof (induction rule: bsys_reach.induct)
  case (step s e s')
  then show ?case by (cases e) (auto split: if_splits prod.splits)
qed (simp add: bsys_new_def)

lemma bsys_reach_defined: "bsys_reach N cap s \<Longrightarrow> BtmUndefined \<notin> set (results s)"
proof (induction rule: bsys_reach.induct)
  case (step s e s')
  then have ok: "local_ok cap (bpcs s' t)" for t
    using bsys_reach_inv [of N cap s] bsys_next_inv slots_inv_localD unfolding bsys_inv_def by blast
  show ?case
  proof (cases e)
    case (BRun t g)
    obtain m' p' where st: "btm_step g (bmap s) (bpcs s t) = (m', p')" by fastforce
    then have "bpcs s' t = p'" "results s' = add_result p' (results s)"
      using step(2) BRun by (auto split: if_splits)
    then show ?thesis using step.IH ok [of t] by (cases p') auto
  qed (use step in \<open>auto split: if_splits\<close>)
qed (simp add: bsys_new_def)

lemma mset_filter_sum: "mset (List.map_filter f [0..<n]) = (\<Sum>i<n. mset_option (f i))"
  by (induction n) (auto simp: List.map_filter_def split: option.splits)

lemma pairs_sum:
  "mset (btm_pairs m) = (\<Sum>i<btm_capacity m. entry_pair (live m i))"
proof -
  have "image_mset f (\<Sum>i<n. mset_option (g i)) = (\<Sum>i<n. image_mset f (mset_option (g i)))"
    for f :: "('a, 'b) entry \<Rightarrow> 'a \<times> 'b" and g and n :: nat
    by (induction n) auto
  moreover have "image_mset (\<lambda>e. (entry_key e, entry_value e)) (mset_option d) = entry_pair d"
    for d :: "('a, 'b) entry option"
    by (cases d) (simp_all add: entry_pair_def)
  ultimately show ?thesis by (simp add: btm_pairs_def live_entries_def mset_filter_sum)
qed

lemma size_pairs_sum:
  "(of_nat (length (btm_pairs m)) :: usize) = (\<Sum>i<btm_capacity m. occupied (live m i))"
proof -
  have "(of_nat (size (\<Sum>i<n. entry_pair (g i))) :: usize) = (\<Sum>i<n. occupied (g i))"
    for g :: "nat \<Rightarrow> ('a, 'b) entry option" and n :: nat
    by (induction n) (auto simp: entry_pair_def occupied_def split: option.splits)
  then show ?thesis unfolding size_mset [symmetric] pairs_sum .
qed

lemma idle_slot_live: "idle_slot (slot_states m ! i) (storage m ! i) \<Longrightarrow> live m i = storage m ! i \<and> slot_wf m i"
  by (auto simp: idle_slot_def live_def slot_wf_def entry_of_version_def mark_valid_nz)

lemma bsys_idle:
  assumes r: "bsys_reach N cap s" and q: "\<forall>t < N. is_done (bpcs s t)" and i: "i < cap"
  shows "idle_slot (slot_states (bmap s) ! i) (storage (bmap s) ! i)"
proof -
  have "owns (bpcs s t) = None" for t
    using q bsys_reach_rest [OF r, of t] is_done_neutral(1) by (cases "t < N") auto
  then show ?thesis using bsys_reach_inv [OF r] slots_invD(6) i unfolding bsys_inv_def by fastforce
qed

subsection \<open>Properties\<close>

text \<open>C16: Any number of threads insert into, pop from and clear one map, in any interleaving, fewer than
  \<open>2 ^ 32\<close> inserts being begun. When all calls have returned, the pairs put in are exactly the pairs
  given out (popped, cleared, or returned as the old value of the key inserted) and those in the map,
  with multiplicities; the stored length is their number; every slot is well-formed.\<close>

theorem btm_conc_conserves:
  assumes "bsys_reach N cap s" and "\<forall>t < N. is_done (bpcs s t)"
  shows "all_in s = all_out s + mset (btm_pairs (bmap s)) \<and>
    btm_len (bmap s) = of_nat (length (btm_pairs (bmap s))) \<and> (\<forall>i < cap. slot_wf (bmap s) i)"
proof -
  have inv: "slots_inv cap (bmap s) (bpcs s)" "balanced N cap s"
    using bsys_reach_inv [OF assms(1)] by (simp_all add: bsys_inv_def)
  have cap: "btm_capacity (bmap s) = cap" by (rule slots_invD(3) [OF inv(1)])
  have slot: "live (bmap s) i = storage (bmap s) ! i \<and> slot_wf (bmap s) i" if "i < cap" for i
    using idle_slot_live bsys_idle [OF assms that] .
  have zero: "(\<Sum>t<N. credit (bpcs s t)) = {#}" "(\<Sum>t<N. debit (bpcs s t)) = {#}"
      "(\<Sum>t<N. uncounted (bpcs s t)) = 0" "(\<Sum>t<N. overcounted (bpcs s t)) = 0"
    by (rule sum.neutral; use assms(2) in \<open>simp add: is_done_neutral\<close>)+
  have "mset (btm_pairs (bmap s)) = (\<Sum>i<cap. entry_pair (storage (bmap s) ! i))"
    "(of_nat (length (btm_pairs (bmap s))) :: usize) = (\<Sum>i<cap. occupied (storage (bmap s) ! i))"
    unfolding pairs_sum size_pairs_sum cap by (rule sum.cong; use slot in simp)+
  then show ?thesis using inv(2) slot by (simp add: balanced_def zero)
qed

text \<open>C20: In every state such threads reach, no call has used an entry that is not initialised, no two
  threads hold the same slot, and a slot whose word says that it is valid holds an initialised entry
  that carries the version of the word.\<close>

theorem btm_conc_memory_safe:
  assumes "bsys_reach N cap s"
  shows "BtmUndefined \<notin> set (results s) \<and>
    (\<forall>t u i. t \<noteq> u \<longrightarrow> owns (bpcs s t) = Some i \<longrightarrow> owns (bpcs s u) \<noteq> Some i) \<and>
    (\<forall>i < cap. slot_is_valid (slot_states (bmap s) ! i) \<longrightarrow>
      (\<exists>e. storage (bmap s) ! i = Some e \<and>
        slot_version e = ucast (snd (load_state_version (slot_states (bmap s) ! i)))))"
proof -
  have inv: "slots_inv cap (bmap s) (bpcs s)" using bsys_reach_inv [OF assms] by (simp add: bsys_inv_def)
  show ?thesis
    using bsys_reach_defined [OF assms] slots_invD(5) [OF inv]
      slots_inv_valid [OF inv, unfolded entry_of_version_def] by blast
qed

text \<open>A run of one thread: an insert and a pop.\<close>

definition some_entry :: "(nat, nat) entry" where
  "some_entry = \<lparr>entry_key = 0, entry_value = 0, insert_version = 0, slot_version = 0\<rparr>"

definition insert_events :: "(nat, nat) bsys_event list" where
  "insert_events = BInvoke 0 (InsFetch 5 7) # replicate 7 (BRun 0 some_entry)"

definition bsys_check :: "nat \<Rightarrow> nat \<Rightarrow> (nat, nat) bsys_event list \<Rightarrow> ((nat, nat) bsys \<Rightarrow> bool) \<Rightarrow> bool" where
  "bsys_check N cap es P \<longleftrightarrow> (case bsys_run N es (bsys_new cap) of None \<Rightarrow> False | Some s \<Rightarrow> P s)"

lemma bsys_checkE:
  assumes "bsys_check N cap es P"
  obtains s where "bsys_reach N cap s" "P s"
proof -
  obtain s where s: "bsys_run N es (bsys_new cap) = Some s" "P s"
    using assms by (auto simp: bsys_check_def split: option.splits)
  show thesis by (rule that [OF bsys_run_reach [OF bsys_reach.start s(1)] s(2)])
qed

lemma insert_run:
  "bsys_check 1 1 insert_events (\<lambda>s. is_done (bpcs s 0) \<and> results s = [InsertedNew 5 7])"
  by code_simp

theorem btm_conc_conserves_witness:
  "\<exists>s :: (nat, nat) bsys. bsys_reach 1 1 s \<and> results s = [InsertedNew 5 7] \<and>
    mset (btm_pairs (bmap s)) = {#(5, 7)#}"
proof -
  obtain s :: "(nat, nat) bsys" where s: "bsys_reach 1 1 s" "is_done (bpcs s 0)" "results s = [InsertedNew 5 7]"
    using insert_run by (rule bsys_checkE) auto
  then have "all_in s = all_out s + mset (btm_pairs (bmap s))" using btm_conc_conserves [OF s(1)] by simp
  with s show ?thesis by (auto simp: all_in_def all_out_def)
qed

theorem btm_conc_memory_safe_witness:
  "\<exists>s :: (nat, nat) bsys. bsys_reach 1 1 s \<and> results s = [InsertedNew 5 7] \<and> BtmUndefined \<notin> set (results s)"
proof -
  obtain s :: "(nat, nat) bsys" where s: "bsys_reach 1 1 s" "results s = [InsertedNew 5 7]"
    using insert_run by (rule bsys_checkE) auto
  then show ?thesis using btm_conc_memory_safe [OF s(1)] by blast
qed

subsection \<open>What is not promised\<close>

text \<open>Both threads have searched for the key before either has written.\<close>

definition duplicate_events :: "(nat, nat) bsys_event list" where
  "duplicate_events =
     BInvoke 0 (InsFetch 5 7) # BInvoke 1 (InsFetch 5 8) #
     replicate 4 (BRun 0 some_entry) @ replicate 4 (BRun 1 some_entry) @
     replicate 4 (BRun 0 some_entry) @ replicate 5 (BRun 1 some_entry)"

lemma duplicate_run:
  "bsys_check 2 2 duplicate_events (\<lambda>s. is_done (bpcs s 0) \<and> is_done (bpcs s 1) \<and>
     results s = [InsertedNew 5 8, InsertedNew 5 7] \<and> btm_pairs (bmap s) = [(5, 7), (5, 8)])"
  by code_simp

text \<open>C33: Two concurrent inserts of the same key can both report that the key was new, and the map then
  holds it twice: the search for the key and the claim of a slot are not one step.\<close>

theorem btm_conc_duplicate_key:
  "\<exists>s :: (nat, nat) bsys. bsys_reach 2 2 s \<and> is_done (bpcs s 0) \<and> is_done (bpcs s 1) \<and>
    results s = [InsertedNew 5 8, InsertedNew 5 7] \<and> btm_pairs (bmap s) = [(5, 7), (5, 8)]"
  using duplicate_run by (rule bsys_checkE) blast

end
