(* ===== verification/Scripts.thy ===== *)
theory Scripts
  imports Deque_Seq BTreeMap_Spec
begin

text \<open>
  Programs of one thread that use the deque (\<^verbatim>\<open>utils/src/deque.rs\<close>) or the map (\<^verbatim>\<open>utils/src/btreemap.rs\<close>)
  of \<^verbatim>\<open>utils\<close>, as lists of calls: they get the answers that a plain list, or a sorted list of pairs, would
  give. The sequential unit tests of the two files are such programs.
\<close>

subsection \<open>Calls to the deque\<close>

datatype 'a dq_method = PushAt side 'a | PopAt side | IsEmpty | Len

datatype 'a dq_answer = Result "'a dq_result" | Flag bool | Count nat

fun dq_call :: "'a dq_method \<Rightarrow> 'a deque \<Rightarrow> ('a deque \<times> 'a dq_answer) option" where
  "dq_call (PushAt sd x) q = map_option (\<lambda>(q', r). (q', Result r)) (dq_add sd q x)"
| "dq_call (PopAt sd) q = map_option (\<lambda>(q', r). (q', Result r)) (dq_take sd q)"
| "dq_call IsEmpty q = map_option (\<lambda>b. (q, Flag b)) (dq_is_empty q)"
| "dq_call Len q = map_option (\<lambda>n. (q, Count n)) (dq_len q)"

fun list_end :: "side \<Rightarrow> 'a list \<Rightarrow> 'a list \<times> 'a dq_result" where
  "list_end sd [] = ([], PopNone)"
| "list_end Front (x # xs) = (xs, PopSome x)"
| "list_end Back (x # xs) = (butlast (x # xs), PopSome (last (x # xs)))"

fun list_call :: "nat \<Rightarrow> 'a dq_method \<Rightarrow> 'a list \<Rightarrow> 'a list \<times> 'a dq_answer" where
  "list_call cap (PushAt sd x) l =
     (if length l < cap - 1 then (add_at sd x l, Result PushOk) else (l, Result (PushErr x)))"
| "list_call cap (PopAt sd) l = (case list_end sd l of (l', r) \<Rightarrow> (l', Result r))"
| "list_call cap IsEmpty l = (l, Flag (l = []))"
| "list_call cap Len l = (l, Count (length l))"

fun dq_script :: "'a dq_method list \<Rightarrow> 'a deque \<Rightarrow> ('a deque \<times> 'a dq_answer list) option" where
  "dq_script [] q = Some (q, [])"
| "dq_script (c # cs) q = Option.bind (dq_call c q) (\<lambda>(q', a).
     map_option (\<lambda>(q'', as). (q'', a # as)) (dq_script cs q'))"

fun list_script :: "nat \<Rightarrow> 'a dq_method list \<Rightarrow> 'a list \<Rightarrow> 'a list \<times> 'a dq_answer list" where
  "list_script cap [] l = (l, [])"
| "list_script cap (c # cs) l = (let (l', a) = list_call cap c l; (l'', as) = list_script cap cs l' in (l'', a # as))"

lemma list_end_add: "list_end sd (add_at sd x l) = (l, PopSome x)"
  by (cases sd; cases l) (simp_all add: butlast_append)

lemma dq_call_list:
  assumes "wf_deque q"
  shows "\<exists>q'. dq_call c q = Some (q', snd (list_call (dq_capacity q) c (dq_list q))) \<and> wf_deque q' \<and>
    dq_capacity q' = dq_capacity q \<and> dq_list q' = fst (list_call (dq_capacity q) c (dq_list q))"
proof (cases c)
  case (PushAt sd x)
  show ?thesis
  proof (cases "length (dq_list q) < dq_capacity q - 1")
    case True
    then show ?thesis using PushAt dq_add_room [OF assms True, of sd x] push_commit_wf [OF assms True] by auto
  next
    case False
    then have full: "length (dq_list q) = dq_capacity q - 1" using dq.list_bound [OF assms] by simp
    then show ?thesis using PushAt dq_add_full [OF assms full, of sd x] assms by auto
  qed
next
  case (PopAt sd)
  show ?thesis
  proof (cases "dq_list q = []")
    case True
    then show ?thesis using PopAt dq_take_empty [OF assms True, of sd] assms by auto
  next
    case False
    show ?thesis
      by (rule dq_take_some [OF assms False, of sd]) (use PopAt in \<open>auto simp: list_end_add\<close>)
  qed
qed (use assms dq_is_empty_wf [OF assms] dq_len_wf [OF assms] in auto)

lemma dq_script_list:
  assumes "wf_deque q"
  shows "\<exists>q'. dq_script cs q = Some (q', snd (list_script (dq_capacity q) cs (dq_list q))) \<and> wf_deque q' \<and>
    dq_list q' = fst (list_script (dq_capacity q) cs (dq_list q))"
  using assms
proof (induction cs arbitrary: q)
  case (Cons c cs)
  obtain q1 where q1: "dq_call c q = Some (q1, snd (list_call (dq_capacity q) c (dq_list q)))" "wf_deque q1"
    "dq_capacity q1 = dq_capacity q" "dq_list q1 = fst (list_call (dq_capacity q) c (dq_list q))"
    using dq_call_list [OF Cons.prems] by blast
  from Cons.IH [OF q1(2)] obtain q2 where
    "dq_script cs q1 = Some (q2, snd (list_script (dq_capacity q) cs (dq_list q1)))" "wf_deque q2"
    "dq_list q2 = fst (list_script (dq_capacity q) cs (dq_list q1))" using q1(3) by auto
  then show ?case using q1(1,4) by (simp add: case_prod_unfold Let_def)
qed auto

subsection \<open>Calls to the map\<close>

datatype ('k, 'v) btm_method = Insert 'k 'v | PopFirst | FirstKeyValue | ExactLen | MapIsEmpty | Clear | ForEach

datatype ('k, 'v) btm_answer =
  Inserted "'v option option" | Entry "('k \<times> 'v) option" | MapCount usize | MapFlag bool | Cleared
| Visited "('k \<times> 'v) multiset"

fun btm_call :: "('k::linorder, 'v) btm_method \<Rightarrow> ('k, 'v) btm \<Rightarrow> (('k, 'v) btm \<times> ('k, 'v) btm_answer) outcome" where
  "btm_call (Insert k v) m = bind_outcome (btm_insert k v m) (\<lambda>(m', r). Inr (m', Inserted r))"
| "btm_call PopFirst m = bind_outcome (pop_first m) (\<lambda>(m', r). Inr (m', Entry r))"
| "btm_call FirstKeyValue m = bind_outcome (first_key_value m) (\<lambda>r. Inr (m, Entry r))"
| "btm_call ExactLen m = Inr (m, MapCount (exact_len m))"
| "btm_call MapIsEmpty m = Inr (m, MapFlag (btm_is_empty m))"
| "btm_call Clear m = Inr (btm_clear m, Cleared)"
| "btm_call ForEach m = bind_outcome (btm_for_each m) (\<lambda>ps. Inr (m, Visited (mset ps)))"

text \<open>The reference: a list of pairs, sorted by key.\<close>

definition put_pair :: "'k::linorder \<Rightarrow> 'v \<Rightarrow> ('k \<times> 'v) list \<Rightarrow> ('k \<times> 'v) list" where
  "put_pair k v ps = takeWhile (\<lambda>p. fst p < k) ps @ (k, v) # dropWhile (\<lambda>p. fst p \<le> k) ps"

fun pairs_call :: "nat \<Rightarrow> ('k::linorder, 'v) btm_method \<Rightarrow> ('k \<times> 'v) list \<Rightarrow> ('k \<times> 'v) list \<times> ('k, 'v) btm_answer" where
  "pairs_call cap (Insert k v) ps =
     (case map_of ps k of
        Some old \<Rightarrow> (put_pair k v ps, Inserted (Some (Some old)))
      | None \<Rightarrow> if length ps < cap then (put_pair k v ps, Inserted (Some None)) else (ps, Inserted None))"
| "pairs_call cap PopFirst ps = (case ps of [] \<Rightarrow> ([], Entry None) | p # ps' \<Rightarrow> (ps', Entry (Some p)))"
| "pairs_call cap FirstKeyValue ps = (ps, Entry (case ps of [] \<Rightarrow> None | p # ps' \<Rightarrow> Some p))"
| "pairs_call cap ExactLen ps = (ps, MapCount (of_nat (length ps)))"
| "pairs_call cap MapIsEmpty ps = (ps, MapFlag (ps = []))"
| "pairs_call cap Clear ps = ([], Cleared)"
| "pairs_call cap ForEach ps = (ps, Visited (mset ps))"

fun btm_script :: "('k::linorder, 'v) btm_method list \<Rightarrow> ('k, 'v) btm \<Rightarrow>
    (('k, 'v) btm \<times> ('k, 'v) btm_answer list) outcome" where
  "btm_script [] m = Inr (m, [])"
| "btm_script (c # cs) m = bind_outcome (btm_call c m) (\<lambda>(m', a).
     bind_outcome (btm_script cs m') (\<lambda>(m'', as). Inr (m'', a # as)))"

fun pairs_script :: "nat \<Rightarrow> ('k::linorder, 'v) btm_method list \<Rightarrow> ('k \<times> 'v) list \<Rightarrow>
    ('k \<times> 'v) list \<times> ('k, 'v) btm_answer list" where
  "pairs_script cap [] ps = (ps, [])"
| "pairs_script cap (c # cs) ps =
     (let (ps', a) = pairs_call cap c ps; (ps'', as) = pairs_script cap cs ps' in (ps'', a # as))"

text \<open>\<open>m\<close> represents the sorted list \<open>ps\<close>.\<close>

definition represents :: "('k::linorder, 'v) btm \<Rightarrow> ('k \<times> 'v) list \<Rightarrow> bool" where
  "represents m ps \<longleftrightarrow> wf_btm m \<and> sorted_wrt (<) (map fst ps) \<and> btm_map m = map_of ps"

lemma sorted_put_pair:
  assumes "sorted_wrt (<) (map fst ps)"
  shows "sorted_wrt (<) (map fst (put_pair k v ps))" "map_of (put_pair k v ps) = (map_of ps)(k \<mapsto> v)"
proof -
  have "sorted_wrt (<) (map fst (put_pair k v ps)) \<and> map_of (put_pair k v ps) = (map_of ps)(k \<mapsto> v)"
    using assms
  proof (induction ps)
    case (Cons p ps)
    have tail: "map_of ps k = None" if "k \<le> fst p"
      using Cons.prems that by (auto simp: map_of_eq_None_iff)
    consider "fst p < k" | "fst p = k" | "k < fst p" by fastforce
    then show ?case
    proof cases
      case 1
      then have "put_pair k v (p # ps) = p # put_pair k v ps" by (simp add: put_pair_def)
      then show ?thesis using Cons 1 by (cases p) (auto simp: put_pair_def dest: set_takeWhileD set_dropWhileD)
    next
      case 2
      have "dropWhile (\<lambda>q. fst q \<le> k) ps = ps" using Cons.prems 2 by (cases ps) auto
      then have "put_pair k v (p # ps) = (k, v) # ps" using 2 by (simp add: put_pair_def)
      then show ?thesis using Cons.prems 2 by (cases p) auto
    next
      case 3
      then have "\<not> fst p \<le> k" "\<not> fst p < k" by auto
      then have "put_pair k v (p # ps) = (k, v) # p # ps" by (simp add: put_pair_def)
      then show ?thesis using Cons.prems 3 by fastforce
    qed
  qed (simp add: put_pair_def)
  then show "sorted_wrt (<) (map fst (put_pair k v ps))" "map_of (put_pair k v ps) = (map_of ps)(k \<mapsto> v)"
    by simp_all
qed

lemma map_min_sorted:
  assumes "sorted_wrt (<) (map fst ps)"
  shows "map_min (map_of ps) = (case ps of [] \<Rightarrow> None | p # ps' \<Rightarrow> Some p)"
    "map_pop (map_of ps) = map_of (tl ps)"
proof -
  have "map_min (map_of ps) = (case ps of [] \<Rightarrow> None | p # ps' \<Rightarrow> Some p) \<and> map_pop (map_of ps) = map_of (tl ps)"
  proof (cases ps)
    case (Cons p ps')
    have lt: "\<forall>q \<in> set ps'. fst p < fst q" using assms Cons by simp
    have dom: "dom (map_of ps) = insert (fst p) (fst ` set ps')" using Cons by (cases p) (auto simp: dom_map_of_conv_image_fst)
    have "Min (insert (fst p) (fst ` set ps')) = fst p" using lt by (intro Min_eqI) auto
    moreover have "map_of ps' (fst p) = None" using lt by (auto simp: map_of_eq_None_iff)
    ultimately show ?thesis using Cons dom
      by (cases p) (auto simp: map_min_def map_pop_def fun_eq_iff)
  qed (simp add: map_min_def map_pop_def)
  then show "map_min (map_of ps) = (case ps of [] \<Rightarrow> None | p # ps' \<Rightarrow> Some p)"
    "map_pop (map_of ps) = map_of (tl ps)" by simp_all
qed

lemma sorted_distinct_keys: "sorted_wrt (<) (map fst ps) \<Longrightarrow> distinct (map fst (ps :: ('k::linorder \<times> 'v) list))"
  by (simp add: strict_sorted_iff)

lemma card_dom_pairs: "sorted_wrt (<) (map fst ps) \<Longrightarrow> card (dom (map_of ps)) = length (ps :: ('k::linorder \<times> 'v) list)"
  using distinct_card [OF sorted_distinct_keys, of ps] by (simp add: dom_map_of_conv_image_fst)

lemma pairs_mset_eq:
  assumes "distinct (map fst ps)" "distinct (map fst qs)" "map_of ps = map_of qs"
  shows "mset ps = mset qs"
proof -
  have "set ps = set qs" using map_of_inject_set [OF assms(1,2)] assms(3) by simp
  then show ?thesis using assms(1,2) by (simp add: distinct_map set_eq_iff_mset_eq_distinct)
qed

lemma btm_call_pairs:
  assumes "represents m ps"
  shows "\<exists>m'. btm_call c m = Inr (m', snd (pairs_call (btm_capacity m) c ps)) \<and>
    represents m' (fst (pairs_call (btm_capacity m) c ps)) \<and> btm_capacity m' = btm_capacity m"
proof -
  have wf: "wf_btm m" and so: "sorted_wrt (<) (map fst ps)" and mp: "btm_map m = map_of ps"
    using assms by (simp_all add: represents_def)
  note card = card_dom_pairs [OF so]
  have pairs: "mset (btm_pairs m) = mset ps"
    using mp so wf_btmD(4) [OF wf] sorted_distinct_keys by (intro pairs_mset_eq) (auto simp: btm_map_def)
  show ?thesis
  proof (cases c)
    case (Insert k v)
    obtain m' where m': "btm_insert k v m = Inr (m', insert_result (btm_capacity m) (btm_map m) k)"
      "wf_btm m'" "btm_capacity m' = btm_capacity m"
      "btm_map m' = map_insert (btm_capacity m) (btm_map m) k v" using insert_spec [OF wf] by metis
    then show ?thesis
      using Insert so card sorted_put_pair [OF so, of k v]
      by (auto simp: mp represents_def insert_result_def map_insert_def split: option.splits)
  next
    case PopFirst
    obtain m' where m': "pop_first m = Inr (m', map_min (btm_map m))" "wf_btm m'"
      "btm_capacity m' = btm_capacity m" "btm_map m' = map_pop (btm_map m)" using pop_spec [OF wf] by metis
    have "sorted_wrt (<) (map fst (tl ps))" using so by (cases ps) simp_all
    then show ?thesis
      using PopFirst m' map_min_sorted [OF so] by (cases ps) (auto simp: mp represents_def)
  next
    case FirstKeyValue
    then show ?thesis
      using first_key_value_spec [OF wf] map_min_sorted(1) [OF so] assms by (simp add: mp split: list.splits)
  next
    case ExactLen
    have "btm_len m = of_nat (length ps)"
      using wf_btmD(5) [OF wf] mset_eq_length [OF pairs] by simp
    then show ?thesis using ExactLen len_spec(1) [OF wf] assms by simp
  next
    case MapIsEmpty
    have "btm_is_empty m \<longleftrightarrow> ps = []" using len_spec(3) [OF wf] by (simp add: mp dom_map_of_conv_image_fst)
    then show ?thesis using MapIsEmpty assms by simp
  next
    case Clear
    then show ?thesis using clear_spec [OF wf] by (simp add: represents_def)
  next
    case ForEach
    then show ?thesis using for_each_spec [OF wf] assms pairs by simp
  qed
qed

lemma btm_script_pairs:
  assumes "represents m ps"
  shows "\<exists>m'. btm_script cs m = Inr (m', snd (pairs_script (btm_capacity m) cs ps)) \<and>
    represents m' (fst (pairs_script (btm_capacity m) cs ps))"
  using assms
proof (induction cs arbitrary: m ps)
  case (Cons c cs)
  obtain m1 where m1: "btm_call c m = Inr (m1, snd (pairs_call (btm_capacity m) c ps))"
    "represents m1 (fst (pairs_call (btm_capacity m) c ps))" "btm_capacity m1 = btm_capacity m"
    using btm_call_pairs [OF Cons.prems] by blast
  from Cons.IH [OF m1(2)] obtain m2 where
    "btm_script cs m1 = Inr (m2, snd (pairs_script (btm_capacity m) cs (fst (pairs_call (btm_capacity m) c ps))))"
    "represents m2 (fst (pairs_script (btm_capacity m) cs (fst (pairs_call (btm_capacity m) c ps))))"
    using m1(3) by auto
  then show ?case using m1(1) by (simp add: case_prod_unfold Let_def)
qed auto

subsection \<open>The sequential unit tests of the deque\<close>

text \<open>A test: its calls, and what it asserts of the answers.\<close>

definition dq_test_passes :: "nat \<Rightarrow> 'a dq_method list \<Rightarrow> ('a dq_answer list \<Rightarrow> bool) \<Rightarrow> bool" where
  "dq_test_passes cap cs ok = (case dq_script cs (dq_new cap) of None \<Rightarrow> False | Some (q, as) \<Rightarrow> ok as)"

definition deque_test_basic_operations :: bool where
  "deque_test_basic_operations = dq_test_passes 5
     [PushAt Back 1, PushAt Back 2, PopAt Front, PopAt Front, PopAt Front,
      PushAt Front 3, PushAt Front 4, PopAt Back, PopAt Back, PopAt Back]
     (\<lambda>as. as = map Result [PushOk, PushOk, PopSome 1, PopSome 2, PopNone,
        PushOk, PushOk, PopSome 3, PopSome (4 :: int), PopNone])"

definition deque_test_capacity_limit :: bool where
  "deque_test_capacity_limit = dq_test_passes 3 [PushAt Back 1, PushAt Back 2, PushAt Back 3]
     (\<lambda>as. as = map Result [PushOk, PushOk, PushErr (3 :: int)])"

definition deque_test_mixed_operations :: bool where
  "deque_test_mixed_operations = dq_test_passes 6
     [PushAt Front 1, PushAt Back 2, PushAt Front 0, PushAt Back 3,
      PopAt Front, PopAt Back, PopAt Front, PopAt Back, IsEmpty]
     (\<lambda>as. as = map Result [PushOk, PushOk, PushOk, PushOk,
        PopSome 0, PopSome 3, PopSome 1, PopSome (2 :: int)] @ [Flag True])"

text \<open>This one only prints what it pops.\<close>

definition deque_test_dequeue :: bool where
  "deque_test_dequeue = dq_test_passes 16 (map (PushAt Front) [0..<4] @ replicate 18 (PopAt Front)) (\<lambda>as. True)"

subsection \<open>The sequential unit tests of the map\<close>

definition btm_test_passes :: "nat \<Rightarrow> ('k::linorder, 'v) btm_method list \<Rightarrow> (('k, 'v) btm_answer list \<Rightarrow> bool) \<Rightarrow> bool" where
  "btm_test_passes cap cs ok = (case btm_script cs (btm_new cap) of Inl e \<Rightarrow> False | Inr (m, as) \<Rightarrow> ok as)"

fun inserted :: "('k, 'v) btm_answer \<Rightarrow> bool" where
  "inserted (Inserted (Some old)) = True"
| "inserted a = False"

fun is_pair :: "'k \<Rightarrow> 'v \<Rightarrow> ('k, 'v) btm_answer \<Rightarrow> bool" where
  "is_pair k v (Entry (Some p)) = (p = (k, v))"
| "is_pair k v (Entry None) = True"
| "is_pair k v a = False"

fun visits :: "nat \<Rightarrow> ('k, 'v) btm_answer \<Rightarrow> bool" where
  "visits n (Visited ps) = (size ps = n)"
| "visits n a = False"

definition btm_test_basic_operations :: bool where
  "btm_test_basic_operations = btm_test_passes 10
     [Insert 3 ''three'', Insert 1 ''one'', Insert (2 :: int) ''two'', MapIsEmpty, ExactLen,
      FirstKeyValue, PopFirst, ExactLen, FirstKeyValue]
     (\<lambda>as. list_all2 (\<lambda>f a. f a)
        [inserted, inserted, inserted, (=) (MapFlag False), (=) (MapCount 3),
         is_pair 1 ''one'', is_pair 1 ''one'', (=) (MapCount 2), is_pair 2 ''two''] as)"

definition btm_test_update_existing_key :: bool where
  "btm_test_update_existing_key = btm_test_passes 10
     [Insert 1 ''one'', Insert (1 :: int) ''ONE'', FirstKeyValue]
     (\<lambda>as. list_all2 (\<lambda>f a. f a)
        [(=) (Inserted (Some None)), (=) (Inserted (Some (Some ''one''))), is_pair 1 ''ONE''] as)"

text \<open>The loop \<^verbatim>\<open>while let Some((key, _)) = map.pop_first()\<close>: the keys popped before the first \<open>None\<close>.\<close>

fun popped_keys :: "('k, 'v) btm_answer list \<Rightarrow> 'k list" where
  "popped_keys (Entry (Some p) # as) = fst p # popped_keys as"
| "popped_keys as = []"

definition btm_test_ordering :: bool where
  "btm_test_ordering = btm_test_passes 20
     (map (\<lambda>k. Insert k ''value'') [15, 3, 8, 1, 12, 6, 20, 4, 9, 2 :: int] @ replicate 11 PopFirst)
     (\<lambda>as. last as = Entry None \<and> sorted_wrt (<) (popped_keys (drop 10 as)))"

definition btm_test_capacity_limit :: bool where
  "btm_test_capacity_limit = btm_test_passes 3
     [Insert 1 ''one'', Insert 2 ''two'', Insert 3 ''three'', Insert 4 ''four'', Insert (2 :: int) ''TWO'']
     (\<lambda>as. list_all2 (\<lambda>f a. f a)
        [inserted, inserted, inserted, (=) (Inserted None), (=) (Inserted (Some (Some ''two'')))] as)"

definition btm_test_for_each :: bool where
  "btm_test_for_each = btm_test_passes 10
     [Insert 3 ''three'', Insert 1 ''one'', Insert (2 :: int) ''two'', ForEach]
     (\<lambda>as. visits 3 (as ! 3))"

definition btm_test_clear :: bool where
  "btm_test_clear = btm_test_passes 10
     [Insert 1 ''one'', Insert 2 ''two'', Insert (3 :: int) ''three'', ExactLen, Clear, ExactLen, MapIsEmpty]
     (\<lambda>as. drop 3 as = [MapCount 3, Cleared, MapCount 0, MapFlag True])"

definition btm_test_simulated_concurrent :: bool where
  "btm_test_simulated_concurrent = btm_test_passes 100
     (concat (map (\<lambda>p. map (\<lambda>i. Insert (p * 20 + i) (if p mod 2 = 0 then ''even'' else ''odd'')) [0..<20]) [0..<4]) @
      ExactLen # replicate 81 PopFirst @ [MapIsEmpty])
     (\<lambda>as. list_all inserted (take 80 as) \<and> as ! 80 = MapCount 80 \<and> as ! 161 = Entry None \<and>
        length (popped_keys (drop 81 as)) = 80 \<and> sorted_wrt (<) (popped_keys (drop 81 as)) \<and> last as = MapFlag True)"

definition btm_test_same_key_updates :: bool where
  "btm_test_same_key_updates = btm_test_passes 10
     (map (Insert (42 :: int)) [0..<50] @ [ExactLen, FirstKeyValue])
     (\<lambda>as. (\<forall>i < 50. case as ! i of Inserted (Some (Some old)) \<Rightarrow> old < i | Inserted (Some None) \<Rightarrow> True | _ \<Rightarrow> False) \<and>
        as ! 50 = MapCount 1 \<and> is_pair 42 49 (as ! 51))"

subsection \<open>The tests pass\<close>

lemma dq_test_passes_list:
  assumes "0 < cap"
  shows "dq_test_passes cap cs ok = ok (snd (list_script cap cs []))"
  using dq_script_list [OF wf_dq_new [OF assms], of cs] by (auto simp: dq_test_passes_def)

lemma represents_new: "cap < 2 ^ 64 \<Longrightarrow> represents (btm_new cap) []"
  using wf_btm_new [of cap] by (simp add: represents_def)

lemma btm_test_passes_pairs:
  assumes "cap < 2 ^ 64"
  shows "btm_test_passes cap cs ok = ok (snd (pairs_script cap cs []))"
  using btm_script_pairs [OF represents_new [OF assms], of cs] by (auto simp: btm_test_passes_def)

lemma deque_tests_pass:
  "deque_test_basic_operations" "deque_test_capacity_limit" "deque_test_mixed_operations" "deque_test_dequeue"
  unfolding deque_test_basic_operations_def deque_test_capacity_limit_def deque_test_mixed_operations_def
    deque_test_dequeue_def by (subst dq_test_passes_list, simp, code_simp)+

lemma btm_tests_pass:
  "btm_test_basic_operations" "btm_test_update_existing_key" "btm_test_capacity_limit" "btm_test_for_each"
  "btm_test_clear"
  unfolding btm_test_basic_operations_def btm_test_update_existing_key_def
    btm_test_capacity_limit_def btm_test_for_each_def btm_test_clear_def
  by (subst btm_test_passes_pairs, simp, code_simp)+

lemma btm_ordering_passes: "btm_test_ordering"
  unfolding btm_test_ordering_def by (subst btm_test_passes_pairs, simp, code_simp)

lemma btm_same_key_passes: "btm_test_same_key_updates"
  unfolding btm_test_same_key_updates_def by (subst btm_test_passes_pairs, simp, code_simp)

text \<open>Longer scripts: inserting ascending keys, and popping everything.\<close>

lemma put_pair_last:
  assumes "sorted_wrt (<) (map fst (ps @ [(k, v)]))"
  shows "put_pair k v ps = ps @ [(k, v)]" "map_of ps k = None"
proof -
  have lt: "\<forall>p \<in> set ps. fst p < k" using assms by (auto simp: sorted_wrt_append)
  then have "takeWhile (\<lambda>p. fst p < k) ps = ps" "dropWhile (\<lambda>p. fst p \<le> k) ps = []" by fastforce+
  then show "put_pair k v ps = ps @ [(k, v)]" by (simp add: put_pair_def)
  show "map_of ps k = None" using lt by (auto simp: map_of_eq_None_iff)
qed

lemma pairs_insert_ascending:
  assumes "sorted_wrt (<) (map fst (ps @ qs))" "length (ps @ qs) \<le> cap"
  shows "pairs_script cap (map (\<lambda>q. Insert (fst q) (snd q)) qs @ cs) ps =
    (let (r, as) = pairs_script cap cs (ps @ qs) in (r, replicate (length qs) (Inserted (Some None)) @ as))"
  using assms
proof (induction qs arbitrary: ps)
  case (Cons q qs)
  have "sorted_wrt (<) (map fst (ps @ [(fst q, snd q)]))" using Cons.prems(1) by (auto simp: sorted_wrt_append)
  note last = put_pair_last [OF this]
  have "pairs_call cap (Insert (fst q) (snd q)) ps = (ps @ [q], Inserted (Some None))"
    using Cons.prems(2) last by simp
  then show ?case using Cons.IH [of "ps @ [q]"] Cons.prems by (simp add: Let_def case_prod_unfold)
qed (simp add: Let_def)

lemma pairs_pop_all:
  "pairs_script cap (replicate (length ps) PopFirst @ cs) ps =
    (let (r, as) = pairs_script cap cs [] in (r, map (\<lambda>p. Entry (Some p)) ps @ as))"
  by (induction ps) (simp_all add: Let_def case_prod_unfold)

lemma popped_keys_pairs: "popped_keys (map (\<lambda>p. Entry (Some p)) ps @ Entry None # as) = map fst ps"
  by (induction ps) simp_all

definition simulated_pairs :: "(nat \<times> string) list" where
  "simulated_pairs =
     concat (map (\<lambda>p. map (\<lambda>i. (p * 20 + i, if p mod 2 = 0 then ''even'' else ''odd'')) [0..<20]) [0..<4])"

lemma simulated_keys: "map fst simulated_pairs = [0..<80]"
  unfolding simulated_pairs_def by code_simp

lemma btm_simulated_passes: "btm_test_simulated_concurrent"
proof -
  let ?rest = "ExactLen # replicate 81 PopFirst @ [MapIsEmpty] :: (nat, string) btm_method list"
  have len: "length simulated_pairs = 80" using arg_cong [OF simulated_keys, of length] by simp
  have ins: "concat (map (\<lambda>p. map (\<lambda>i. Insert (p * 20 + i) (if p mod 2 = 0 then ''even'' else ''odd'')) [0..<20]) [0..<4]) =
      map (\<lambda>q. Insert (fst q) (snd q)) simulated_pairs"
    unfolding simulated_pairs_def by (simp add: map_concat comp_def del: upt_rec_numeral)
  have "?rest = ExactLen # replicate (length simulated_pairs) PopFirst @ [PopFirst, MapIsEmpty]"
    unfolding len by (simp add: numeral_eq_Suc)
  then have "snd (pairs_script 100 ?rest simulated_pairs) =
      MapCount 80 # map (\<lambda>p. Entry (Some p)) simulated_pairs @ [Entry None, MapFlag True]"
    using pairs_pop_all [of 100 simulated_pairs "[PopFirst, MapIsEmpty]"] by (simp add: len)
  moreover have "sorted_wrt (<) (map fst ([] @ simulated_pairs))" by (simp add: simulated_keys)
  ultimately have "snd (pairs_script 100 (map (\<lambda>q. Insert (fst q) (snd q)) simulated_pairs @ ?rest) []) =
      replicate 80 (Inserted (Some None)) @
        MapCount 80 # map (\<lambda>p. Entry (Some p)) simulated_pairs @ [Entry None, MapFlag True]"
    using pairs_insert_ascending [of "[]" simulated_pairs 100 ?rest] len
    by (simp add: case_prod_unfold Let_def)
  then show ?thesis
    unfolding btm_test_simulated_concurrent_def ins
    by (subst btm_test_passes_pairs)
      (simp_all add: len nth_append popped_keys_pairs simulated_keys list_all_iff del: upt_rec_numeral)
qed

subsection \<open>The properties\<close>

text \<open>C14: whatever sequence of calls one thread makes on a new deque, each call returns and gives the answer
  that a list gives that holds at most one element less than the ring has slots: \<^verbatim>\<open>push_front\<close> adds at
  the head, \<^verbatim>\<open>push_back\<close> at the end, \<^verbatim>\<open>pop_front\<close> and \<^verbatim>\<open>pop_back\<close> take from there, \<^verbatim>\<open>len\<close> and
  \<^verbatim>\<open>is_empty\<close> are exact.\<close>

theorem dq_script_equiv:
  assumes "0 < cap"
  shows "\<exists>q. dq_script cs (dq_new cap) = Some (q, snd (list_script cap cs [])) \<and> wf_deque q \<and>
    dq_list q = fst (list_script cap cs [])"
  using dq_script_list [OF wf_dq_new [OF assms], of cs] by simp

theorem dq_script_equiv_witness:
  "\<exists>q. dq_script [PushAt Back 1, PushAt Front (2 :: int), PushAt Back 3, PopAt Back, Len] (dq_new 3) =
    Some (q, [Result PushOk, Result PushOk, Result (PushErr 3), Result (PopSome 1), Count 1])"
  using dq_script_equiv [of 3 "[PushAt Back 1, PushAt Front (2 :: int), PushAt Back 3, PopAt Back, Len]"]
  by (auto simp: Let_def)

text \<open>C15: whatever sequence of calls one thread makes on a new map, each call returns and gives the answer
  that a list of pairs sorted by key gives, bounded by the capacity.\<close>

theorem btm_script_equiv:
  assumes "cap < 2 ^ 64"
  shows "\<exists>m. btm_script cs (btm_new cap) = Inr (m, snd (pairs_script cap cs [])) \<and> wf_btm m \<and>
    btm_map m = map_of (fst (pairs_script cap cs []))"
  using btm_script_pairs [OF represents_new [OF assms], of cs] by (auto simp: represents_def)

theorem btm_script_equiv_witness:
  "\<exists>m. btm_script [Insert 5 (7 :: nat), Insert (3 :: nat) 8, Insert 5 9, Insert 4 1, PopFirst, ExactLen] (btm_new 2) =
    Inr (m, [Inserted (Some None), Inserted (Some None), Inserted (Some (Some 7)), Inserted None,
      Entry (Some (3, 8)), MapCount 1])"
  using btm_script_equiv [of 2 "[Insert 5 (7 :: nat), Insert (3 :: nat) 8, Insert 5 9, Insert 4 1, PopFirst, ExactLen]"]
  by (auto simp: Let_def put_pair_def)


end
