(* ===== verification/Sched_Spec.thy ===== *)
theory Sched_Spec
  imports Prelude "HOL-Library.Multiset"
begin

text \<open>
  The trait \<^verbatim>\<open>BaseScheduler\<close> of \<^verbatim>\<open>scheduler/src/lib.rs\<close> as a record of operations, and the contract
  \<open>base_scheduler\<close> that the run queues of \<^verbatim>\<open>vsched/src/sched.rs\<close> rely on. A scheduler works on its
  ready queue and on the scheduling fields stored in the tasks; the tasks are shared between CPUs,
  so the store of those fields is a separate component of the state.
\<close>

type_synonym ('q, 'i) sched_state = "'q \<times> (tid \<Rightarrow> 'i)"

record ('q, 'i) base_scheduler_ops =
  add_task :: "tid \<Rightarrow> ('q, 'i) sched_state \<Rightarrow> ('q, 'i) sched_state outcome"
  pick_next_task :: "('q, 'i) sched_state \<Rightarrow> (('q, 'i) sched_state \<times> tid option) outcome"
  put_prev_task :: "tid \<Rightarrow> bool \<Rightarrow> ('q, 'i) sched_state \<Rightarrow> ('q, 'i) sched_state outcome"
  task_tick :: "tid \<Rightarrow> ('q, 'i) sched_state \<Rightarrow> (('q, 'i) sched_state \<times> bool) outcome"
  set_priority :: "tid \<Rightarrow> isize \<Rightarrow> ('q, 'i) sched_state \<Rightarrow> (('q, 'i) sched_state \<times> bool) outcome"

text \<open>What a ready queue holds after one more task was offered to it: the result of a failed
  insertion is ignored by every scheduler, so a task offered to a full queue is gone.\<close>

definition offer :: "nat \<Rightarrow> tid \<Rightarrow> tid multiset \<Rightarrow> tid multiset" where
  "offer b t ts = (if size ts < b then add_mset t ts else ts)"

lemma offer_room [simp]: "size ts < b \<Longrightarrow> offer b t ts = add_mset t ts"
  and offer_full [simp]: "b \<le> size ts \<Longrightarrow> offer b t ts = ts"
  by (simp_all add: offer_def)

lemma size_offer_le: "size ts \<le> b \<Longrightarrow> size (offer b t ts) \<le> b"
  by (simp add: offer_def)

text \<open>
  \<open>queued\<close>: the tasks in the ready queue; \<open>qinv\<close>: the invariant of the queue; \<open>iok\<close>: the invariant of
  a task's scheduling fields; \<open>bound\<close>: how many tasks the queue can hold; \<open>fresh\<close>: the queue can tell
  the next task it is offered from the ones it holds.
\<close>

locale base_scheduler =
  fixes ops :: "('q, 'i) base_scheduler_ops"
    and queued :: "'q \<Rightarrow> tid multiset"
    and qinv :: "'q \<Rightarrow> bool"
    and iok :: "'i \<Rightarrow> bool"
    and bound :: "'q \<Rightarrow> nat"
    and fresh :: "'q \<Rightarrow> bool"
  assumes queued_bound: "qinv q \<Longrightarrow> size (queued q) \<le> bound q"
    and add_law: "qinv q \<Longrightarrow> fresh q \<Longrightarrow> (\<And>u. iok (st u)) \<Longrightarrow>
      \<exists>q' st'. add_task ops t (q, st) = Inr (q', st') \<and> qinv q' \<and> (\<forall>u. iok (st' u)) \<and>
        bound q' = bound q \<and> queued q' = offer (bound q) t (queued q)"
    and put_law: "qinv q \<Longrightarrow> fresh q \<Longrightarrow> (\<And>u. iok (st u)) \<Longrightarrow>
      \<exists>q' st'. put_prev_task ops t p (q, st) = Inr (q', st') \<and> qinv q' \<and> (\<forall>u. iok (st' u)) \<and>
        bound q' = bound q \<and> queued q' = offer (bound q) t (queued q)"
    and pick_none: "qinv q \<Longrightarrow> queued q = {#} \<Longrightarrow>
      \<exists>q'. pick_next_task ops (q, st) = Inr ((q', st), None) \<and> qinv q' \<and> bound q' = bound q \<and> queued q' = {#}"
    and pick_some: "qinv q \<Longrightarrow> queued q \<noteq> {#} \<Longrightarrow>
      \<exists>q' t. pick_next_task ops (q, st) = Inr ((q', st), Some t) \<and> qinv q' \<and> bound q' = bound q \<and>
        queued q = add_mset t (queued q')"
    and tick_law: "(\<And>u. iok (st u)) \<Longrightarrow>
      \<exists>st' b. task_tick ops t (q, st) = Inr ((q, st'), b) \<and> (\<forall>u. iok (st' u))"
    and prio_law: "(\<And>u. iok (st u)) \<Longrightarrow>
      \<exists>st' b. set_priority ops t pr (q, st) = Inr ((q, st'), b) \<and> (\<forall>u. iok (st' u))"
begin

lemma pick_cases:
  assumes "qinv q"
  obtains (none) q' where "pick_next_task ops (q, st) = Inr ((q', st), None)" "qinv q'"
      "bound q' = bound q" "queued q = {#}" "queued q' = {#}"
    | (some) q' t where "pick_next_task ops (q, st) = Inr ((q', st), Some t)" "qinv q'"
      "bound q' = bound q" "queued q = add_mset t (queued q')"
  using pick_none [OF assms] pick_some [OF assms] by (cases "queued q = {#}") metis+

lemma put_then_pick:
  assumes "qinv q" "fresh q" "\<And>u. iok (st u)" "size (queued q) < bound q"
  shows "\<exists>q1 st1 q2 u. put_prev_task ops t p (q, st) = Inr (q1, st1) \<and>
    pick_next_task ops (q1, st1) = Inr ((q2, st1), Some u) \<and> qinv q2 \<and>
    add_mset t (queued q) = add_mset u (queued q2)"
proof -
  obtain q1 st1 where q1: "put_prev_task ops t p (q, st) = Inr (q1, st1)" "qinv q1"
    "queued q1 = add_mset t (queued q)" using put_law [OF assms(1-3)] assms(4) by fastforce
  then obtain q2 u where "pick_next_task ops (q1, st1) = Inr ((q2, st1), Some u)" "qinv q2"
    "queued q1 = add_mset u (queued q2)" using pick_some [of q1] by (metis empty_not_add_mset)
  then show ?thesis using q1 by metis
qed

end

subsection \<open>Draining a ready queue\<close>

fun pick_all :: "('q, 'i) base_scheduler_ops \<Rightarrow> nat \<Rightarrow> ('q, 'i) sched_state \<Rightarrow>
    (('q, 'i) sched_state \<times> tid list) outcome" where
  "pick_all ops 0 s = Inr (s, [])"
| "pick_all ops (Suc n) s = bind_outcome (pick_next_task ops s) (\<lambda>(s', r).
     case r of None \<Rightarrow> Inr (s', [])
     | Some t \<Rightarrow> bind_outcome (pick_all ops n s') (\<lambda>(s'', ts). Inr (s'', t # ts)))"

fun add_all :: "('q, 'i) base_scheduler_ops \<Rightarrow> tid list \<Rightarrow> ('q, 'i) sched_state \<Rightarrow>
    ('q, 'i) sched_state outcome" where
  "add_all ops [] s = Inr s"
| "add_all ops (t # ts) s = bind_outcome (add_task ops t s) (add_all ops ts)"

context base_scheduler
begin

text \<open>No task is lost or duplicated: draining yields exactly the queued tasks.\<close>

lemma pick_all_queued:
  assumes "qinv q" "size (queued q) \<le> n"
  shows "\<exists>q' ts. pick_all ops n (q, st) = Inr ((q', st), ts) \<and> mset ts = queued q \<and>
    qinv q' \<and> queued q' = {#}"
  using assms
proof (induction n arbitrary: q)
  case (Suc n)
  from Suc.prems(1) show ?case
  proof (cases rule: pick_cases [where st = st])
    case (some q' t)
    then show ?thesis using Suc.IH [of q'] Suc.prems(2) by fastforce
  qed auto
qed auto

end

end
