(* ===== verification/Fifo.thy ===== *)
theory Fifo
  imports Sched_Spec Deque_Seq
begin

text \<open>
  The cooperative scheduler of \<^verbatim>\<open>scheduler/src/fifo.rs\<close>. Its ready queue is the bounded
  multi-producer multi-consumer queue of the third-party crate \<^verbatim>\<open>heapless\<close>, which is a parameter
  here: a record of its two operations, with the documented behaviour of a bounded FIFO queue as
  the contract \<open>mpmc_queue\<close>. The contract gives the contract of a scheduler.
\<close>

subsection \<open>The ready queue\<close>

text \<open>\<open>enqueue\<close> tells whether the result is \<^verbatim>\<open>Ok\<close>; \<open>dequeue\<close> returns the task taken out, if any.\<close>

record 'q mpmc_ops =
  enqueue :: "'q \<Rightarrow> tid \<Rightarrow> 'q \<times> bool"
  dequeue :: "'q \<Rightarrow> 'q \<times> tid option"

locale mpmc_queue =
  fixes mq :: "'q mpmc_ops"
    and contents :: "'q \<Rightarrow> tid list"
    and qinv :: "'q \<Rightarrow> bool"
    and cap :: "'q \<Rightarrow> nat"
  assumes within: "qinv q \<Longrightarrow> length (contents q) \<le> cap q"
    and enqueue_room: "qinv q \<Longrightarrow> length (contents q) < cap q \<Longrightarrow>
      \<exists>q'. enqueue mq q t = (q', True) \<and> qinv q' \<and> cap q' = cap q \<and> contents q' = contents q @ [t]"
    and enqueue_full: "qinv q \<Longrightarrow> length (contents q) = cap q \<Longrightarrow>
      \<exists>q'. enqueue mq q t = (q', False) \<and> qinv q' \<and> cap q' = cap q \<and> contents q' = contents q"
    and dequeue_empty: "qinv q \<Longrightarrow> contents q = [] \<Longrightarrow>
      \<exists>q'. dequeue mq q = (q', None) \<and> qinv q' \<and> cap q' = cap q \<and> contents q' = []"
    and dequeue_some: "qinv q \<Longrightarrow> contents q = t # ts \<Longrightarrow>
      \<exists>q'. dequeue mq q = (q', Some t) \<and> qinv q' \<and> cap q' = cap q \<and> contents q' = ts"

subsection \<open>The scheduler\<close>

text \<open>A \<^verbatim>\<open>FifoTask\<close> adds no field to the task it wraps.\<close>

datatype fifo_task = FifoTask

definition fifo_task_new :: fifo_task where
  "fifo_task_new = FifoTask"

type_synonym 'q fifo_state = "('q, fifo_task) sched_state"

definition fifo_add_task :: "'q mpmc_ops \<Rightarrow> tid \<Rightarrow> 'q fifo_state \<Rightarrow> 'q fifo_state outcome" where
  "fifo_add_task mq t s = Inr (fst (enqueue mq (fst s) t), snd s)"

definition fifo_pick_next_task :: "'q mpmc_ops \<Rightarrow> 'q fifo_state \<Rightarrow> ('q fifo_state \<times> tid option) outcome" where
  "fifo_pick_next_task mq s = (let (q, r) = dequeue mq (fst s) in Inr ((q, snd s), r))"

definition fifo_put_prev_task :: "'q mpmc_ops \<Rightarrow> tid \<Rightarrow> bool \<Rightarrow> 'q fifo_state \<Rightarrow> 'q fifo_state outcome" where
  "fifo_put_prev_task mq prev preempt s = Inr (fst (enqueue mq (fst s) prev), snd s)"

definition fifo_task_tick :: "tid \<Rightarrow> 'q fifo_state \<Rightarrow> ('q fifo_state \<times> bool) outcome" where
  "fifo_task_tick current s = Inr (s, False)"

definition fifo_set_priority :: "tid \<Rightarrow> isize \<Rightarrow> 'q fifo_state \<Rightarrow> ('q fifo_state \<times> bool) outcome" where
  "fifo_set_priority t prio s = Inr (s, False)"

definition fifo_ops :: "'q mpmc_ops \<Rightarrow> ('q, fifo_task) base_scheduler_ops" where
  "fifo_ops mq = \<lparr>add_task = fifo_add_task mq, pick_next_task = fifo_pick_next_task mq,
     put_prev_task = fifo_put_prev_task mq, task_tick = fifo_task_tick, set_priority = fifo_set_priority\<rparr>"

lemma fifo_ops_simps [simp]:
  "add_task (fifo_ops mq) = fifo_add_task mq" "pick_next_task (fifo_ops mq) = fifo_pick_next_task mq"
  "put_prev_task (fifo_ops mq) = fifo_put_prev_task mq" "task_tick (fifo_ops mq) = fifo_task_tick"
  "set_priority (fifo_ops mq) = fifo_set_priority"
  by (simp_all add: fifo_ops_def)

lemmas fifo_defs = fifo_add_task_def fifo_pick_next_task_def fifo_put_prev_task_def
  fifo_task_tick_def fifo_set_priority_def

subsection \<open>Order\<close>

context mpmc_queue
begin

lemma enqueue_offer:
  assumes "qinv q"
  shows "qinv (fst (enqueue mq q t))" "cap (fst (enqueue mq q t)) = cap q"
    "contents (fst (enqueue mq q t)) = (if length (contents q) < cap q then contents q @ [t] else contents q)"
proof -
  have "qinv (fst (enqueue mq q t)) \<and> cap (fst (enqueue mq q t)) = cap q \<and>
    contents (fst (enqueue mq q t)) = (if length (contents q) < cap q then contents q @ [t] else contents q)"
    using within [OF assms] enqueue_room [OF assms, of t] enqueue_full [OF assms, of t]
    by (cases "length (contents q) < cap q") auto
  then show "qinv (fst (enqueue mq q t))" "cap (fst (enqueue mq q t)) = cap q"
    "contents (fst (enqueue mq q t)) = (if length (contents q) < cap q then contents q @ [t] else contents q)"
    by simp_all
qed

lemma fifo_pick:
  assumes "qinv q"
  shows "\<exists>q'. fifo_pick_next_task mq (q, st) =
      Inr ((q', st), case contents q of [] \<Rightarrow> None | t # ts \<Rightarrow> Some t) \<and>
    qinv q' \<and> cap q' = cap q \<and> contents q' = tl (contents q)"
  using dequeue_empty [OF assms] dequeue_some [OF assms]
  by (cases "contents q") (fastforce simp: fifo_pick_next_task_def)+

lemma fifo_add_all:
  assumes "qinv q" "length (contents q) + length ts \<le> cap q"
  shows "\<exists>q'. add_all (fifo_ops mq) ts (q, st) = Inr (q', st) \<and> qinv q' \<and> cap q' = cap q \<and>
    contents q' = contents q @ ts"
  using assms
proof (induction ts arbitrary: q)
  case (Cons t ts)
  let ?q = "fst (enqueue mq q t)"
  have "qinv ?q" "cap ?q = cap q" "contents ?q = contents q @ [t]"
    using enqueue_offer [OF Cons.prems(1), of t] Cons.prems(2) by simp_all
  then show ?case using Cons.IH [of ?q] Cons.prems(2) by (simp add: fifo_add_task_def)
qed simp

lemma fifo_pick_all:
  assumes "qinv q" "length (contents q) \<le> n"
  shows "\<exists>q'. pick_all (fifo_ops mq) n (q, st) = Inr ((q', st), contents q) \<and> qinv q' \<and> contents q' = []"
  using assms
proof (induction n arbitrary: q)
  case (Suc n)
  from fifo_pick [OF Suc.prems(1), of st] obtain q1 where q1: "fifo_pick_next_task mq (q, st) =
      Inr ((q1, st), case contents q of [] \<Rightarrow> None | t # ts \<Rightarrow> Some t)" "qinv q1"
    "contents q1 = tl (contents q)" by blast
  then show ?case using Suc.IH [of q1] Suc.prems(2) by (cases "contents q") auto
qed auto

end

sublocale mpmc_queue \<subseteq> fifo: base_scheduler "fifo_ops mq" "\<lambda>q. mset (contents q)" qinv
  "\<lambda>_. True" cap "\<lambda>_. True"
proof (unfold_locales, goal_cases)
  case (1 q)
  then show ?case using within by simp
next
  case (2 q st t)
  then show ?case using enqueue_offer [OF 2(1), of t] by (simp add: fifo_defs offer_def)
next
  case (3 q st t p)
  then show ?case using enqueue_offer [OF 3(1), of t] by (simp add: fifo_defs offer_def)
next
  case (4 q st)
  then show ?case using fifo_pick [of q st] by auto
next
  case (5 q st)
  then show ?case using fifo_pick [of q st] by (cases "contents q") auto
next
  case (6 st t q)
  then show ?case by (auto simp: fifo_defs)
next
  case (7 st t pr q)
  then show ?case by (auto simp: fifo_defs)
qed

subsection \<open>An instance\<close>

text \<open>The deque of \<^verbatim>\<open>utils/src/deque.rs\<close>, pushed at the back and popped at the front, is such a queue.\<close>

definition deque_enqueue :: "tid deque \<Rightarrow> tid \<Rightarrow> tid deque \<times> bool" where
  "deque_enqueue q t = (case push_back q t of Some (q', PushOk) \<Rightarrow> (q', True) | _ \<Rightarrow> (q, False))"

definition deque_dequeue :: "tid deque \<Rightarrow> tid deque \<times> tid option" where
  "deque_dequeue q = (case pop_front q of Some (q', PopSome t) \<Rightarrow> (q', Some t) | _ \<Rightarrow> (q, None))"

definition deque_mpmc :: "tid deque mpmc_ops" where
  "deque_mpmc = \<lparr>enqueue = deque_enqueue, dequeue = deque_dequeue\<rparr>"

interpretation dm: mpmc_queue deque_mpmc dq_list wf_deque "\<lambda>q. dq_capacity q - 1"
proof (unfold_locales, goal_cases)
  case (1 q)
  then show ?case by (rule dq.list_bound)
next
  case (2 q t)
  then show ?case using dq.add_room [of q Back t] by (auto simp: deque_mpmc_def deque_enqueue_def)
next
  case (3 q t)
  then show ?case using dq.add_full [of q Back t] by (auto simp: deque_mpmc_def deque_enqueue_def)
next
  case (4 q)
  then show ?case using dq.take_empty [of q Front] by (auto simp: deque_mpmc_def deque_dequeue_def)
next
  case (5 q t ts)
  then show ?case using dq.take_front_hd [of q t ts] by (auto simp: deque_mpmc_def deque_dequeue_def)
qed

subsection \<open>Properties\<close>

text \<open>Over any ready queue that behaves as a bounded FIFO queue, tasks added to an empty FIFO
  scheduler within its capacity are picked in the order they were added, and the next pick returns
  \<open>None\<close>; a task put back, preempted or not, is picked after every task already waiting.\<close>

theorem fifo_order:
  assumes "mpmc_queue mq contents qinv cap" "qinv q" "contents q = []" "length ts < cap q"
  shows "\<exists>q1 q2 q3. add_all (fifo_ops mq) ts (q, st) = Inr (q1, st) \<and>
    put_prev_task (fifo_ops mq) t preempt (q1, st) = Inr (q2, st) \<and>
    pick_all (fifo_ops mq) (length ts + 1) (q2, st) = Inr ((q3, st), ts @ [t]) \<and>
    (\<exists>q4. pick_next_task (fifo_ops mq) (q3, st) = Inr ((q4, st), None))"
proof -
  note inst = mpmc_queue.enqueue_offer [OF assms(1)] mpmc_queue.fifo_pick [OF assms(1)]
    mpmc_queue.fifo_add_all [OF assms(1)] mpmc_queue.fifo_pick_all [OF assms(1)]
  obtain q1 where q1: "add_all (fifo_ops mq) ts (q, st) = Inr (q1, st)" "qinv q1" "cap q1 = cap q"
    "contents q1 = ts" using inst(5) [OF assms(2), of ts st] assms(3,4) by auto
  define q2 where "q2 = fst (enqueue mq q1 t)"
  have q2: "fst (enqueue mq q1 t) = q2" "qinv q2" "contents q2 = ts @ [t]"
    using inst(1,3) [OF q1(2), of t] q1(3,4) assms(4) by (simp_all add: q2_def)
  obtain q3 where q3: "pick_all (fifo_ops mq) (length ts + 1) (q2, st) = Inr ((q3, st), ts @ [t])"
    "qinv q3" "contents q3 = []" using inst(6) [OF q2(2), of "length ts + 1" st] q2(3) by auto
  obtain q4 where "fifo_pick_next_task mq (q3, st) = Inr ((q4, st), None)"
    using inst(4) [OF q3(2), of st] q3(3) by auto
  moreover have "put_prev_task (fifo_ops mq) t preempt (q1, st) = Inr (q2, st)"
    using q2(1) by (simp add: fifo_defs)
  ultimately show ?thesis using q1(1) q3(1) by auto
qed

theorem fifo_order_witness:
  "\<exists>q1 q2 q3. add_all (fifo_ops deque_mpmc) [7, 8] (dq_new 4, \<lambda>_. fifo_task_new) = Inr (q1, \<lambda>_. fifo_task_new) \<and>
    put_prev_task (fifo_ops deque_mpmc) 9 True (q1, \<lambda>_. fifo_task_new) = Inr (q2, \<lambda>_. fifo_task_new) \<and>
    pick_all (fifo_ops deque_mpmc) 3 (q2, \<lambda>_. fifo_task_new) = Inr ((q3, \<lambda>_. fifo_task_new), [7, 8, 9])"
  using fifo_order [OF dm.mpmc_queue_axioms wf_dq_new [of 4], of "[7, 8]" "\<lambda>_. fifo_task_new" 9 True]
  by (auto simp: numeral_3_eq_3 simp del: add_all.simps pick_all.simps)

text \<open>Offering a task to a FIFO scheduler whose ready queue is full drops it without an error:
  \<^verbatim>\<open>add_task\<close> and \<^verbatim>\<open>put_prev_task\<close> ignore the failed \<^verbatim>\<open>enqueue\<close>, the queue holds what it held, and a
  task that is not in it will never be picked from it.\<close>

theorem fifo_full_drops:
  assumes "mpmc_queue mq contents qinv cap" "qinv q" "length (contents q) = cap q" "t \<notin> set (contents q)"
  shows "\<exists>q'. add_task (fifo_ops mq) t (q, st) = Inr (q', st) \<and>
    put_prev_task (fifo_ops mq) t preempt (q, st) = Inr (q', st) \<and> contents q' = contents q \<and>
    (\<exists>q'' ts. pick_all (fifo_ops mq) n (q', st) = Inr ((q'', st), ts) \<and> t \<notin> set ts)"
proof -
  define q' where "q' = fst (enqueue mq q t)"
  have q': "fst (enqueue mq q t) = q'" "qinv q'" "contents q' = contents q"
    using mpmc_queue.enqueue_offer [OF assms(1,2), of t] assms(3) by (simp_all add: q'_def)
  have "\<exists>q'' ts. pick_all (fifo_ops mq) n (p, st) = Inr ((q'', st), ts) \<and> set ts \<subseteq> set (contents p)"
    if "qinv p" for p
    using that
  proof (induction n arbitrary: p)
    case (Suc n)
    from mpmc_queue.fifo_pick [OF assms(1) Suc.prems, of st] obtain p1 where "fifo_pick_next_task mq (p, st) =
        Inr ((p1, st), case contents p of [] \<Rightarrow> None | t # ts \<Rightarrow> Some t)" "qinv p1"
      "contents p1 = tl (contents p)" by blast
    then show ?case using Suc.IH [of p1] by (cases "contents p") auto
  qed simp
  from this [OF q'(2)] show ?thesis using q' assms(4) by (fastforce simp: fifo_defs)
qed

theorem fifo_full_drops_witness:
  "\<exists>q'. add_task (fifo_ops deque_mpmc) 5 (dq_new 1, \<lambda>_. fifo_task_new) = Inr (q', \<lambda>_. fifo_task_new) \<and> dq_list q' = []"
  using fifo_full_drops [OF dm.mpmc_queue_axioms wf_dq_new [of 1], of 5 "\<lambda>_. fifo_task_new"] by auto

end
