(* ===== verification/Round_Robin.thy ===== *)
theory Round_Robin
  imports Sched_Spec Deque_Seq
begin

text \<open>
  The preemptive round-robin scheduler of \<^verbatim>\<open>scheduler/src/round_robin.rs\<close>: the deque of
  \<^verbatim>\<open>utils/src/deque.rs\<close> as the ready queue and a time-slice counter in every task. \<open>S\<close> is the const
  parameter \<^verbatim>\<open>MAX_TIME_SLICE\<close>; \<^verbatim>\<open>scheduler/src/lib.rs\<close> sets it to 5.
\<close>

subsection \<open>Tasks and operations\<close>

record rr_task =
  time_slice :: isize

definition MAX_TIME_SLICE :: isize where "MAX_TIME_SLICE = 5"

definition rr_task_new :: "isize \<Rightarrow> rr_task" where
  "rr_task_new S = \<lparr>time_slice = S\<rparr>"

definition reset_time_slice :: "isize \<Rightarrow> rr_task \<Rightarrow> rr_task" where
  "reset_time_slice S i = i\<lparr>time_slice := S\<rparr>"

type_synonym rr_state = "(tid deque, rr_task) sched_state"

text \<open>A push whose result is ignored, and a pop whose result is returned.\<close>

definition ignore_push :: "(tid deque \<times> tid dq_result) option \<Rightarrow> tid deque outcome" where
  "ignore_push r = (case r of
     None \<Rightarrow> Inl Spin
   | Some (q, DqPanic) \<Rightarrow> Inl Panic
   | Some (q, DqUndefined) \<Rightarrow> Inl Undefined
   | Some (q, _) \<Rightarrow> Inr q)"

definition popped :: "(tid deque \<times> tid dq_result) option \<Rightarrow> (tid deque \<times> tid option) outcome" where
  "popped r = (case r of
     None \<Rightarrow> Inl Spin
   | Some (q, PopSome t) \<Rightarrow> Inr (q, Some t)
   | Some (q, PopNone) \<Rightarrow> Inr (q, None)
   | Some (q, DqPanic) \<Rightarrow> Inl Panic
   | Some (q, _) \<Rightarrow> Inl Undefined)"

definition rr_add_task :: "tid \<Rightarrow> rr_state \<Rightarrow> rr_state outcome" where
  "rr_add_task t s = bind_outcome (ignore_push (push_back (fst s) t)) (\<lambda>q. Inr (q, snd s))"

definition rr_pick_next_task :: "rr_state \<Rightarrow> (rr_state \<times> tid option) outcome" where
  "rr_pick_next_task s = bind_outcome (popped (pop_front (fst s))) (\<lambda>(q, r). Inr ((q, snd s), r))"

definition rr_put_prev_task :: "isize \<Rightarrow> tid \<Rightarrow> bool \<Rightarrow> rr_state \<Rightarrow> rr_state outcome" where
  "rr_put_prev_task S prev preempt s =
     (if 0 < sint (time_slice (snd s prev)) \<and> preempt
      then bind_outcome (ignore_push (push_front (fst s) prev)) (\<lambda>q. Inr (q, snd s))
      else let st = (snd s)(prev := reset_time_slice S (snd s prev)) in
           bind_outcome (ignore_push (push_back (fst s) prev)) (\<lambda>q. Inr (q, st)))"

definition rr_task_tick :: "tid \<Rightarrow> rr_state \<Rightarrow> (rr_state \<times> bool) outcome" where
  "rr_task_tick current s =
     (let old_slice = time_slice (snd s current);
          st = (snd s)(current := (snd s current)\<lparr>time_slice := old_slice - 1\<rparr>)
      in Inr ((fst s, st), sint old_slice \<le> 1))"

definition rr_set_priority :: "tid \<Rightarrow> isize \<Rightarrow> rr_state \<Rightarrow> (rr_state \<times> bool) outcome" where
  "rr_set_priority t prio s = Inr (s, False)"

definition rr_ops :: "isize \<Rightarrow> (tid deque, rr_task) base_scheduler_ops" where
  "rr_ops S = \<lparr>add_task = rr_add_task, pick_next_task = rr_pick_next_task,
     put_prev_task = rr_put_prev_task S, task_tick = rr_task_tick, set_priority = rr_set_priority\<rparr>"

lemma rr_ops_simps [simp]:
  "add_task (rr_ops S) = rr_add_task" "pick_next_task (rr_ops S) = rr_pick_next_task"
  "put_prev_task (rr_ops S) = rr_put_prev_task S" "task_tick (rr_ops S) = rr_task_tick"
  "set_priority (rr_ops S) = rr_set_priority"
  by (simp_all add: rr_ops_def)

subsection \<open>What the operations do\<close>

definition rr_room :: "tid deque \<Rightarrow> bool" where
  "rr_room q \<longleftrightarrow> length (dq_list q) < dq_capacity q - 1"

lemma ignore_push_add:
  assumes "wf_deque q"
  shows "\<exists>q'. ignore_push (dq_add sd q t) = Inr q' \<and> wf_deque q' \<and> dq_capacity q' = dq_capacity q \<and>
    dq_list q' = (if rr_room q then add_at sd t (dq_list q) else dq_list q)"
proof (cases "rr_room q")
  case True
  then have room: "length (dq_list q) < dq_capacity q - 1" by (simp add: rr_room_def)
  show ?thesis
    using True assms dq_add_room [OF assms room, of sd t] push_commit_wf [OF assms room]
    by (intro exI [of _ "push_commit sd t q"]) (simp add: ignore_push_def)
next
  case False
  then have "length (dq_list q) = dq_capacity q - 1"
    using dq.list_bound [OF assms] by (simp add: rr_room_def)
  then show ?thesis using assms False dq_add_full [OF assms, of sd t]
    by (intro exI [of _ q]) (simp add: ignore_push_def)
qed

lemma popped_take:
  assumes "wf_deque q"
  shows "\<exists>q'. popped (pop_front q) = Inr (q', case dq_list q of [] \<Rightarrow> None | t # ts \<Rightarrow> Some t) \<and>
    wf_deque q' \<and> dq_capacity q' = dq_capacity q \<and> dq_list q' = tl (dq_list q)"
proof (cases "dq_list q")
  case Nil
  then show ?thesis using assms dq_take_empty [OF assms Nil, of Front]
    by (intro exI [of _ q]) (simp add: popped_def)
next
  case (Cons t ts)
  show ?thesis
  proof (rule dq_take_some [OF assms, of Front])
    show "dq_list q \<noteq> []" using Cons by simp
    fix x assume x: "dq_take Front q = Some (pop_commit Front q, PopSome x)" "wf_deque (pop_commit Front q)"
      "dq_list q = add_at Front x (dq_list (pop_commit Front q))"
      "dq_capacity (pop_commit Front q) = dq_capacity q"
    then show ?thesis by (intro exI [of _ "pop_commit Front q"]) (simp add: popped_def)
  qed
qed

lemma rr_add_list:
  assumes "wf_deque q"
  shows "\<exists>q'. rr_add_task t (q, st) = Inr (q', st) \<and> wf_deque q' \<and> dq_capacity q' = dq_capacity q \<and>
    dq_list q' = (if rr_room q then dq_list q @ [t] else dq_list q)"
  using ignore_push_add [OF assms, of Back t] by (fastforce simp: rr_add_task_def)

lemma rr_pick_list:
  assumes "wf_deque q"
  shows "\<exists>q'. rr_pick_next_task (q, st) =
      Inr ((q', st), case dq_list q of [] \<Rightarrow> None | t # ts \<Rightarrow> Some t) \<and>
    wf_deque q' \<and> dq_capacity q' = dq_capacity q \<and> dq_list q' = tl (dq_list q)"
  using popped_take [OF assms] by (fastforce simp: rr_pick_next_task_def)

definition rr_keeps_front :: "rr_task \<Rightarrow> bool \<Rightarrow> bool" where
  "rr_keeps_front i preempt \<longleftrightarrow> 0 < sint (time_slice i) \<and> preempt"

lemma rr_put_list:
  assumes "wf_deque q"
  shows "\<exists>q'. rr_put_prev_task S t p (q, st) =
      Inr (q', if rr_keeps_front (st t) p then st else st(t := reset_time_slice S (st t))) \<and>
    wf_deque q' \<and> dq_capacity q' = dq_capacity q \<and>
    dq_list q' = (if \<not> rr_room q then dq_list q
       else if rr_keeps_front (st t) p then t # dq_list q else dq_list q @ [t])"
proof (cases "rr_keeps_front (st t) p")
  case True
  then show ?thesis using ignore_push_add [OF assms, of Front t]
    by (fastforce simp: rr_put_prev_task_def rr_keeps_front_def)
next
  case False
  then show ?thesis using ignore_push_add [OF assms, of Back t]
    by (fastforce simp: rr_put_prev_task_def rr_keeps_front_def Let_def)
qed

interpretation rr: base_scheduler "rr_ops S" "\<lambda>q. mset (dq_list q)" wf_deque "\<lambda>_. True"
  "\<lambda>q. dq_capacity q - 1" "\<lambda>_. True" for S
proof (unfold_locales, goal_cases)
  case (1 q)
  then show ?case using dq.list_bound by simp
next
  case (2 q st t)
  then show ?case using rr_add_list [of q t st] by (auto simp: offer_def rr_room_def)
next
  case (3 q st t p)
  then show ?case using rr_put_list [of q S t p st] by (auto simp: offer_def rr_room_def)
next
  case (4 q st)
  then show ?case using rr_pick_list [of q st] by auto
next
  case (5 q st)
  then show ?case using rr_pick_list [of q st] by (cases "dq_list q") auto
next
  case (6 st t q)
  then show ?case by (auto simp: rr_task_tick_def Let_def)
next
  case (7 st t pr q)
  then show ?case by (auto simp: rr_set_priority_def)
qed

subsection \<open>Running a slice and running a round\<close>

text \<open>\<open>n\<close> timer ticks of one task, with the answers of \<^verbatim>\<open>task_tick\<close>.\<close>

fun rr_ticks :: "nat \<Rightarrow> tid \<Rightarrow> rr_state \<Rightarrow> (rr_state \<times> bool list) outcome" where
  "rr_ticks 0 t s = Inr (s, [])"
| "rr_ticks (Suc n) t s = bind_outcome (rr_task_tick t s) (\<lambda>(s', b).
     bind_outcome (rr_ticks n t s') (\<lambda>(s'', bs). Inr (s'', b # bs)))"

text \<open>A round: pick a task, let it use its whole slice, preempt it at the last tick.\<close>

definition rr_round :: "isize \<Rightarrow> rr_state \<Rightarrow> (rr_state \<times> tid option) outcome" where
  "rr_round S s = bind_outcome (rr_pick_next_task s) (\<lambda>(s1, r). case r of
     None \<Rightarrow> Inr (s1, None)
   | Some t \<Rightarrow> bind_outcome (rr_ticks (nat (sint S)) t s1) (\<lambda>(s2, bs).
       bind_outcome (rr_put_prev_task S t (last bs) s2) (\<lambda>s3. Inr (s3, Some t))))"

fun rr_rounds :: "isize \<Rightarrow> nat \<Rightarrow> rr_state \<Rightarrow> (rr_state \<times> tid option list) outcome" where
  "rr_rounds S 0 s = Inr (s, [])"
| "rr_rounds S (Suc n) s = bind_outcome (rr_round S s) (\<lambda>(s', r).
     bind_outcome (rr_rounds S n s') (\<lambda>(s'', rs). Inr (s'', r # rs)))"

lemma sint_minus_one:
  fixes x :: isize
  assumes "0 < sint x"
  shows "sint (x - 1) = sint x - 1"
  using assms sint_lt [of x] by (simp add: sint_word_ariths signed_take_bit_int_eq_self)

lemma rr_ticks_slice:
  assumes "time_slice (st t) = S" "0 < n" "int n \<le> sint S"
  shows "rr_ticks n t (q, st) = Inr ((q, st(t := \<lparr>time_slice = S - of_nat n\<rparr>)),
    replicate (n - 1) False @ [sint S \<le> int n])"
  using assms
proof (induction n arbitrary: S st)
  case (Suc n)
  let ?st = "st(t := (st t)\<lparr>time_slice := S - 1\<rparr>)"
  have tick: "rr_task_tick t (q, st) = Inr ((q, ?st), sint S \<le> 1)"
    using Suc.prems(1) by (simp add: rr_task_tick_def Let_def)
  have upd: "(st t)\<lparr>time_slice := x\<rparr> = \<lparr>time_slice = x\<rparr>" for x by simp
  show ?case
  proof (cases "n = 0")
    case True
    then show ?thesis using tick by (simp add: upd fun_upd_def)
  next
    case False
    have s1: "sint (S - 1) = sint S - 1" using Suc.prems(3) False by (intro sint_minus_one) simp
    have "rr_ticks n t (q, ?st) = Inr ((q, ?st(t := \<lparr>time_slice = S - 1 - of_nat n\<rparr>)),
        replicate (n - 1) False @ [sint S - 1 \<le> int n])"
      unfolding s1 [symmetric] by (rule Suc.IH) (use Suc.prems(3) False s1 in simp_all)
    moreover have "\<not> sint S \<le> 1" using Suc.prems(3) False by simp
    moreover have "False # replicate (n - 1) False = replicate n False"
      using False by (cases n) simp_all
    ultimately show ?thesis using tick
      by (simp add: algebra_simps flip: append_Cons) (simp add: fun_eq_iff)
  qed
qed simp

lemma rr_ticks_full:
  assumes "time_slice (st t) = S" "0 < sint S"
  shows "rr_ticks (nat (sint S)) t (q, st) = Inr ((q, st(t := \<lparr>time_slice = 0\<rparr>)),
    replicate (nat (sint S) - 1) False @ [True])"
  using rr_ticks_slice [of st t S "nat (sint S)" q] assms
  by (simp add: of_int_sint flip: of_int_of_nat_eq [of "nat (sint S)"])

lemma rr_round_list:
  assumes wf: "wf_deque q" and l: "dq_list q = t # ts" and S: "0 < sint S" "st t = rr_task_new S"
  shows "\<exists>q'. rr_round S (q, st) = Inr ((q', st), Some t) \<and> wf_deque q' \<and>
    dq_capacity q' = dq_capacity q \<and> dq_list q' = ts @ [t]"
proof -
  obtain q1 where q1: "rr_pick_next_task (q, st) = Inr ((q1, st), Some t)" "wf_deque q1"
    "dq_capacity q1 = dq_capacity q" "dq_list q1 = ts" using rr_pick_list [OF wf, of st] l by auto
  let ?st = "st(t := \<lparr>time_slice = 0\<rparr>)"
  have tk: "rr_ticks (nat (sint S)) t (q1, st) =
      Inr ((q1, ?st), replicate (nat (sint S) - 1) False @ [True])"
    using S by (intro rr_ticks_full) (simp_all add: rr_task_new_def)
  have room: "rr_room q1" using dq.list_bound [OF wf] l q1(3,4) by (simp add: rr_room_def)
  have nk: "\<not> rr_keeps_front (?st t) True" by (simp add: rr_keeps_front_def)
  have st: "?st(t := reset_time_slice S (?st t)) = st"
    using S(2) by (simp add: reset_time_slice_def rr_task_new_def fun_upd_idem)
  obtain q2 where "rr_put_prev_task S t True (q1, ?st) = Inr (q2, st)" "wf_deque q2"
    "dq_capacity q2 = dq_capacity q1" "dq_list q2 = ts @ [t]"
    using rr_put_list [OF q1(2), of S t True ?st] room nk st q1(4) by metis
  then show ?thesis using q1 tk by (simp add: rr_round_def)
qed

lemma rr_rounds_list:
  assumes "wf_deque q" "dq_list q \<noteq> []" "0 < sint S" "\<And>t. t \<in> set (dq_list q) \<Longrightarrow> st t = rr_task_new S"
  shows "\<exists>q'. rr_rounds S n (q, st) = Inr ((q', st), map (\<lambda>i. Some (hd (rotate i (dq_list q)))) [0..<n]) \<and>
    wf_deque q' \<and> dq_list q' = rotate n (dq_list q)"
  using assms
proof (induction n arbitrary: q)
  case (Suc n)
  obtain t ts where l: "dq_list q = t # ts" using Suc.prems(2) by (cases "dq_list q") auto
  obtain q1 where q1: "rr_round S (q, st) = Inr ((q1, st), Some t)" "wf_deque q1" "dq_list q1 = rotate1 (dq_list q)"
    using rr_round_list [OF Suc.prems(1) l Suc.prems(3), of st] Suc.prems(4) l by auto
  obtain q2 where "rr_rounds S n (q1, st) = Inr ((q2, st), map (\<lambda>i. Some (hd (rotate i (dq_list q1)))) [0..<n])"
    "wf_deque q2" "dq_list q2 = rotate n (dq_list q1)"
    using Suc.IH [OF q1(2)] Suc.prems q1(3) by auto
  moreover have "Some t # map (\<lambda>i. Some (hd (rotate i (rotate1 (dq_list q))))) [0..<n] =
      map (\<lambda>i. Some (hd (rotate i (dq_list q)))) [0..<Suc n]"
    using l by (simp add: upt_conv_Cons map_Suc_upt [symmetric] rotate1_rotate_swap del: upt_Suc)
  ultimately show ?case using q1 by (simp add: rotate1_rotate_swap)
qed simp

subsection \<open>Draining\<close>

lemma rr_pick_all_list:
  assumes "wf_deque q" "length (dq_list q) \<le> n"
  shows "\<exists>q'. pick_all (rr_ops S) n (q, st) = Inr ((q', st), dq_list q) \<and> wf_deque q' \<and> dq_list q' = []"
  using assms
proof (induction n arbitrary: q)
  case (Suc n)
  obtain q1 where q1: "rr_pick_next_task (q, st) =
      Inr ((q1, st), case dq_list q of [] \<Rightarrow> None | t # ts \<Rightarrow> Some t)" "wf_deque q1"
    "dq_list q1 = tl (dq_list q)" using rr_pick_list [OF Suc.prems(1), of st] by blast
  then show ?case using Suc.IH [of q1] Suc.prems(2) by (cases "dq_list q") auto
qed auto

lemma rr_add_all_list:
  assumes "wf_deque q"
  shows "\<exists>q'. add_all (rr_ops S) ts (q, st) = Inr (q', st) \<and> wf_deque q' \<and>
    dq_capacity q' = dq_capacity q \<and>
    dq_list q' = dq_list q @ take (dq_capacity q - 1 - length (dq_list q)) ts"
  using assms
proof (induction ts arbitrary: q)
  case (Cons t ts)
  obtain q1 where q1: "rr_add_task t (q, st) = Inr (q1, st)" "wf_deque q1" "dq_capacity q1 = dq_capacity q"
    "dq_list q1 = (if rr_room q then dq_list q @ [t] else dq_list q)"
    using rr_add_list [OF Cons.prems, of t st] by blast
  obtain q2 where "add_all (rr_ops S) ts (q1, st) = Inr (q2, st)" "wf_deque q2"
    "dq_capacity q2 = dq_capacity q1"
    "dq_list q2 = dq_list q1 @ take (dq_capacity q1 - 1 - length (dq_list q1)) ts"
    using Cons.IH [OF q1(2)] by blast
  then show ?case using q1 by (auto simp: rr_room_def take_Cons' diff_Suc split: nat.splits)
qed simp

subsection \<open>Properties\<close>

text \<open>A task that starts its turn with the full slice \<open>S\<close> is asked to reschedule exactly at its
  \<open>S\<close>-th timer tick: \<^verbatim>\<open>task_tick\<close> answers false \<open>S - 1\<close> times and then true, touches no other task and
  no ready queue, and leaves the slice at 0.\<close>

theorem rr_slice_expires:
  assumes "0 < sint S" "st t = rr_task_new S"
  shows "rr_ticks (nat (sint S)) t (q, st) =
    Inr ((q, st(t := \<lparr>time_slice = 0\<rparr>)), replicate (nat (sint S) - 1) False @ [True])"
  using assms by (intro rr_ticks_full) (simp_all add: rr_task_new_def)

theorem rr_slice_expires_witness:
  "rr_ticks 5 7 (dq_new 4, \<lambda>_. rr_task_new MAX_TIME_SLICE) =
    Inr ((dq_new 4, (\<lambda>_. rr_task_new MAX_TIME_SLICE)(7 := \<lparr>time_slice = 0\<rparr>)), [False, False, False, False, True])"
proof -
  have "sint MAX_TIME_SLICE = 5" by (simp add: MAX_TIME_SLICE_def)
  then show ?thesis
    using rr_slice_expires [of MAX_TIME_SLICE "\<lambda>_. rr_task_new MAX_TIME_SLICE" 7 "dq_new 4"]
    by (simp add: eval_nat_numeral del: rr_ticks.simps)
qed

text \<open>A preempted task that has slice left goes to the front of the ready queue with its slice
  untouched and is picked next; a task that yields, or whose slice is used up, gets a full slice
  and is picked after every waiting task. In both cases the other tasks keep their order.\<close>

theorem rr_put_prev_position:
  assumes "wf_deque q" "length (dq_list q) < dq_capacity q - 1"
  shows "\<exists>q' st' q''. rr_put_prev_task S t preempt (q, st) = Inr (q', st') \<and>
    (if 0 < sint (time_slice (st t)) \<and> preempt
     then st' = st \<and> dq_list q' = t # dq_list q
     else st' = st(t := rr_task_new S) \<and> dq_list q' = dq_list q @ [t]) \<and>
    pick_all (rr_ops S) (length (dq_list q) + 1) (q', st') = Inr ((q'', st'), dq_list q')"
proof -
  have reset: "reset_time_slice S i = rr_task_new S" for i by (simp add: reset_time_slice_def rr_task_new_def)
  obtain q' where q': "rr_put_prev_task S t preempt (q, st) =
      Inr (q', if rr_keeps_front (st t) preempt then st else st(t := rr_task_new S))" "wf_deque q'"
    "dq_list q' = (if rr_keeps_front (st t) preempt then t # dq_list q else dq_list q @ [t])"
    using rr_put_list [OF assms(1), of S t preempt st] assms(2) by (auto simp: rr_room_def reset)
  let ?st = "if rr_keeps_front (st t) preempt then st else st(t := rr_task_new S)"
  have "length (dq_list q') \<le> length (dq_list q) + 1" by (simp add: q'(3))
  from rr_pick_all_list [OF q'(2) this, of S ?st] obtain q'' where
    "pick_all (rr_ops S) (length (dq_list q) + 1) (q', ?st) = Inr ((q'', ?st), dq_list q')" by blast
  then show ?thesis using q' by (intro exI [of _ q'] exI [of _ ?st] exI [of _ q'']) (simp add: rr_keeps_front_def)
qed

theorem rr_put_prev_position_witness:
  "\<exists>q' st' q''. rr_put_prev_task 5 7 True (dq_new 4, \<lambda>_. rr_task_new 3) = Inr (q', st') \<and> st' 7 = rr_task_new 3 \<and>
    pick_all (rr_ops 5) 1 (q', st') = Inr ((q'', st'), [7])"
  using rr_put_prev_position [OF wf_dq_new [of 4], of 5 7 True "\<lambda>_. rr_task_new 3"]
  by (auto simp: rr_task_new_def simp del: pick_all.simps)

text \<open>C11: Fairness. When every waiting task starts with a full slice, round after round (pick, run a
  full slice, preempt, put back) serves the tasks of the ready queue cyclically in queue order: the
  \<open>i\<close>-th round runs task \<open>i mod length\<close>, so each task runs once in every \<open>length\<close> rounds, and after
  those the queue is as it was.\<close>

theorem rr_rounds_fair:
  assumes "wf_deque q" "dq_list q = xs" "xs \<noteq> []" "0 < sint S" "list_all (\<lambda>t. st t = rr_task_new S) xs"
  shows "\<exists>q'. rr_rounds S n (q, st) = Inr ((q', st), map (\<lambda>i. Some (xs ! (i mod length xs))) [0..<n]) \<and>
    wf_deque q' \<and> dq_list q' = rotate n xs"
  using rr_rounds_list [OF assms(1) _ assms(4), of st n] assms
  by (simp add: list_all_iff hd_rotate_conv_nth)

theorem rr_rounds_fair_witness:
  "\<exists>q q'. add_all (rr_ops 5) [7, 8, 9] (dq_new 4, \<lambda>_. rr_task_new 5) = Inr (q, \<lambda>_. rr_task_new 5) \<and>
    rr_rounds 5 4 (q, \<lambda>_. rr_task_new 5) =
      Inr ((q', \<lambda>_. rr_task_new 5), [Some 7, Some 8, Some 9, Some 7]) \<and> dq_list q' = [8, 9, 7]"
proof -
  obtain q where q: "add_all (rr_ops 5) [7, 8, 9] (dq_new 4, \<lambda>_. rr_task_new 5) = Inr (q, \<lambda>_. rr_task_new 5)"
    "wf_deque q" "dq_list q = [7, 8, 9]"
    using rr_add_all_list [OF wf_dq_new [of 4], of 5 "[7, 8, 9]" "\<lambda>_. rr_task_new 5"] by auto
  have p: "map (\<lambda>i. Some ([7, 8, 9] ! (i mod length [7, 8, 9 :: nat]))) [0..<4] = [Some (7 :: nat), Some 8, Some 9, Some 7]"
    "rotate 4 [7, 8, 9 :: nat] = [8, 9, 7]" by code_simp+
  have "\<exists>q'. rr_rounds 5 4 (q, \<lambda>_. rr_task_new 5) =
      Inr ((q', \<lambda>_. rr_task_new 5), map (\<lambda>i. Some ([7, 8, 9] ! (i mod length [7, 8, 9 :: nat]))) [0..<4]) \<and>
      wf_deque q' \<and> dq_list q' = rotate 4 [7, 8, 9]"
    by (rule rr_rounds_fair [OF q(2,3)]) simp_all
  then show ?thesis using q(1) unfolding p by blast
qed

text \<open>A ready queue of capacity \<open>cap\<close> takes \<open>cap - 1\<close> tasks: of any list of tasks added to an empty
  round-robin scheduler, exactly the first \<open>cap - 1\<close> are ever picked, in order. The rest are dropped
  without an error, because the result of the push is ignored; a task put back into a full queue is
  dropped in the same way.\<close>

theorem rr_full_drops:
  assumes "0 < cap"
  shows "\<exists>q q'. add_all (rr_ops S) ts (dq_new cap, st) = Inr (q, st) \<and>
    pick_all (rr_ops S) (length ts) (q, st) = Inr ((q', st), take (cap - 1) ts) \<and> dq_list q' = [] \<and>
    (length ts < cap - 1 \<or>
      (\<exists>q2 st2. rr_put_prev_task S t preempt (q, st) = Inr (q2, st2) \<and> dq_list q2 = dq_list q))"
proof -
  obtain q where q: "add_all (rr_ops S) ts (dq_new cap, st) = Inr (q, st)" "wf_deque q"
    "dq_capacity q = cap" "dq_list q = take (cap - 1) ts"
    using rr_add_all_list [OF wf_dq_new [OF assms], of S ts st] by auto
  obtain q' where "pick_all (rr_ops S) (length ts) (q, st) = Inr ((q', st), take (cap - 1) ts)" "dq_list q' = []"
    using rr_pick_all_list [OF q(2), of "length ts" S st] q(4) by auto
  moreover have "cap - 1 \<le> length ts \<Longrightarrow>
      \<exists>q2 st2. rr_put_prev_task S t preempt (q, st) = Inr (q2, st2) \<and> dq_list q2 = dq_list q"
    using rr_put_list [OF q(2), of S t preempt st] q(3,4) by (auto simp: rr_room_def)
  ultimately show ?thesis using q(1) by (meson not_less)
qed

theorem rr_full_drops_witness:
  "\<exists>q q'. add_all (rr_ops 5) [7, 8] (dq_new 2, \<lambda>_. rr_task_new 5) = Inr (q, \<lambda>_. rr_task_new 5) \<and>
    pick_all (rr_ops 5) 2 (q, \<lambda>_. rr_task_new 5) = Inr ((q', \<lambda>_. rr_task_new 5), [7])"
  using rr_full_drops [of 2 5 "[7, 8]" "\<lambda>_. rr_task_new 5" 0 False]
  by (auto simp: numeral_2_eq_2 simp del: pick_all.simps add_all.simps)

end
