(* ===== verification/Cfs.thy ===== *)
theory Cfs
  imports Sched_Spec BTreeMap_Spec "HOL-Library.Signed_Division"
begin

text \<open>
  The completely fair scheduler of \<^verbatim>\<open>scheduler/src/cfs.rs\<close>: tasks carry a virtual runtime and a nice
  value, and wait in the ordered map of \<^verbatim>\<open>utils/src/btreemap.rs\<close> under the key (vruntime, id), both
  signed. Arithmetic on \<^verbatim>\<open>isize\<close> wraps, as in a release build.
\<close>

subsection \<open>Weights and virtual runtime\<close>

record cfs_task =
  init_vruntime :: isize
  delta :: isize
  nice :: isize
  task_id :: isize

definition NICE_RANGE_POS :: nat where "NICE_RANGE_POS = 19"
definition NICE_RANGE_NEG :: nat where "NICE_RANGE_NEG = 20"

definition NICE2WEIGHT_POS :: "isize list" where
  "NICE2WEIGHT_POS = [1024, 820, 655, 526, 423, 335, 272, 215, 172, 137, 110, 87, 70, 56, 45, 36,
     29, 23, 18, 15]"

definition NICE2WEIGHT_NEG :: "isize list" where
  "NICE2WEIGHT_NEG = [1024, 1277, 1586, 1991, 2501, 3121, 3906, 4904, 6100, 7620, 9548, 11916,
     14949, 18705, 23254, 29154, 36291, 46273, 56483, 71755, 88761]"

definition cfs_task_new :: cfs_task where
  "cfs_task_new = \<lparr>init_vruntime = 0, delta = 0, nice = 0, task_id = 0\<rparr>"

text \<open>Indexing an array out of range panics.\<close>

definition index_array :: "'a list \<Rightarrow> usize \<Rightarrow> 'a outcome" where
  "index_array xs i = (if unat i < length xs then Inr (xs ! unat i) else Inl Panic)"

definition get_weight :: "cfs_task \<Rightarrow> isize outcome" where
  "get_weight i =
     (if 0 \<le> sint (nice i) then index_array NICE2WEIGHT_POS (nice i)
      else index_array NICE2WEIGHT_NEG (- nice i))"

definition isize_div :: "isize \<Rightarrow> isize \<Rightarrow> isize" where
  "isize_div a b = word_of_int (sint a sdiv sint b)"

definition get_vruntime :: "cfs_task \<Rightarrow> isize outcome" where
  "get_vruntime i =
     (if nice i = 0 then Inr (init_vruntime i + delta i)
      else bind_outcome (get_weight i) (\<lambda>w. Inr (init_vruntime i + isize_div (delta i * 1024) w)))"

definition set_vruntime :: "isize \<Rightarrow> cfs_task \<Rightarrow> cfs_task" where
  "set_vruntime v i = i\<lparr>init_vruntime := v\<rparr>"

definition set_id :: "isize \<Rightarrow> cfs_task \<Rightarrow> cfs_task" where
  "set_id n i = i\<lparr>task_id := n\<rparr>"

definition cfs_set_nice :: "isize \<Rightarrow> cfs_task \<Rightarrow> cfs_task outcome" where
  "cfs_set_nice n i = bind_outcome (get_vruntime i) (\<lambda>v.
     Inr (i\<lparr>init_vruntime := v, delta := 0, nice := n\<rparr>))"

definition cfs_tick_delta :: "cfs_task \<Rightarrow> cfs_task" where
  "cfs_tick_delta i = i\<lparr>delta := delta i + 1\<rparr>"

subsection \<open>Keys\<close>

datatype cfs_key = Key (key_vruntime: isize) (key_id: isize)

text \<open>The order of the tuple \<^verbatim>\<open>(isize, isize)\<close>: lexicographic and signed.\<close>

lemma sint_inject: "sint (a :: isize) = sint b \<longleftrightarrow> a = b"
  using signed_word_eqI by blast

instantiation cfs_key :: linorder
begin

definition less_eq_cfs_key :: "cfs_key \<Rightarrow> cfs_key \<Rightarrow> bool" where
  "less_eq_cfs_key a b \<longleftrightarrow> sint (key_vruntime a) < sint (key_vruntime b) \<or>
     key_vruntime a = key_vruntime b \<and> sint (key_id a) \<le> sint (key_id b)"

definition less_cfs_key :: "cfs_key \<Rightarrow> cfs_key \<Rightarrow> bool" where
  "less_cfs_key a b \<longleftrightarrow> sint (key_vruntime a) < sint (key_vruntime b) \<or>
     key_vruntime a = key_vruntime b \<and> sint (key_id a) < sint (key_id b)"

instance
  by standard (auto simp: less_eq_cfs_key_def less_cfs_key_def sint_inject not_less not_le intro: cfs_key.expand)

end

subsection \<open>The scheduler\<close>

record cfs_queue =
  ready_queue :: "(cfs_key, tid) btm"
  min_vruntime :: "isize option"
  id_pool :: isize

type_synonym cfs_state = "(cfs_queue, cfs_task) sched_state"

definition cfs_new :: "nat \<Rightarrow> cfs_queue" where
  "cfs_new cap = \<lparr>ready_queue = btm_new cap, min_vruntime = None, id_pool = 0\<rparr>"

text \<open>\<^verbatim>\<open>add_task\<close>; the result of \<^verbatim>\<open>insert\<close> is not looked at.\<close>

definition cfs_add_task :: "tid \<Rightarrow> cfs_state \<Rightarrow> cfs_state outcome" where
  "cfs_add_task t s =
     (let q = fst s;
          vruntime = (case min_vruntime q of None \<Rightarrow> 0 | Some v \<Rightarrow> v);
          taskid = id_pool q;
          st = (snd s)(t := set_id taskid (set_vruntime vruntime (snd s t)))
      in bind_outcome (btm_insert (Key vruntime taskid) t (ready_queue q)) (\<lambda>(rq, _).
         bind_outcome (first_key_value rq) (\<lambda>first.
           Inr (\<lparr>ready_queue = rq, min_vruntime = map_option (\<lambda>(k, _). key_vruntime k) first,
                 id_pool = id_pool q + 1\<rparr>, st))))"

definition cfs_pick_next_task :: "cfs_state \<Rightarrow> (cfs_state \<times> tid option) outcome" where
  "cfs_pick_next_task s =
     bind_outcome (pop_first (ready_queue (fst s))) (\<lambda>(rq, r).
       Inr (((fst s)\<lparr>ready_queue := rq\<rparr>, snd s), map_option snd r))"

definition cfs_put_prev_task :: "tid \<Rightarrow> bool \<Rightarrow> cfs_state \<Rightarrow> cfs_state outcome" where
  "cfs_put_prev_task prev preempt s =
     (let q = fst s; taskid = id_pool q; i = set_id taskid (snd s prev)
      in bind_outcome (get_vruntime i) (\<lambda>v.
         bind_outcome (btm_insert (Key v taskid) prev (ready_queue q)) (\<lambda>(rq, _).
           Inr (q\<lparr>ready_queue := rq, id_pool := taskid + 1\<rparr>, (snd s)(prev := i)))))"

definition cfs_task_tick :: "tid \<Rightarrow> cfs_state \<Rightarrow> (cfs_state \<times> bool) outcome" where
  "cfs_task_tick current s =
     (let q = fst s; i = cfs_tick_delta (snd s current); st = (snd s)(current := i)
      in if btm_is_empty (ready_queue q) then Inr ((q, st), False)
         else (case min_vruntime q of
                 None \<Rightarrow> Inr ((q, st), True)
               | Some m \<Rightarrow> bind_outcome (get_vruntime i) (\<lambda>v. Inr ((q, st), sint m < sint v))))"

definition cfs_set_priority :: "tid \<Rightarrow> isize \<Rightarrow> cfs_state \<Rightarrow> (cfs_state \<times> bool) outcome" where
  "cfs_set_priority t prio s =
     (if - 20 \<le> sint prio \<and> sint prio \<le> 19
      then bind_outcome (cfs_set_nice prio (snd s t)) (\<lambda>i. Inr ((fst s, (snd s)(t := i)), True))
      else Inr (s, False))"

definition cfs_ops :: "(cfs_queue, cfs_task) base_scheduler_ops" where
  "cfs_ops = \<lparr>add_task = cfs_add_task, pick_next_task = cfs_pick_next_task,
     put_prev_task = cfs_put_prev_task, task_tick = cfs_task_tick, set_priority = cfs_set_priority\<rparr>"

lemma cfs_ops_simps [simp]:
  "add_task cfs_ops = cfs_add_task" "pick_next_task cfs_ops = cfs_pick_next_task"
  "put_prev_task cfs_ops = cfs_put_prev_task" "task_tick cfs_ops = cfs_task_tick"
  "set_priority cfs_ops = cfs_set_priority"
  by (simp_all add: cfs_ops_def)

subsection \<open>Tasks: weights and virtual runtime\<close>

definition nice_ok :: "cfs_task \<Rightarrow> bool" where
  "nice_ok i \<longleftrightarrow> - 20 \<le> sint (nice i) \<and> sint (nice i) \<le> 19"

text \<open>The weight a valid nice value stands for.\<close>

definition weight_of :: "int \<Rightarrow> int" where
  "weight_of n = sint (if 0 \<le> n then NICE2WEIGHT_POS ! nat n else NICE2WEIGHT_NEG ! nat (- n))"


lemma unat_sint:
  assumes "0 \<le> sint (x :: isize)"
  shows "unat x = nat (sint x)"
proof -
  have "nat (sint x) < 2 ^ 64" using sint_lt [of x] assms by simp
  then show ?thesis using of_nat_inverse [of "nat (sint x)" x] assms by simp
qed

lemma unat_uminus:
  assumes "sint (x :: isize) < 0"
  shows "unat (- x) = nat (- sint x)"
proof -
  have "nat (- sint x) < 2 ^ 64" using sint_ge [of x] assms by simp
  then show ?thesis using of_nat_inverse [of "nat (- sint x)" "- x"] assms by simp
qed

text \<open>The weight lookup panics exactly when the nice value is out of range.\<close>

lemma get_weight_panic: "\<not> nice_ok i \<Longrightarrow> get_weight i = Inl Panic"
  by (auto simp: get_weight_def index_array_def nice_ok_def unat_sint unat_uminus
      NICE2WEIGHT_POS_def NICE2WEIGHT_NEG_def)

lemma get_weight_ok:
  assumes "nice_ok i"
  obtains w where "get_weight i = Inr w" "sint w = weight_of (sint (nice i))"
proof (cases "0 \<le> sint (nice i)")
  case True
  then have "unat (nice i) = nat (sint (nice i))" "nat (sint (nice i)) < 20"
    using assms by (simp_all add: unat_sint nice_ok_def)
  then show thesis using True
    by (intro that) (simp_all add: get_weight_def index_array_def weight_of_def NICE2WEIGHT_POS_def)
next
  case False
  then have "unat (- nice i) = nat (- sint (nice i))" "nat (- sint (nice i)) < 21"
    using assms False by (simp_all add: unat_uminus nice_ok_def)
  then show thesis using False
    by (intro that) (simp_all add: get_weight_def index_array_def weight_of_def NICE2WEIGHT_NEG_def)
qed

text \<open>The weights as one table over the nice values from -20 to 19.\<close>

definition weight_table :: "int list" where
  "weight_table = map sint (rev (tl NICE2WEIGHT_NEG) @ NICE2WEIGHT_POS)"

lemma weight_table_sorted: "sorted_wrt (>) weight_table" "length weight_table = 40" "last weight_table = 15"
  by code_simp+

lemma weight_of_table:
  assumes "- 20 \<le> n" "n \<le> 19"
  shows "weight_of n = weight_table ! nat (n + 20)"
proof -
  have "list_all (\<lambda>n. weight_of n = weight_table ! nat (n + 20)) [-20..19]" by code_simp
  then show ?thesis using assms unfolding list_all_iff by (metis atLeastAtMost_iff set_upto)
qed

lemma weight_of_less:
  assumes "- 20 \<le> m" "m < n" "n \<le> 19"
  shows "weight_of n < weight_of m"
  using assms sorted_wrt_nth_less [OF weight_table_sorted(1), of "nat (m + 20)" "nat (n + 20)"]
  by (simp add: weight_of_table weight_table_sorted(2))

lemma weight_of_ge: "- 20 \<le> n \<Longrightarrow> n \<le> 19 \<Longrightarrow> 15 \<le> weight_of n"
proof -
  assume n: "- 20 \<le> n" "n \<le> 19"
  have "weight_of 19 = 15" by code_simp
  then show "15 \<le> weight_of n" using n weight_of_less [of n 19] by (cases "n = 19") auto
qed

lemma get_vruntime_ok:
  assumes "nice_ok i"
  obtains v where "get_vruntime i = Inr v"
  using get_weight_ok [OF assms] by (metis bind_outcome_Inr get_vruntime_def)

subsection \<open>The tasks in the ready queue\<close>

definition map_values :: "('k \<Rightarrow> 'v option) \<Rightarrow> 'v multiset" where
  "map_values f = image_mset (\<lambda>k. the (f k)) (mset_set (dom f))"

lemma map_values_cong: "(\<And>k. k \<in> A \<Longrightarrow> f k = g k) \<Longrightarrow>
    image_mset (\<lambda>k. the (f k)) (mset_set A) = image_mset (\<lambda>k. the (g k)) (mset_set A)"
  by (cases "finite A") (auto intro: image_mset_cong)

lemma map_values_insert:
  assumes "finite (dom f)" "f k = None"
  shows "map_values (f(k \<mapsto> v)) = add_mset v (map_values f)"
proof -
  have "k \<notin> dom f" using assms(2) by blast
  moreover have "image_mset (\<lambda>x. the ((f(k \<mapsto> v)) x)) (mset_set (dom f)) =
      image_mset (\<lambda>x. the (f x)) (mset_set (dom f))"
    using assms(2) by (intro map_values_cong) (auto simp: domIff)
  ultimately show ?thesis using assms(1) by (simp add: map_values_def)
qed

lemma map_values_remove:
  assumes "finite (dom f)" "f k = Some v"
  shows "map_values f = add_mset v (map_values (f(k := None)))"
  using map_values_insert [of "f(k := None)" k v] assms by (simp add: fun_upd_idem)

lemma size_map_values: "size (map_values f) = card (dom f)"
  by (cases "finite (dom f)") (simp_all add: map_values_def)

lemma map_values_empty_iff: "finite (dom f) \<Longrightarrow> map_values f = {#} \<longleftrightarrow> dom f = {}"
  by (simp add: map_values_def mset_set_empty_iff)

definition cfs_wf :: "cfs_queue \<Rightarrow> bool" where
  "cfs_wf q \<longleftrightarrow> wf_btm (ready_queue q)"

definition cfs_queued :: "cfs_queue \<Rightarrow> tid multiset" where
  "cfs_queued q = map_values (btm_map (ready_queue q))"

text \<open>The next id does not collide with a queued key; it holds until the 64-bit id pool has wrapped.\<close>

definition cfs_fresh :: "cfs_queue \<Rightarrow> bool" where
  "cfs_fresh q \<longleftrightarrow> id_pool q \<notin> key_id ` dom (btm_map (ready_queue q))"

lemma cfs_insert_values:
  fixes m :: "('k::linorder, tid) btm"
  assumes "wf_btm m" "btm_map m k = None"
  shows "\<exists>m' r. btm_insert k t m = Inr (m', r) \<and> wf_btm m' \<and> btm_capacity m' = btm_capacity m \<and>
    btm_map m' = map_insert (btm_capacity m) (btm_map m) k t \<and>
    map_values (btm_map m') = offer (btm_capacity m) t (map_values (btm_map m))"
proof -
  note fin = om.finite_abs [OF assms(1)]
  have "map_values (map_insert (btm_capacity m) (btm_map m) k t) =
      offer (btm_capacity m) t (map_values (btm_map m))"
    using map_values_insert [OF fin assms(2)] assms(2)
    by (simp add: map_insert_def insert_result_def offer_def size_map_values)
  then show ?thesis using om.insE [OF assms(1), of k t] by metis
qed

lemma fresh_absent: "cfs_fresh q \<Longrightarrow> btm_map (ready_queue q) (Key v (id_pool q)) = None"
  by (force simp: cfs_fresh_def)

lemma cfs_add_spec:
  assumes "cfs_wf q" "cfs_fresh q"
  defines "v \<equiv> case min_vruntime q of None \<Rightarrow> 0 | Some v \<Rightarrow> v"
  shows "\<exists>rq. cfs_add_task t (q, st) = Inr (\<lparr>ready_queue = rq,
        min_vruntime = map_option (\<lambda>(k, _). key_vruntime k) (map_min (btm_map rq)), id_pool = id_pool q + 1\<rparr>,
      st(t := set_id (id_pool q) (set_vruntime v (st t)))) \<and>
    wf_btm rq \<and> btm_capacity rq = btm_capacity (ready_queue q) \<and>
    btm_map rq = map_insert (btm_capacity rq) (btm_map (ready_queue q)) (Key v (id_pool q)) t \<and>
    map_values (btm_map rq) = offer (btm_capacity rq) t (cfs_queued q)"
proof -
  obtain rq r where rq: "btm_insert (Key v (id_pool q)) t (ready_queue q) = Inr (rq, r)" "wf_btm rq"
    "btm_capacity rq = btm_capacity (ready_queue q)"
    "btm_map rq = map_insert (btm_capacity (ready_queue q)) (btm_map (ready_queue q)) (Key v (id_pool q)) t"
    "map_values (btm_map rq) = offer (btm_capacity (ready_queue q)) t (cfs_queued q)"
    using cfs_insert_values [OF _ fresh_absent [OF assms(2)], of v t] assms(1)
    by (auto simp: cfs_wf_def cfs_queued_def)
  have "cfs_add_task t (q, st) = Inr (\<lparr>ready_queue = rq,
        min_vruntime = map_option (\<lambda>(k, _). key_vruntime k) (map_min (btm_map rq)), id_pool = id_pool q + 1\<rparr>,
      st(t := set_id (id_pool q) (set_vruntime v (st t))))"
    using rq(1) first_key_value_spec [OF rq(2)] by (simp add: cfs_add_task_def Let_def v_def)
  then show ?thesis using rq by auto
qed

lemma cfs_put_spec:
  assumes "cfs_wf q" "cfs_fresh q" "nice_ok (st t)"
  shows "\<exists>rq v. get_vruntime (st t) = Inr v \<and>
    cfs_put_prev_task t p (q, st) = Inr (q\<lparr>ready_queue := rq, id_pool := id_pool q + 1\<rparr>,
      st(t := set_id (id_pool q) (st t))) \<and>
    wf_btm rq \<and> btm_capacity rq = btm_capacity (ready_queue q) \<and>
    btm_map rq = map_insert (btm_capacity rq) (btm_map (ready_queue q)) (Key v (id_pool q)) t \<and>
    map_values (btm_map rq) = offer (btm_capacity rq) t (cfs_queued q)"
proof -
  obtain v where v: "get_vruntime (st t) = Inr v" using get_vruntime_ok [OF assms(3)] .
  have "get_vruntime (set_id n i) = get_vruntime i" for n i
    by (simp add: get_vruntime_def get_weight_def set_id_def)
  then have v': "get_vruntime (set_id (id_pool q) (st t)) = Inr v" using v by simp
  obtain rq r where rq: "btm_insert (Key v (id_pool q)) t (ready_queue q) = Inr (rq, r)" "wf_btm rq"
    "btm_capacity rq = btm_capacity (ready_queue q)"
    "btm_map rq = map_insert (btm_capacity (ready_queue q)) (btm_map (ready_queue q)) (Key v (id_pool q)) t"
    "map_values (btm_map rq) = offer (btm_capacity (ready_queue q)) t (cfs_queued q)"
    using cfs_insert_values [OF _ fresh_absent [OF assms(2)], of v t] assms(1)
    by (auto simp: cfs_wf_def cfs_queued_def)
  have "cfs_put_prev_task t p (q, st) = Inr (q\<lparr>ready_queue := rq, id_pool := id_pool q + 1\<rparr>,
      st(t := set_id (id_pool q) (st t)))"
    using rq(1) v' by (simp add: cfs_put_prev_task_def Let_def)
  then show ?thesis using rq v by auto
qed

lemma cfs_pick_spec:
  assumes "cfs_wf q"
  shows "\<exists>rq. cfs_pick_next_task (q, st) =
      Inr ((q\<lparr>ready_queue := rq\<rparr>, st), map_option snd (map_min (btm_map (ready_queue q)))) \<and>
    wf_btm rq \<and> btm_capacity rq = btm_capacity (ready_queue q) \<and>
    btm_map rq = map_pop (btm_map (ready_queue q))"
  using om.popE [OF assms [unfolded cfs_wf_def]] by (fastforce simp: cfs_pick_next_task_def)

lemma cfs_tick_ok:
  assumes "nice_ok (st t)"
  shows "\<exists>b. cfs_task_tick t (q, st) = Inr ((q, st(t := cfs_tick_delta (st t))), b)"
proof -
  have "nice_ok (cfs_tick_delta (st t))" using assms by (simp add: nice_ok_def cfs_tick_delta_def)
  then obtain v where "get_vruntime (cfs_tick_delta (st t)) = Inr v" by (rule get_vruntime_ok)
  then show ?thesis by (auto simp: cfs_task_tick_def Let_def split: option.split)
qed

lemma cfs_prio_ok:
  assumes "nice_ok (st t)"
  shows "\<exists>v. get_vruntime (st t) = Inr v \<and> cfs_set_priority t pr (q, st) =
    (if - 20 \<le> sint pr \<and> sint pr \<le> 19
     then Inr ((q, st(t := (st t)\<lparr>init_vruntime := v, delta := 0, nice := pr\<rparr>)), True)
     else Inr ((q, st), False))"
  using get_vruntime_ok [OF assms] by (fastforce simp: cfs_set_priority_def cfs_set_nice_def)

interpretation cfs: base_scheduler cfs_ops cfs_queued cfs_wf nice_ok
  "\<lambda>q. btm_capacity (ready_queue q)" cfs_fresh
proof (unfold_locales, goal_cases)
  case (1 q)
  then show ?case using length_pairs_le [of "ready_queue q"] card_dom_btm_map [of "ready_queue q"]
    by (simp add: cfs_queued_def size_map_values cfs_wf_def)
next
  case (2 q st t)
  then have ok: "\<forall>u. nice_ok ((st(t := set_id n (set_vruntime v (st t)))) u)" for n v
    by (simp add: nice_ok_def set_id_def set_vruntime_def)
  obtain rq where "cfs_add_task t (q, st) = Inr (\<lparr>ready_queue = rq,
        min_vruntime = map_option (\<lambda>(k, _). key_vruntime k) (map_min (btm_map rq)), id_pool = id_pool q + 1\<rparr>,
      st(t := set_id (id_pool q) (set_vruntime (case min_vruntime q of None \<Rightarrow> 0 | Some v \<Rightarrow> v) (st t))))"
    "wf_btm rq" "btm_capacity rq = btm_capacity (ready_queue q)"
    "map_values (btm_map rq) = offer (btm_capacity rq) t (cfs_queued q)"
    using cfs_add_spec [OF 2(1,2), of t st] by blast
  then show ?case using ok by (simp add: cfs_wf_def cfs_queued_def)
next
  case (3 q st t p)
  then have ok: "\<forall>u. nice_ok ((st(t := set_id n (st t))) u)" for n by (simp add: nice_ok_def set_id_def)
  obtain rq where "cfs_put_prev_task t p (q, st) = Inr (q\<lparr>ready_queue := rq, id_pool := id_pool q + 1\<rparr>,
      st(t := set_id (id_pool q) (st t)))"
    "wf_btm rq" "btm_capacity rq = btm_capacity (ready_queue q)"
    "map_values (btm_map rq) = offer (btm_capacity rq) t (cfs_queued q)"
    using cfs_put_spec [OF 3(1,2), of st t p] 3(3) by blast
  then show ?case using ok by (simp add: cfs_wf_def cfs_queued_def)
next
  case (4 q st)
  then have "dom (btm_map (ready_queue q)) = {}"
    using map_values_empty_iff [OF om.finite_abs, of "ready_queue q"]
    unfolding cfs_queued_def cfs_wf_def by blast
  then show ?case using cfs_pick_spec [OF 4(1), of st]
    by (auto simp: cfs_wf_def cfs_queued_def map_min_def map_pop_def map_values_def)
next
  case (5 q st)
  let ?f = "btm_map (ready_queue q)"
  have fin: "finite (dom ?f)" using 5(1) om.finite_abs by (simp add: cfs_wf_def)
  then have ne: "dom ?f \<noteq> {}" using 5(2) map_values_empty_iff [OF fin] unfolding cfs_queued_def by blast
  then obtain t where t: "?f (Min (dom ?f)) = Some t" using Min_in [OF fin ne] by blast
  then show ?case using cfs_pick_spec [OF 5(1), of st] map_values_remove [OF fin t] ne
    by (auto simp: cfs_wf_def cfs_queued_def map_min_def map_pop_def)
next
  case (6 st t q)
  then show ?case using cfs_tick_ok [of st t q] by (fastforce simp: nice_ok_def cfs_tick_delta_def)
next
  case (7 st t pr q)
  then show ?case using cfs_prio_ok [of st t pr q] by (auto simp: nice_ok_def split: if_splits)
qed

subsection \<open>Order of service\<close>

text \<open>Putting back a list of tasks, and the entries this makes.\<close>

fun cfs_put_all :: "tid list \<Rightarrow> cfs_state \<Rightarrow> cfs_state outcome" where
  "cfs_put_all [] s = Inr s"
| "cfs_put_all (t # ts) s = bind_outcome (cfs_put_prev_task t False s) (cfs_put_all ts)"

definition vruntime_of :: "cfs_task \<Rightarrow> isize" where
  "vruntime_of i = (case get_vruntime i of Inr v \<Rightarrow> v | Inl _ \<Rightarrow> 0)"

fun entries_from :: "isize \<Rightarrow> (tid \<Rightarrow> isize) \<Rightarrow> tid list \<Rightarrow> (cfs_key \<times> tid) list" where
  "entries_from n vr [] = []"
| "entries_from n vr (t # ts) = (Key (vr t) n, t) # entries_from (n + 1) vr ts"

lemma get_vruntime_id [simp]: "get_vruntime (set_id n i) = get_vruntime i"
  "nice_ok (set_id n i) = nice_ok i"
  by (simp_all add: get_vruntime_def get_weight_def set_id_def nice_ok_def)

lemma cfs_put_all_fill:
  assumes "fill btm_insert (entries_from (id_pool q) (\<lambda>t. vruntime_of (st t)) ts) (ready_queue q) = Inr rq"
    "\<And>t. nice_ok (st t)"
  shows "\<exists>q' st'. cfs_put_all ts (q, st) = Inr (q', st') \<and> ready_queue q' = rq"
  using assms
proof (induction ts arbitrary: q st)
  case (Cons t ts)
  obtain v where v: "get_vruntime (st t) = Inr v" using get_vruntime_ok [OF Cons.prems(2)] .
  then have vo: "vruntime_of (st t) = v" by (simp add: vruntime_of_def)
  from Cons.prems(1) obtain rq1 r where ins: "btm_insert (Key v (id_pool q)) t (ready_queue q) = Inr (rq1, r)"
    and rest: "fill btm_insert (entries_from (id_pool q + 1) (\<lambda>t. vruntime_of (st t)) ts) rq1 = Inr rq"
    by (auto simp: bind_outcome_eq_Inr vo)
  let ?q = "q\<lparr>ready_queue := rq1, id_pool := id_pool q + 1\<rparr>" and ?st = "st(t := set_id (id_pool q) (st t))"
  have put: "cfs_put_prev_task t False (q, st) = Inr (?q, ?st)"
    using ins v by (simp add: cfs_put_prev_task_def Let_def)
  have "vruntime_of (?st u) = vruntime_of (st u)" for u by (simp add: vruntime_of_def)
  then have "\<exists>q' st'. cfs_put_all ts (?q, ?st) = Inr (q', st') \<and> ready_queue q' = rq"
    using rest Cons.prems(2) by (intro Cons.IH) simp_all
  then show ?case using put by simp
qed auto

lemma cfs_pick_all_drain:
  assumes "drain pop_first n (ready_queue q) = Inr ps"
  shows "\<exists>q'. pick_all cfs_ops n (q, st) = Inr ((q', st), map snd ps)"
  using assms
proof (induction n arbitrary: q ps)
  case (Suc n)
  then obtain rq r where pop: "pop_first (ready_queue q) = Inr (rq, r)" by (auto simp: bind_outcome_eq_Inr)
  then have pick: "cfs_pick_next_task (q, st) = Inr ((q\<lparr>ready_queue := rq\<rparr>, st), map_option snd r)"
    by (simp add: cfs_pick_next_task_def)
  show ?case
  proof (cases r)
    case None
    then show ?thesis using Suc.prems pop pick by simp
  next
    case (Some p)
    then obtain ps' where "ps = p # ps'" "drain pop_first n rq = Inr ps'"
      using Suc.prems pop by (auto simp: bind_outcome_eq_Inr)
    then show ?thesis using Suc.IH [of "q\<lparr>ready_queue := rq\<rparr>" ps'] pick Some by auto
  qed
qed auto

text \<open>Ids grow along the entries, so sorting by key is the stable sort by virtual runtime.\<close>

lemma entries_from_nth:
  "i < length ts \<Longrightarrow> entries_from n vr ts ! i = (Key (vr (ts ! i)) (n + of_nat i), ts ! i)"
proof (induction ts arbitrary: n i)
  case (Cons t ts)
  then show ?case by (cases i) (simp_all add: algebra_simps)
qed simp

lemma entries_from_simps [simp]:
  "length (entries_from n vr ts) = length ts" "map snd (entries_from n vr ts) = ts"
  by (induction ts arbitrary: n) simp_all


lemma sint_of_nat: "i < 2 ^ 63 \<Longrightarrow> sint (of_nat i :: isize) = int i"
  using sint_sbintrunc' [where 'a = 64, of "int i"] by (simp add: signed_take_bit_int_eq_self)

lemma entries_ids_sorted:
  assumes "length ts < 2 ^ 63"
  shows "sorted_wrt (\<lambda>a b. sint (key_id (fst a)) < sint (key_id (fst b))) (entries_from 0 vr ts)"
  unfolding sorted_wrt_iff_nth_less using assms by (simp add: entries_from_nth sint_of_nat)

lemma map_insort_key: "map f (insort_key (\<lambda>a. g (f a)) x xs) = insort_key g (f x) (map f xs)"
  by (induction xs) simp_all

lemma map_sort_key: "map f (sort_key (\<lambda>a. g (f a)) xs) = sort_key g (map f xs)"
  by (induction xs) (simp_all add: map_insort_key)

lemma insort_key_cong_on:
  "f x = g x \<Longrightarrow> (\<And>y. y \<in> set ys \<Longrightarrow> f y = g y) \<Longrightarrow> insort_key f x ys = insort_key g x ys"
  by (induction ys) simp_all

lemma sort_key_cong_on: "(\<And>x. x \<in> set xs \<Longrightarrow> f x = g x) \<Longrightarrow> sort_key f xs = sort_key g xs"
proof (induction xs)
  case (Cons x xs)
  then have "insort_key f x (sort_key g xs) = insort_key g x (sort_key g xs)"
    by (intro insort_key_cong_on) simp_all
  moreover have "sort_key f xs = sort_key g xs" using Cons by simp
  ultimately show ?case by simp
qed simp

lemma sort_entries:
  assumes "length ts < 2 ^ 63"
  shows "map snd (sort_key fst (entries_from 0 vr ts)) = sort_key (\<lambda>t. sint (vr t)) ts"
proof -
  let ?es = "entries_from 0 vr ts" and ?v = "\<lambda>e :: cfs_key \<times> tid. sint (key_vruntime (fst e))"
  have "sort_key ?v ?es = sort_key fst ?es"
  proof (rule properties_for_sort_key)
    show "mset (sort_key fst ?es) = mset ?es" by simp
    have "sorted_wrt (\<lambda>a b. fst a \<le> fst b) (sort_key fst ?es)"
      using sorted_sort_key [of fst ?es] by (simp add: sorted_map)
    then have "sorted_wrt (\<lambda>a b. ?v a \<le> ?v b) (sort_key fst ?es)"
      by (rule sorted_wrt_mono_rel [rotated]) (auto simp: less_eq_cfs_key_def)
    then show "sorted (map ?v (sort_key fst ?es))" by (simp add: sorted_map)
    fix k assume "k \<in> set (sort_key fst ?es)"
    have "sorted_wrt (\<lambda>a b. fst a \<le> fst b) (filter (\<lambda>e. ?v k = ?v e) ?es)"
      by (rule sorted_wrt_mono_rel [OF _ sorted_wrt_filter [OF entries_ids_sorted [OF assms]]])
        (auto simp: less_eq_cfs_key_def sint_inject)
    then show "filter (\<lambda>e. ?v k = ?v e) (sort_key fst ?es) = filter (\<lambda>e. ?v k = ?v e) ?es"
      by (simp add: filter_sort sort_key_id_if_sorted sorted_map)
  qed
  moreover have "sort_key ?v ?es = sort_key (\<lambda>e. sint (vr (snd e))) ?es"
    by (rule sort_key_cong_on) (auto simp: in_set_conv_nth entries_from_nth)
  ultimately have "sort_key fst ?es = sort_key (\<lambda>e. sint (vr (snd e))) ?es" by simp
  then show ?thesis using map_sort_key [of snd "\<lambda>t. sint (vr t)" ?es] by simp
qed

lemma distinct_entries: "length ts < 2 ^ 63 \<Longrightarrow> distinct (map fst (entries_from 0 vr ts))"
  unfolding distinct_conv_nth by (auto simp: entries_from_nth dest: arg_cong [where f = sint] simp: sint_of_nat)

subsection \<open>Virtual runtime without wrap-around\<close>

lemma sint_of_int:
  assumes "- (2 ^ 63) \<le> x" "x < 2 ^ 63"
  shows "sint (word_of_int x :: isize) = x"
  using assms sint_sbintrunc' [where 'a = 64, of x] by (simp add: signed_take_bit_int_eq_self)

lemma sint_add_exact:
  fixes a b :: isize
  assumes "- (2 ^ 63) \<le> sint a + sint b" "sint a + sint b < 2 ^ 63"
  shows "sint (a + b) = sint a + sint b"
  using sint_of_int [OF assms] by simp

lemma sint_mult_exact:
  fixes a :: isize
  assumes "0 \<le> sint a" "sint a < 2 ^ 52"
  shows "sint (a * 1024) = sint a * 1024"
  using sint_of_int [of "sint a * 1024"] assms by (simp add: wi_hom_mult)

lemma isize_div_exact:
  assumes "0 \<le> sint a" "0 < sint b"
  shows "sint (isize_div a b) = sint a div sint b"
proof -
  have "sint a div sint b \<le> sint a"
    using zdiv_mono2 [of "sint a" 1 "sint b"] assms by simp
  moreover have "0 \<le> sint a div sint b" using assms by (simp add: pos_imp_zdiv_nonneg_iff)
  ultimately have "sint (word_of_int (sint a div sint b) :: isize) = sint a div sint b"
    using sint_lt [of a] by (intro sint_of_int) simp_all
  moreover have "sint a sdiv sint b = sint a div sint b"
    using assms by (simp add: signed_divide_int_def sgn_if)
  ultimately show ?thesis by (simp add: isize_div_def)
qed

lemma sint_zero_iff: "nice i = 0 \<longleftrightarrow> sint (nice i) = 0"
  using sint_inject [of "nice i" 0] by simp

lemma get_vruntime_exact:
  assumes "nice_ok i" "0 \<le> sint (delta i)" "sint (delta i) < 2 ^ 52"
    "- (2 ^ 61) \<le> sint (init_vruntime i)" "sint (init_vruntime i) \<le> 2 ^ 61"
  shows "\<exists>v. get_vruntime i = Inr v \<and>
    sint v = sint (init_vruntime i) + sint (delta i) * 1024 div weight_of (sint (nice i))"
proof (cases "nice i = 0")
  case True
  have "weight_of 0 = 1024" by code_simp
  then show ?thesis using True assms by (simp add: get_vruntime_def sint_add_exact sint_zero_iff)
next
  case False
  obtain w where w: "get_weight i = Inr w" "sint w = weight_of (sint (nice i))"
    using get_weight_ok [OF assms(1)] .
  have w15: "15 \<le> sint w" using weight_of_ge assms(1) w(2) by (simp add: nice_ok_def)
  note m = sint_mult_exact [OF assms(2,3)]
  have "sint (isize_div (delta i * 1024) w) = sint (delta i) * 1024 div sint w"
    using isize_div_exact [of "delta i * 1024" w] m assms(2) w15 by simp
  moreover have "0 \<le> sint (delta i) * 1024 div sint w" using assms(2) w15
    by (simp add: pos_imp_zdiv_nonneg_iff)
  moreover have "sint (delta i) * 1024 div sint w < 2 ^ 62"
    using zdiv_mono2 [of "sint (delta i) * 1024" 1 "sint w"] assms(2,3) w15 by simp
  ultimately have "sint (init_vruntime i + isize_div (delta i * 1024) w) =
      sint (init_vruntime i) + sint (delta i) * 1024 div sint w"
    using assms(4,5) by (subst sint_add_exact) simp_all
  then show ?thesis using False w by (simp add: get_vruntime_def)
qed

subsection \<open>Properties\<close>

text \<open>The weight lookup returns exactly for nice values from -20 to 19 and panics outside, and
  among valid nice values a smaller one has a strictly larger weight, of at least 15: no valid task
  can make the division in \<^verbatim>\<open>get_vruntime\<close> fail.\<close>

theorem cfs_weights:
  "(get_weight i = Inl Panic \<longleftrightarrow> \<not> (- 20 \<le> sint (nice i) \<and> sint (nice i) \<le> 19)) \<and>
   (nice_ok i \<and> nice_ok j \<and> sint (nice i) < sint (nice j) \<longrightarrow>
     (\<exists>w w'. get_weight i = Inr w \<and> get_weight j = Inr w' \<and> 15 \<le> sint w' \<and> sint w' < sint w))"
proof (intro conjI impI)
  show "get_weight i = Inl Panic \<longleftrightarrow> \<not> (- 20 \<le> sint (nice i) \<and> sint (nice i) \<le> 19)"
  proof (cases "nice_ok i")
    case True
    then obtain w where "get_weight i = Inr w" by (rule get_weight_ok)
    then show ?thesis using True by (simp add: nice_ok_def)
  next
    case False
    then show ?thesis using get_weight_panic by (simp add: nice_ok_def)
  qed
  assume ij: "nice_ok i \<and> nice_ok j \<and> sint (nice i) < sint (nice j)"
  obtain w where w: "get_weight i = Inr w" "sint w = weight_of (sint (nice i))"
    using get_weight_ok [of i] ij by blast
  obtain w' where w': "get_weight j = Inr w'" "sint w' = weight_of (sint (nice j))"
    using get_weight_ok [of j] ij by blast
  show "\<exists>w w'. get_weight i = Inr w \<and> get_weight j = Inr w' \<and> 15 \<le> sint w' \<and> sint w' < sint w"
    using w w' ij weight_of_less [of "sint (nice i)" "sint (nice j)"] weight_of_ge [of "sint (nice j)"]
    by (auto simp: nice_ok_def)
qed

theorem cfs_weights_witness:
  "\<exists>w w'. get_weight cfs_task_new = Inr w \<and> get_weight (cfs_task_new\<lparr>nice := 1\<rparr>) = Inr w' \<and> sint w' < sint w"
  using cfs_weights [of cfs_task_new "cfs_task_new\<lparr>nice := 1\<rparr>"]
  by (auto simp: nice_ok_def cfs_task_new_def)

text \<open>For a valid nice value and runtimes that do not overflow, the virtual runtime is the initial
  value plus the consumed ticks scaled by 1024 over the weight, rounded down; at nice 0 every tick
  counts as one.\<close>

theorem cfs_vruntime_exact:
  assumes "nice_ok i" "0 \<le> sint (delta i)" "sint (delta i) < 2 ^ 52"
    "- (2 ^ 61) \<le> sint (init_vruntime i)" "sint (init_vruntime i) \<le> 2 ^ 61"
  shows "\<exists>v. get_vruntime i = Inr v \<and>
    sint v = sint (init_vruntime i) + sint (delta i) * 1024 div weight_of (sint (nice i)) \<and>
    (nice i = 0 \<longrightarrow> sint v = sint (init_vruntime i) + sint (delta i))"
proof -
  obtain v where v: "get_vruntime i = Inr v"
    "sint v = sint (init_vruntime i) + sint (delta i) * 1024 div weight_of (sint (nice i))"
    using get_vruntime_exact [OF assms] by blast
  have "weight_of 0 = 1024" by code_simp
  then show ?thesis using v by auto
qed

theorem cfs_vruntime_exact_witness:
  "\<exists>v. get_vruntime \<lparr>init_vruntime = 100, delta = 30, nice = - 5, task_id = 0\<rparr> = Inr v \<and> sint v = 109"
proof -
  have "weight_of (- 5) = 3121" by code_simp
  then show ?thesis
    using cfs_vruntime_exact [of "\<lparr>init_vruntime = 100, delta = 30, nice = - 5, task_id = 0\<rparr>"]
    by (simp add: nice_ok_def)
qed

text \<open>\<^verbatim>\<open>set_priority\<close> accepts exactly the nice values from -20 to 19. Accepting one changes the
  nice value and keeps the virtual runtime of the task; refusing one changes nothing. Other tasks
  and the ready queue are untouched.\<close>

theorem cfs_set_priority_keeps_vruntime:
  assumes "nice_ok (st t)"
  shows "\<exists>i. cfs_set_priority t pr (q, st) =
      Inr ((q, st(t := i)), - 20 \<le> sint pr \<and> sint pr \<le> 19) \<and>
    get_vruntime i = get_vruntime (st t) \<and>
    (if - 20 \<le> sint pr \<and> sint pr \<le> 19 then nice i = pr \<and> delta i = 0 else i = st t)"
proof -
  obtain v where v: "get_vruntime (st t) = Inr v" "cfs_set_priority t pr (q, st) =
    (if - 20 \<le> sint pr \<and> sint pr \<le> 19
     then Inr ((q, st(t := (st t)\<lparr>init_vruntime := v, delta := 0, nice := pr\<rparr>)), True)
     else Inr ((q, st), False))" using cfs_prio_ok [of st t pr q, OF assms] by blast
  show ?thesis
  proof (cases "- 20 \<le> sint pr \<and> sint pr \<le> 19")
    case True
    let ?i = "(st t)\<lparr>init_vruntime := v, delta := 0, nice := pr\<rparr>"
    have "nice_ok ?i" using True by (simp add: nice_ok_def)
    then obtain w where "get_weight ?i = Inr w" by (rule get_weight_ok)
    then have "get_vruntime ?i = Inr v" by (simp add: get_vruntime_def isize_div_def)
    then show ?thesis using True v by (intro exI [of _ ?i]) simp
  next
    case False
    then show ?thesis using v by (intro exI [of _ "st t"]) (auto simp: fun_upd_idem)
  qed
qed

theorem cfs_set_priority_keeps_vruntime_witness:
  "\<exists>i. cfs_set_priority 3 (- 5) (cfs_new 4, \<lambda>_. cfs_task_new\<lparr>delta := 7\<rparr>) =
      Inr ((cfs_new 4, (\<lambda>_. cfs_task_new\<lparr>delta := 7\<rparr>)(3 := i)), True) \<and>
    get_vruntime i = Inr 7 \<and> nice i = - 5"
proof -
  have "get_vruntime (cfs_task_new\<lparr>delta := 7\<rparr>) = Inr 7" by (simp add: get_vruntime_def cfs_task_new_def)
  then show ?thesis
    using cfs_set_priority_keeps_vruntime [of "\<lambda>_. cfs_task_new\<lparr>delta := 7\<rparr>" 3 "- 5" "cfs_new 4"]
    by (auto simp: nice_ok_def cfs_task_new_def)
qed

text \<open>C10: Tasks put back into an empty CFS scheduler are picked in the order of their virtual runtimes
  (signed), and tasks of equal virtual runtime in the order they were put back; none is lost.\<close>

theorem cfs_serves_by_vruntime:
  assumes "length ts \<le> cap" "cap < 2 ^ 63" "\<And>t. nice_ok (st t)"
  shows "\<exists>q st' q'. cfs_put_all ts (cfs_new cap, st) = Inr (q, st') \<and>
    pick_all cfs_ops (length ts) (q, st') =
      Inr ((q', st'), sort_key (\<lambda>t. sint (vruntime_of (st t))) ts)"
proof -
  let ?es = "entries_from 0 (\<lambda>t. vruntime_of (st t)) ts"
  have l: "length ts < 2 ^ 63" using assms(1,2) by simp
  have "bind_outcome (fill btm_insert ?es (btm_new cap)) (drain pop_first (length ?es)) = Inr (sort_key fst ?es)"
    using assms(1,2) distinct_entries [OF l] by (intro om.fill_drain wf_btm_new) simp_all
  then obtain rq where rq: "fill btm_insert ?es (btm_new cap) = Inr rq"
    "drain pop_first (length ts) rq = Inr (sort_key fst ?es)" by (auto simp: bind_outcome_eq_Inr)
  then have "fill btm_insert (entries_from (id_pool (cfs_new cap)) (\<lambda>t. vruntime_of (st t)) ts)
      (ready_queue (cfs_new cap)) = Inr rq" by (simp add: cfs_new_def)
  from cfs_put_all_fill [OF this assms(3)] obtain q st' where q:
    "cfs_put_all ts (cfs_new cap, st) = Inr (q, st')" "ready_queue q = rq" by blast
  obtain q' where "pick_all cfs_ops (length ts) (q, st') = Inr ((q', st'), map snd (sort_key fst ?es))"
    using cfs_pick_all_drain [of "length ts" q "sort_key fst ?es" st'] rq(2) q(2) by blast
  then show ?thesis using q(1) unfolding sort_entries [OF l] by blast
qed

definition three_tasks :: "tid \<Rightarrow> cfs_task" where
  "three_tasks t = cfs_task_new\<lparr>init_vruntime := (if t = 1 then 50 else if t = 2 then - 4 else 7)\<rparr>"

theorem cfs_serves_by_vruntime_witness:
  "\<exists>q st' q'. cfs_put_all [1, 2, 3, 4] (cfs_new 8, three_tasks) = Inr (q, st') \<and>
    pick_all cfs_ops 4 (q, st') = Inr ((q', st'), [2, 3, 4, 1])"
proof -
  have s: "sort_key (\<lambda>t. sint (vruntime_of (three_tasks t))) [1, 2, 3, 4] = [2, 3, 4, 1]" by code_simp
  have l: "length [1, 2, 3, 4 :: tid] = 4" by simp
  have "nice_ok (three_tasks t)" for t by (simp add: nice_ok_def three_tasks_def cfs_task_new_def)
  then have "\<exists>q st' q'. cfs_put_all [1, 2, 3, 4] (cfs_new 8, three_tasks) = Inr (q, st') \<and>
      pick_all cfs_ops (length [1, 2, 3, 4 :: tid]) (q, st') =
        Inr ((q', st'), sort_key (\<lambda>t. sint (vruntime_of (three_tasks t))) [1, 2, 3, 4])"
    by (intro cfs_serves_by_vruntime) simp_all
  then show ?thesis unfolding l s .
qed

text \<open>\<^verbatim>\<open>add_task\<close> queues a new task under the recorded minimum virtual runtime (0 for the first task)
  with a fresh id, sets both in the task, and records the least virtual runtime in the queue as the
  new minimum; on a full queue the task is dropped without an error.\<close>

theorem cfs_add_task_correct:
  assumes "cfs_wf q" "cfs_fresh q"
  shows "\<exists>q'. let v = (case min_vruntime q of None \<Rightarrow> 0 | Some v \<Rightarrow> v); f = btm_map (ready_queue q) in
    cfs_add_task t (q, st) = Inr (q', st(t := (st t)\<lparr>init_vruntime := v, task_id := id_pool q\<rparr>)) \<and>
    cfs_wf q' \<and> id_pool q' = id_pool q + 1 \<and>
    (if card (dom f) < btm_capacity (ready_queue q)
     then btm_map (ready_queue q') = f(Key v (id_pool q) \<mapsto> t) \<and>
       min_vruntime q' = Some (key_vruntime (Min (insert (Key v (id_pool q)) (dom f))))
     else btm_map (ready_queue q') = f)"
proof -
  define v where "v = (case min_vruntime q of None \<Rightarrow> 0 | Some v \<Rightarrow> v)"
  obtain rq where rq: "cfs_add_task t (q, st) = Inr (\<lparr>ready_queue = rq,
        min_vruntime = map_option (\<lambda>(k, _). key_vruntime k) (map_min (btm_map rq)), id_pool = id_pool q + 1\<rparr>,
      st(t := set_id (id_pool q) (set_vruntime v (st t))))"
    "wf_btm rq" "btm_capacity rq = btm_capacity (ready_queue q)"
    "btm_map rq = map_insert (btm_capacity rq) (btm_map (ready_queue q)) (Key v (id_pool q)) t"
    using cfs_add_spec [OF assms, of t st] unfolding v_def by blast
  have k: "btm_map (ready_queue q) (Key v (id_pool q)) = None" using fresh_absent [OF assms(2)] .
  have m: "btm_map rq = (if card (dom (btm_map (ready_queue q))) < btm_capacity (ready_queue q)
      then (btm_map (ready_queue q))(Key v (id_pool q) \<mapsto> t) else btm_map (ready_queue q))"
    using rq(3,4) k by (simp add: map_insert_def insert_result_def)
  have "set_id (id_pool q) (set_vruntime v (st t)) = (st t)\<lparr>init_vruntime := v, task_id := id_pool q\<rparr>"
    by (simp add: set_id_def set_vruntime_def)
  with rq(1,2) m show ?thesis unfolding Let_def v_def [symmetric]
    by (intro exI [of _ "\<lparr>ready_queue = rq,
        min_vruntime = map_option (\<lambda>(k, _). key_vruntime k) (map_min (btm_map rq)), id_pool = id_pool q + 1\<rparr>"])
      (simp add: cfs_wf_def map_min_def)
qed

theorem cfs_add_task_correct_witness:
  "\<exists>q'. cfs_add_task 3 (cfs_new 4, \<lambda>_. cfs_task_new) = Inr (q', \<lambda>_. cfs_task_new\<lparr>task_id := 0\<rparr>) \<and>
     btm_map (ready_queue q') = [Key 0 0 \<mapsto> 3] \<and> min_vruntime q' = Some 0"
proof -
  have "cfs_wf (cfs_new 4)" "cfs_fresh (cfs_new 4)"
    by (simp_all add: cfs_wf_def cfs_new_def wf_btm_new cfs_fresh_def)
  from cfs_add_task_correct [OF this, of 3 "\<lambda>_. cfs_task_new"] obtain q' where
    "cfs_add_task 3 (cfs_new 4, \<lambda>_. cfs_task_new) =
       Inr (q', (\<lambda>_. cfs_task_new)(3 := cfs_task_new\<lparr>init_vruntime := 0, task_id := 0\<rparr>))"
    "btm_map (ready_queue q') = [Key 0 0 \<mapsto> 3]" "min_vruntime q' = Some 0"
    by (simp add: cfs_new_def Let_def) blast
  moreover have "cfs_task_new\<lparr>init_vruntime := 0, task_id := 0\<rparr> = cfs_task_new"
    "cfs_task_new\<lparr>task_id := 0\<rparr> = cfs_task_new" by (simp_all add: cfs_task_new_def)
  ultimately show ?thesis by (metis fun_upd_triv)
qed

subsubsection \<open>The recorded minimum is stale\<close>

text \<open>A run of scheduler calls; a picked task is whatever the queue gives.\<close>

datatype cfs_call = CAdd tid | CPick | CPut tid | CTick tid

fun do_cfs_call :: "cfs_call \<Rightarrow> cfs_state \<Rightarrow> (cfs_state \<times> tid option \<times> bool) outcome" where
  "do_cfs_call (CAdd t) s = bind_outcome (cfs_add_task t s) (\<lambda>s. Inr (s, None, False))"
| "do_cfs_call CPick s = bind_outcome (cfs_pick_next_task s) (\<lambda>(s, r). Inr (s, r, False))"
| "do_cfs_call (CPut t) s = bind_outcome (cfs_put_prev_task t True s) (\<lambda>s. Inr (s, None, False))"
| "do_cfs_call (CTick t) s = bind_outcome (cfs_task_tick t s) (\<lambda>(s, b). Inr (s, None, b))"

fun cfs_calls :: "cfs_call list \<Rightarrow> cfs_state \<Rightarrow> (cfs_state \<times> (tid option \<times> bool) list) outcome" where
  "cfs_calls [] s = Inr (s, [])"
| "cfs_calls (c # cs) s = bind_outcome (do_cfs_call c s) (\<lambda>(s', r).
     bind_outcome (cfs_calls cs s') (\<lambda>(s'', rs). Inr (s'', r # rs)))"

definition stale_run :: "cfs_call list" where
  "stale_run = [CAdd 1, CPick, CTick 1, CTick 1, CPut 1, CAdd 2, CPick, CTick 2]"

text \<open>C34: The recorded minimum virtual runtime is only refreshed by \<^verbatim>\<open>add_task\<close>, from the queue after
  the insertion, so it goes stale. A task runs to virtual runtime 2 and is put back; a second task
  added then starts at the old minimum 0, two ticks behind the waiting task, is picked first, and
  its first tick asks to reschedule although its virtual runtime is 1 and the only waiting task
  has 2.\<close>

theorem cfs_stale_minimum:
  "\<exists>s rs ps. cfs_calls stale_run (cfs_new 2, \<lambda>_. cfs_task_new) = Inr (s, rs) \<and>
    drop 6 rs = [(Some 2, False), (None, True)] \<and>
    btm_for_each (ready_queue (fst s)) = Inr ps \<and> map (key_vruntime \<circ> fst) ps = [2] \<and>
    get_vruntime (snd s 2) = Inr 1"
proof -
  let ?r = "cfs_calls stale_run (cfs_new 2, \<lambda>_. cfs_task_new)"
  have "(case ?r of Inr (s, rs) \<Rightarrow> drop 6 rs = [(Some 2, False), (None, True)] \<and>
      (case btm_for_each (ready_queue (fst s)) of Inr ps \<Rightarrow> map (key_vruntime \<circ> fst) ps = [2] | _ \<Rightarrow> False) \<and>
      get_vruntime (snd s 2) = Inr 1 | _ \<Rightarrow> False)"
    by code_simp
  then show ?thesis by (auto split: sum.splits)
qed

end
