(* ===== verification/Sched_Tests.thy ===== *)
theory Sched_Tests
  imports Scripts Fifo Round_Robin Cfs
begin

text \<open>
  The two tests of \<^verbatim>\<open>scheduler/src/tests.rs\<close>, written once for every scheduler as the macro
  \<^verbatim>\<open>def_test_sched!\<close> is, and the contract under which they pass: FIFO, round robin and CFS take turns in
  the same order as long as every task runs for one tick per turn.
\<close>

subsection \<open>The tests\<close>

fun turn_loop :: "('q, 'i) base_scheduler_ops \<Rightarrow> nat \<Rightarrow> nat list \<Rightarrow> ('q, 'i) sched_state \<Rightarrow>
    ('q, 'i) sched_state outcome" where
  "turn_loop ops N [] s = Inr s"
| "turn_loop ops N (i # is) s = bind_outcome (pick_next_task ops s) (\<lambda>(s1, r).
     case r of None \<Rightarrow> Inl Panic
     | Some t \<Rightarrow> bind_outcome (assert_outcome (t = i mod N)) (\<lambda>_.
         bind_outcome (task_tick ops t s1) (\<lambda>(s2, b).
         bind_outcome (put_prev_task ops t False s2) (turn_loop ops N is))))"

text \<open>\<^verbatim>\<open>NUM_TASKS\<close> is \<open>N\<close>, the scheduler is \<open>s0\<close>. The loop that drains the scheduler ends at the first
  \<open>None\<close>; \<open>N + 1\<close> picks are enough to see it.\<close>

definition test_sched :: "('q, 'i) base_scheduler_ops \<Rightarrow> nat \<Rightarrow> ('q, 'i) sched_state \<Rightarrow> unit outcome" where
  "test_sched ops N s0 =
     bind_outcome (add_all ops [0..<N] s0) (\<lambda>s.
     bind_outcome (turn_loop ops N [0..<N * 10 - 1] s) (\<lambda>s.
     bind_outcome (pick_all ops (N + 1) s) (\<lambda>(s, ts).
       assert_outcome (length ts = N))))"

fun yield_loop :: "('q, 'i) base_scheduler_ops \<Rightarrow> nat \<Rightarrow> ('q, 'i) sched_state \<Rightarrow> ('q, 'i) sched_state outcome" where
  "yield_loop ops 0 s = Inr s"
| "yield_loop ops (Suc n) s = bind_outcome (pick_next_task ops s) (\<lambda>(s1, r).
     case r of None \<Rightarrow> Inl Panic
     | Some t \<Rightarrow> bind_outcome (put_prev_task ops t False s1) (yield_loop ops n))"

definition bench_yield :: "('q, 'i) base_scheduler_ops \<Rightarrow> nat \<Rightarrow> ('q, 'i) sched_state \<Rightarrow> unit outcome" where
  "bench_yield ops N s0 =
     bind_outcome (add_all ops [0..<N] s0) (\<lambda>s. bind_outcome (yield_loop ops (N * 3) s) (\<lambda>_. Inr ()))"

subsection \<open>Taking turns\<close>

text \<open>\<open>turns k s ts\<close>: in \<open>s\<close> the tasks \<open>ts\<close> wait in this order, and \<open>k\<close> more turns do not overflow.\<close>

locale turn_taking =
  fixes ops :: "('q, 'i) base_scheduler_ops"
    and turns :: "nat \<Rightarrow> ('q, 'i) sched_state \<Rightarrow> tid list \<Rightarrow> bool"
  assumes take_law: "turns k s (t # ts) \<Longrightarrow>
      \<exists>s1. pick_next_task ops s = Inr (s1, Some t) \<and> turns k s1 ts"
    and none_law: "turns k s [] \<Longrightarrow> \<exists>s1. pick_next_task ops s = Inr (s1, None)"
    and turn_law: "turns (Suc k) s (t # ts) \<Longrightarrow>
      \<exists>s1 s2 b s3. pick_next_task ops s = Inr (s1, Some t) \<and> task_tick ops t s1 = Inr (s2, b) \<and>
        put_prev_task ops t False s2 = Inr s3 \<and> turns k s3 (ts @ [t])"
begin

lemma turn_loop_turns:
  assumes "turns (k + n) s (rotate m [0..<N])" "0 < N"
  shows "\<exists>s'. turn_loop ops N [m..<m + n] s = Inr s' \<and> turns k s' (rotate (m + n) [0..<N])"
  using assms
proof (induction n arbitrary: m s)
  case (Suc n)
  have hd: "hd (rotate m [0..<N]) = m mod N"
    using Suc.prems(2) by (subst hd_rotate_conv_nth) (simp_all add: nth_upt)
  obtain t ts where ts: "rotate m [0..<N] = t # ts" using Suc.prems(2) by (cases "rotate m [0..<N]") auto
  have "turns (Suc (k + n)) s (t # ts)" using Suc.prems(1) ts by simp
  from turn_law [OF this] obtain s1 s2 b s3 where s: "pick_next_task ops s = Inr (s1, Some t)"
    "task_tick ops t s1 = Inr (s2, b)" "put_prev_task ops t False s2 = Inr s3" "turns (k + n) s3 (ts @ [t])" by blast
  have "rotate (Suc m) [0..<N] = ts @ [t]" by (simp add: ts)
  then have "turns (k + n) s3 (rotate (Suc m) [0..<N])" using s(4) by simp
  from Suc.IH [OF this Suc.prems(2)] obtain s' where
    "turn_loop ops N [Suc m..<Suc m + n] s3 = Inr s'" "turns k s' (rotate (Suc m + n) [0..<N])" by blast
  moreover have "[m..<m + Suc n] = m # [Suc m..<Suc m + n]" by (simp add: upt_conv_Cons)
  moreover have "t = m mod N" using hd ts by simp
  ultimately show ?case using s by simp
qed simp

lemma pick_all_turns:
  assumes "turns k s ts" "length ts < n"
  shows "\<exists>s'. pick_all ops n s = Inr (s', ts)"
  using assms
proof (induction n arbitrary: s ts)
  case (Suc n)
  show ?case
  proof (cases ts)
    case Nil
    then show ?thesis using none_law [of k s] Suc.prems by auto
  next
    case (Cons t us)
    then obtain s1 where s1: "pick_next_task ops s = Inr (s1, Some t)" "turns k s1 us"
      using take_law [of k s t us] Suc.prems by auto
    then obtain s' where "pick_all ops n s1 = Inr (s', us)" using Suc.IH [of s1 us] Cons Suc.prems by auto
    then show ?thesis using s1 Cons by simp
  qed
qed simp

lemma test_sched_passes:
  assumes "add_all ops [0..<N] s0 = Inr s" "turns (N * 10) s [0..<N]" "0 < N"
  shows "test_sched ops N s0 = Inr ()"
proof -
  have "turns (1 + (N * 10 - 1)) s (rotate 0 [0..<N])" using assms(2,3) by simp
  from turn_loop_turns [OF this assms(3)] obtain s1 where s1: "turn_loop ops N [0..<N * 10 - 1] s = Inr s1"
    "turns 1 s1 (rotate (N * 10 - 1) [0..<N])" by auto
  from pick_all_turns [OF s1(2), of "N + 1"] obtain s2 where
    "pick_all ops (N + 1) s1 = Inr (s2, rotate (N * 10 - 1) [0..<N])" by auto
  then show ?thesis using assms(1) s1(1) by (simp add: test_sched_def del: pick_all.simps)
qed

end

subsection \<open>Yielding\<close>

text \<open>\<open>calm k q\<close>: the queue can tell apart the next \<open>k\<close> tasks it is offered.\<close>

locale yielding = base_scheduler +
  fixes calm :: "nat \<Rightarrow> 'q \<Rightarrow> bool"
  assumes calm_fresh: "calm (Suc k) q \<Longrightarrow> fresh q"
    and calm_add: "qinv q \<Longrightarrow> calm (Suc k) q \<Longrightarrow> (\<And>u. iok (st u)) \<Longrightarrow>
      add_task ops t (q, st) = Inr (q', st') \<Longrightarrow> calm k q'"
    and calm_put: "qinv q \<Longrightarrow> calm (Suc k) q \<Longrightarrow> (\<And>u. iok (st u)) \<Longrightarrow>
      put_prev_task ops t p (q, st) = Inr (q', st') \<Longrightarrow> calm k q'"
    and calm_pick: "qinv q \<Longrightarrow> calm k q \<Longrightarrow> pick_next_task ops (q, st) = Inr ((q', st), r) \<Longrightarrow> calm k q'"
begin

lemma add_all_calm:
  assumes "qinv q" "calm (k + length ts) q" "\<And>u. iok (st u)" "size (queued q) + length ts \<le> bound q"
  shows "\<exists>q' st'. add_all ops ts (q, st) = Inr (q', st') \<and> qinv q' \<and> calm k q' \<and> (\<forall>u. iok (st' u)) \<and>
    bound q' = bound q \<and> size (queued q') = size (queued q) + length ts"
  using assms
proof (induction ts arbitrary: q st)
  case (Cons t ts)
  have c: "calm (Suc (k + length ts)) q" using Cons.prems(2) by simp
  obtain q1 st1 where q1: "add_task ops t (q, st) = Inr (q1, st1)" "qinv q1" "\<forall>u. iok (st1 u)"
    "bound q1 = bound q" "queued q1 = add_mset t (queued q)"
    using add_law [of q st t, OF Cons.prems(1) calm_fresh [OF c] Cons.prems(3)] Cons.prems(4) by auto
  have "calm (k + length ts) q1" by (rule calm_add [OF Cons.prems(1) c Cons.prems(3) q1(1)])
  then show ?case using Cons.IH [of q1 st1] q1 Cons.prems(4) by auto
qed auto

lemma yield_loop_returns:
  assumes "qinv q" "calm n q" "\<And>u. iok (st u)" "queued q \<noteq> {#}"
  shows "\<exists>s'. yield_loop ops n (q, st) = Inr s'"
  using assms
proof (induction n arbitrary: q st)
  case (Suc n)
  obtain q1 t where q1: "pick_next_task ops (q, st) = Inr ((q1, st), Some t)" "qinv q1" "bound q1 = bound q"
    "queued q = add_mset t (queued q1)" using pick_some [OF Suc.prems(1,4)] by blast
  have c: "calm (Suc n) q1" by (rule calm_pick [OF Suc.prems(1,2) q1(1)])
  have room: "size (queued q1) < bound q1" using queued_bound [OF Suc.prems(1)] q1(3,4) by simp
  obtain q2 st2 where q2: "put_prev_task ops t False (q1, st) = Inr (q2, st2)" "qinv q2" "\<forall>u. iok (st2 u)"
    "queued q2 = add_mset t (queued q1)"
    using put_law [of q1 st t False, OF q1(2) calm_fresh [OF c] Suc.prems(3)] room by auto
  have "calm n q2" by (rule calm_put [OF q1(2) c Suc.prems(3) q2(1)])
  then show ?case using Suc.IH [of q2 st2] q1(1) q2 by simp
qed simp

lemma bench_yield_passes:
  assumes "qinv q" "calm (N * 4) q" "\<And>u. iok (st u)" "queued q = {#}" "N \<le> bound q"
  shows "bench_yield ops N (q, st) = Inr ()"
proof (cases "N = 0")
  case False
  have "calm (N * 3 + length [0..<N]) q" using assms(2) by (simp add: algebra_simps)
  then obtain q1 st1 where q1: "add_all ops [0..<N] (q, st) = Inr (q1, st1)" "qinv q1" "calm (N * 3) q1"
    "\<forall>u. iok (st1 u)" "size (queued q1) = N"
    using add_all_calm [of q "N * 3" "[0..<N]" st] assms by (simp del: add_all.simps) blast
  then have "queued q1 \<noteq> {#}" using False by auto
  then show ?thesis using yield_loop_returns [OF q1(2,3), of st1] q1(1,4) by (auto simp: bench_yield_def)
qed (simp add: bench_yield_def)

end

subsection \<open>FIFO and round robin\<close>

sublocale mpmc_queue \<subseteq> fifo_turns: turn_taking "fifo_ops mq"
  "\<lambda>k s ts. qinv (fst s) \<and> contents (fst s) = ts"
proof (unfold_locales, goal_cases)
  case (1 k s t ts)
  then show ?case using fifo_pick [of "fst s" "snd s"] by auto
next
  case (2 k s)
  then show ?case using fifo_pick [of "fst s" "snd s"] by auto
next
  case (3 k s t ts)
  then obtain q' where q': "fifo_pick_next_task mq s = Inr ((q', snd s), Some t)" "qinv q'"
    "cap q' = cap (fst s)" "contents q' = ts" using fifo_pick [of "fst s" "snd s"] by auto
  have "length (contents q') < cap q'" using within [of "fst s"] 3 q'(3,4) by simp
  then show ?case using q' enqueue_offer [OF q'(2), of t] by (auto simp: fifo_defs)
qed

sublocale mpmc_queue \<subseteq> fifo_yield: yielding "fifo_ops mq" "\<lambda>q. mset (contents q)" qinv
  "\<lambda>_. True" cap "\<lambda>_. True" "\<lambda>k q. True"
  by unfold_locales simp_all

context mpmc_queue
begin

lemma fifo_tests:
  assumes "qinv q" "contents q = []" "N \<le> cap q" "0 < N"
  shows "test_sched (fifo_ops mq) N (q, st) = Inr ()" "bench_yield (fifo_ops mq) N (q, st) = Inr ()"
proof -
  obtain q1 where q1: "add_all (fifo_ops mq) [0..<N] (q, st) = Inr (q1, st)"
    "qinv q1" "contents q1 = [0..<N]" using fifo_add_all [OF assms(1), of "[0..<N]" st] assms(2,3) by auto
  then show "test_sched (fifo_ops mq) N (q, st) = Inr ()"
    using fifo_turns.test_sched_passes [OF q1(1) _ assms(4)] by simp
  show "bench_yield (fifo_ops mq) N (q, st) = Inr ()"
    using fifo_yield.bench_yield_passes [OF assms(1)] assms(2,3) by simp
qed

end

interpretation rr_turns: turn_taking "rr_ops S" "\<lambda>k s ts. wf_deque (fst s) \<and> dq_list (fst s) = ts" for S
proof (unfold_locales, goal_cases)
  case (1 k s t ts)
  then show ?case using rr_pick_list [of "fst s" "snd s"] by auto
next
  case (2 k s)
  then show ?case using rr_pick_list [of "fst s" "snd s"] by auto
next
  case (3 k s t ts)
  then obtain q' where q': "rr_pick_next_task s = Inr ((q', snd s), Some t)" "wf_deque q'"
    "dq_capacity q' = dq_capacity (fst s)" "dq_list q' = ts" using rr_pick_list [of "fst s" "snd s"] by auto
  have room: "rr_room q'" using dq.list_bound [of "fst s"] 3 q'(3,4) by (simp add: rr_room_def)
  obtain st b where tick: "rr_task_tick t (q', snd s) = Inr ((q', st), b)" by (simp add: rr_task_tick_def Let_def)
  have "\<not> rr_keeps_front (st t) False" by (simp add: rr_keeps_front_def)
  then show ?case using q' tick room rr_put_list [OF q'(2), of S t False st] by auto
qed

interpretation rr_yield: yielding "rr_ops S" "\<lambda>q. mset (dq_list q)" wf_deque "\<lambda>_. True"
  "\<lambda>q. dq_capacity q - 1" "\<lambda>_. True" "\<lambda>k q. True" for S
  by unfold_locales simp_all

subsection \<open>The completely fair scheduler\<close>

text \<open>The queue as a list of virtual runtimes and tasks, with ids from \<open>b\<close> on in queue order.\<close>

fun cfs_entries :: "nat \<Rightarrow> (nat \<times> tid) list \<Rightarrow> (cfs_key \<times> tid) list" where
  "cfs_entries b [] = []"
| "cfs_entries b ((v, t) # vts) = (Key (of_nat v) (of_nat b), t) # cfs_entries (Suc b) vts"

definition cfs_task_at :: "nat \<Rightarrow> cfs_task \<Rightarrow> bool" where
  "cfs_task_at v i \<longleftrightarrow> init_vruntime i = 0 \<and> nice i = 0 \<and> delta i = of_nat v"

definition cfs_turn_list :: "nat \<Rightarrow> cfs_state \<Rightarrow> (nat \<times> tid) list \<Rightarrow> bool" where
  "cfs_turn_list k s vts \<longleftrightarrow> (\<exists>b.
     represents (ready_queue (fst s)) (cfs_entries b vts) \<and> id_pool (fst s) = of_nat (b + length vts) \<and>
     b + length vts + k < 2 ^ 62 \<and> sorted (map fst vts) \<and> distinct (map snd vts) \<and>
     (\<forall>(v, t) \<in> set vts. cfs_task_at v (snd s t) \<and> v + k < 2 ^ 62 \<and> v \<le> fst (hd vts) + 1))"

definition cfs_turns :: "nat \<Rightarrow> cfs_state \<Rightarrow> tid list \<Rightarrow> bool" where
  "cfs_turns k s ts \<longleftrightarrow> (\<exists>vts. cfs_turn_list k s vts \<and> map snd vts = ts \<and>
     length vts \<le> btm_capacity (ready_queue (fst s)))"

lemma cfs_entries_snoc:
  "cfs_entries b (vts @ [(v, t)]) = cfs_entries b vts @ [(Key (of_nat v) (of_nat (b + length vts)), t)]"
  by (induction b vts rule: cfs_entries.induct) simp_all

lemma cfs_entries_simps [simp]:
  "length (cfs_entries b vts) = length vts" "cfs_entries b vts = [] \<longleftrightarrow> vts = []"
  by (induction b vts rule: cfs_entries.induct) simp_all

lemma cfs_entries_fst:
  assumes "p \<in> set (cfs_entries b vts)"
  shows "\<exists>v i t. p = (Key (of_nat v) (of_nat i), t) \<and> (v, t) \<in> set vts \<and> b \<le> i \<and> i < b + length vts"
  using assms by (induction b vts rule: cfs_entries.induct) fastforce+

lemma Key_of_nat_less:
  assumes "v < 2 ^ 62" "w < 2 ^ 62" "i < 2 ^ 62" "j < 2 ^ 62"
  shows "Key (of_nat v) (of_nat i) < Key (of_nat w) (of_nat j) \<longleftrightarrow> v < w \<or> v = w \<and> i < j"
proof -
  have "sint (of_nat n :: isize) = int n" if "n < 2 ^ 62" for n using that by (intro sint_of_nat) simp
  then show ?thesis using assms by (auto simp: less_cfs_key_def dest: arg_cong [where f = sint])
qed

text \<open>What one more entry, with a key after all others, does to the queue.\<close>

lemma represents_insert_last:
  assumes "represents m ps" "sorted_wrt (<) (map fst (ps @ [(k, v)]))" "length ps < btm_capacity m"
  shows "\<exists>m'. btm_insert k v m = Inr (m', Some None) \<and> represents m' (ps @ [(k, v)]) \<and>
    btm_capacity m' = btm_capacity m"
proof -
  have "pairs_call (btm_capacity m) (Insert k v) ps = (ps @ [(k, v)], Inserted (Some None))"
    using put_pair_last [OF assms(2)] assms(3) by simp
  then show ?thesis using btm_call_pairs [OF assms(1), of "Insert k v"]
    by (auto simp: bind_outcome_eq_Inr)
qed

lemma represents_pop:
  assumes "represents m (p # ps)"
  shows "\<exists>m'. pop_first m = Inr (m', Some p) \<and> represents m' ps \<and> btm_capacity m' = btm_capacity m"
  using btm_call_pairs [OF assms, of PopFirst] by (auto simp: bind_outcome_eq_Inr)

lemma represents_pop_empty:
  assumes "represents m []"
  shows "\<exists>m'. pop_first m = Inr (m', None)"
  using btm_call_pairs [OF assms, of PopFirst] by (auto simp: bind_outcome_eq_Inr)

lemma entries_sorted_snoc:
  assumes "sorted_wrt (<) (map fst (cfs_entries b vts))" "b + length vts < 2 ^ 62" "v < 2 ^ 62"
    and "\<forall>(w, u) \<in> set vts. w \<le> v"
  shows "sorted_wrt (<) (map fst (cfs_entries b vts @ [(Key (of_nat v) (of_nat (b + length vts)), t)]))"
proof -
  have "fst p < Key (of_nat v) (of_nat (b + length vts))" if p: "p \<in> set (cfs_entries b vts)" for p
  proof -
    obtain w i u where "p = (Key (of_nat w) (of_nat i), u)" "(w, u) \<in> set vts" "i < b + length vts"
      using cfs_entries_fst [OF p] by blast
    then show ?thesis using assms(2-4) Key_of_nat_less [of w v i "b + length vts"] by fastforce
  qed
  then show ?thesis using assms(1) by (simp add: sorted_wrt_append)
qed

lemma cfs_turn_pick:
  assumes "cfs_turn_list k s ((v, t) # vts)"
  shows "\<exists>q'. cfs_pick_next_task s = Inr ((q', snd s), Some t) \<and> cfs_turn_list k (q', snd s) vts \<and>
    btm_capacity (ready_queue q') = btm_capacity (ready_queue (fst s)) \<and> min_vruntime q' = min_vruntime (fst s)"
proof -
  obtain b where b: "represents (ready_queue (fst s)) (cfs_entries b ((v, t) # vts))"
    "id_pool (fst s) = of_nat (b + length ((v, t) # vts))" "b + length ((v, t) # vts) + k < 2 ^ 62"
    "sorted (map fst ((v, t) # vts))" "distinct (map snd ((v, t) # vts))"
    "\<forall>(w, u) \<in> set ((v, t) # vts). cfs_task_at w (snd s u) \<and> w + k < 2 ^ 62 \<and> w \<le> v + 1"
    using assms by (auto simp: cfs_turn_list_def)
  obtain m' where m': "pop_first (ready_queue (fst s)) = Inr (m', Some (Key (of_nat v) (of_nat b), t))"
    "represents m' (cfs_entries (Suc b) vts)" "btm_capacity m' = btm_capacity (ready_queue (fst s))"
    using represents_pop b(1) by fastforce
  let ?q = "(fst s)\<lparr>ready_queue := m'\<rparr>"
  have "\<forall>(w, u) \<in> set vts. w \<le> fst (hd vts) + 1" using b(4,6) by (cases vts) fastforce+
  then have "cfs_turn_list k (?q, snd s) vts"
    unfolding cfs_turn_list_def using b m' by (intro exI [of _ "Suc b"]) auto
  then show ?thesis using m' by (intro exI [of _ ?q]) (simp add: cfs_pick_next_task_def)
qed

lemma cfs_turn_put:
  assumes "cfs_turn_list k (q, st) vts" "cfs_task_at v (st t)" "t \<notin> snd ` set vts"
    and "\<forall>(w, u) \<in> set vts. w \<le> v \<and> v \<le> w + 1" "v + (k - 1) < 2 ^ 62" "0 < k"
    and "length vts < btm_capacity (ready_queue q)"
  shows "\<exists>q' st'. cfs_put_prev_task t False (q, st) = Inr (q', st') \<and>
    cfs_turn_list (k - 1) (q', st') (vts @ [(v, t)]) \<and>
    btm_capacity (ready_queue q') = btm_capacity (ready_queue q)"
proof -
  obtain b where b: "represents (ready_queue q) (cfs_entries b vts)" "id_pool q = of_nat (b + length vts)"
    "b + length vts + k < 2 ^ 62" "sorted (map fst vts)" "distinct (map snd vts)"
    "\<forall>(w, u) \<in> set vts. cfs_task_at w (st u) \<and> w + k < 2 ^ 62 \<and> w \<le> fst (hd vts) + 1"
    using assms(1) by (auto simp: cfs_turn_list_def)
  have vr: "get_vruntime (set_id n (st t)) = Inr (of_nat v)" for n
    using assms(2) by (simp add: get_vruntime_def set_id_def cfs_task_at_def)
  have "sorted_wrt (<) (map fst (cfs_entries b vts))" using b(1) by (simp add: represents_def)
  then have sorted: "sorted_wrt (<) (map fst (cfs_entries b vts @ [(Key (of_nat v) (of_nat (b + length vts)), t)]))"
    by (rule entries_sorted_snoc) (use b(3) assms(4,5) in auto)
  obtain m' where m': "btm_insert (Key (of_nat v) (id_pool q)) t (ready_queue q) = Inr (m', Some None)"
    "represents m' (cfs_entries b (vts @ [(v, t)]))" "btm_capacity m' = btm_capacity (ready_queue q)"
    using represents_insert_last [OF b(1) sorted] assms(7) by (auto simp: b(2) cfs_entries_snoc)
  let ?q = "q\<lparr>ready_queue := m', id_pool := id_pool q + 1\<rparr>" and ?st = "st(t := set_id (id_pool q) (st t))"
  have put: "cfs_put_prev_task t False (q, st) = Inr (?q, ?st)"
    using vr m'(1) by (simp add: cfs_put_prev_task_def Let_def)
  have "cfs_turn_list (k - 1) (?q, ?st) (vts @ [(v, t)])"
    unfolding cfs_turn_list_def
  proof (intro exI [of _ b] conjI)
    show "sorted (map fst (vts @ [(v, t)]))" using b(4) assms(4) by (auto simp: sorted_append)
    show "distinct (map snd (vts @ [(v, t)]))" using b(5) assms(3) by auto
    show "\<forall>(w, u) \<in> set (vts @ [(v, t)]). cfs_task_at w (snd (?q, ?st) u) \<and> w + (k - 1) < 2 ^ 62 \<and>
        w \<le> fst (hd (vts @ [(v, t)])) + 1"
      using b(6) assms(2-5) by (cases vts) (fastforce simp: cfs_task_at_def set_id_def)+
  qed (use b m' assms(6) in \<open>auto simp: algebra_simps\<close>)
  then show ?thesis using put m'(3) by auto
qed

lemma cfs_turn_list_other:
  assumes "cfs_turn_list k (q, st) vts" "t \<notin> snd ` set vts"
  shows "cfs_turn_list k (q, st(t := i)) vts"
proof -
  have "(\<forall>(v, u) \<in> set vts. cfs_task_at v ((st(t := i)) u) \<and> v + k < 2 ^ 62 \<and> v \<le> fst (hd vts) + 1) \<longleftrightarrow>
      (\<forall>(v, u) \<in> set vts. cfs_task_at v (st u) \<and> v + k < 2 ^ 62 \<and> v \<le> fst (hd vts) + 1)"
    using assms(2) by (intro ball_cong) force+
  then show ?thesis using assms(1) by (simp add: cfs_turn_list_def)
qed

lemma cfs_turn:
  assumes "cfs_turns (Suc k) s (t # ts)"
  shows "\<exists>s1 s2 b s3. cfs_pick_next_task s = Inr (s1, Some t) \<and> cfs_task_tick t s1 = Inr (s2, b) \<and>
    cfs_put_prev_task t False s2 = Inr s3 \<and> cfs_turns k s3 (ts @ [t])"
proof -
  obtain v vts where vts: "cfs_turn_list (Suc k) s ((v, t) # vts)" "map snd vts = ts"
    "length ((v, t) # vts) \<le> btm_capacity (ready_queue (fst s))"
    using assms by (auto simp: cfs_turns_def)
  have v: "cfs_task_at v (snd s t)" "v + Suc k < 2 ^ 62" "t \<notin> snd ` set vts"
    using vts(1) by (auto simp: cfs_turn_list_def)
  have near: "\<forall>(w, u) \<in> set vts. w \<le> v + 1 \<and> v \<le> w"
    using vts(1) unfolding cfs_turn_list_def by (auto simp del: cfs_entries.simps)
  obtain q1 where q1: "cfs_pick_next_task s = Inr ((q1, snd s), Some t)" "cfs_turn_list (Suc k) (q1, snd s) vts"
    "btm_capacity (ready_queue q1) = btm_capacity (ready_queue (fst s))"
    using cfs_turn_pick [OF vts(1)] by blast
  let ?st = "(snd s)(t := cfs_tick_delta (snd s t))"
  have "nice_ok (snd s t)" using v(1) by (simp add: nice_ok_def cfs_task_at_def)
  then obtain b where tick: "cfs_task_tick t (q1, snd s) = Inr ((q1, ?st), b)" using cfs_tick_ok by blast
  have at: "cfs_task_at (v + 1) (?st t)" using v(1) by (simp add: cfs_task_at_def cfs_tick_delta_def add.commute)
  have "cfs_turn_list (Suc k) (q1, ?st) vts" by (rule cfs_turn_list_other [OF q1(2) v(3)])
  then have "\<exists>q2 st2. cfs_put_prev_task t False (q1, ?st) = Inr (q2, st2) \<and>
      cfs_turn_list (Suc k - 1) (q2, st2) (vts @ [(v + 1, t)]) \<and>
      btm_capacity (ready_queue q2) = btm_capacity (ready_queue q1)"
    by (rule cfs_turn_put [where st = ?st and t = t and v = "v + 1", OF _ at v(3)])
      (use v(2) near vts(3) q1(3) in auto)
  then obtain q2 st2 where q2: "cfs_put_prev_task t False (q1, ?st) = Inr (q2, st2)"
    "cfs_turn_list k (q2, st2) (vts @ [(v + 1, t)])"
    "btm_capacity (ready_queue q2) = btm_capacity (ready_queue q1)" by auto
  have "cfs_turns k (q2, st2) (ts @ [t])"
    unfolding cfs_turns_def using q2(2,3) q1(3) vts(2,3) by (intro exI [of _ "vts @ [(v + 1, t)]"]) auto
  then show ?thesis using q1(1) tick q2(1) by blast
qed

interpretation cfs_turns: turn_taking cfs_ops cfs_turns
proof (unfold_locales, goal_cases)
  case (1 k s t ts)
  then obtain v vts where vts: "cfs_turn_list k s ((v, t) # vts)" "map snd vts = ts"
    "length ((v, t) # vts) \<le> btm_capacity (ready_queue (fst s))" by (auto simp: cfs_turns_def)
  then obtain q' where "cfs_pick_next_task s = Inr ((q', snd s), Some t)" "cfs_turn_list k (q', snd s) vts"
    "btm_capacity (ready_queue q') = btm_capacity (ready_queue (fst s))"
    using cfs_turn_pick [OF vts(1)] by blast
  moreover from this have "cfs_turns k (q', snd s) ts"
    unfolding cfs_turns_def using vts(2,3) by (intro exI [of _ vts]) simp
  ultimately show ?case by auto
next
  case (2 k s)
  then obtain b where "represents (ready_queue (fst s)) (cfs_entries b [])"
    by (auto simp: cfs_turns_def cfs_turn_list_def)
  then show ?case using represents_pop_empty [of "ready_queue (fst s)"] by (auto simp: cfs_pick_next_task_def)
next
  case (3 k s t ts)
  then show ?case using cfs_turn by simp
qed

text \<open>Adding tasks to a new scheduler: all start at virtual runtime 0.\<close>

lemma cfs_add_turn:
  assumes turns: "cfs_turn_list k (q, st) (map (Pair 0) ts)" and t: "t \<notin> set ts" "cfs_task_at 0 (st t)" "0 < k"
    and cap: "length ts < btm_capacity (ready_queue q)" and m: "min_vruntime q = None \<or> min_vruntime q = Some 0"
  shows "\<exists>q' st'. cfs_add_task t (q, st) = Inr (q', st') \<and> cfs_turn_list (k - 1) (q', st') (map (Pair 0) (ts @ [t])) \<and>
    btm_capacity (ready_queue q') = btm_capacity (ready_queue q) \<and> min_vruntime q' = Some 0 \<and>
    (\<forall>u. u \<noteq> t \<longrightarrow> st' u = st u)"
proof -
  let ?vts = "map (Pair 0) ts" and ?v = "case min_vruntime q of None \<Rightarrow> 0 | Some v \<Rightarrow> v"
  obtain b where b: "represents (ready_queue q) (cfs_entries b ?vts)" "id_pool q = of_nat (b + length ts)"
    "b + length ts + k < 2 ^ 62" "distinct ts" "\<forall>u \<in> set ts. cfs_task_at 0 (st u)"
    using turns by (auto simp: cfs_turn_list_def comp_def)
  have v0: "?v = of_nat 0" using m by auto
  have "sorted_wrt (<) (map fst (cfs_entries b ?vts))" using b(1) by (simp add: represents_def)
  from entries_sorted_snoc [OF this, of 0 t]
  have sorted: "sorted_wrt (<) (map fst (cfs_entries b ?vts @ [(Key (of_nat 0) (of_nat (b + length ts)), t)]))"
    using b(3) by auto
  obtain m' where m': "btm_insert (Key ?v (id_pool q)) t (ready_queue q) = Inr (m', Some None)"
    "represents m' (cfs_entries b (?vts @ [(0, t)]))" "btm_capacity m' = btm_capacity (ready_queue q)"
    using represents_insert_last [OF b(1) sorted] cap unfolding v0 b(2) by (auto simp: cfs_entries_snoc)
  obtain i u es where es: "cfs_entries b (?vts @ [(0, t)]) = (Key 0 i, u) # es" by (cases ts) auto
  have first: "first_key_value m' = Inr (Some (Key 0 i, u))"
    using btm_call_pairs [OF m'(2), of FirstKeyValue] by (auto simp: es bind_outcome_eq_Inr)
  let ?q = "\<lparr>ready_queue = m', min_vruntime = Some 0, id_pool = id_pool q + 1\<rparr>"
  let ?st = "st(t := set_id (id_pool q) (set_vruntime ?v (st t)))"
  have add: "cfs_add_task t (q, st) = Inr (?q, ?st)"
    using m'(1) first by (simp add: cfs_add_task_def Let_def)
  have "cfs_turn_list (k - 1) (?q, ?st) (map (Pair 0) (ts @ [t]))"
    unfolding cfs_turn_list_def
  proof (intro exI [of _ b] conjI)
    show "sorted (map fst (map (Pair (0 :: nat)) (ts @ [t])))"
      by (simp add: comp_def sorted_append flip: map_append) (simp add: map_replicate_const)
    show "\<forall>(w, u) \<in> set (map (Pair 0) (ts @ [t])). cfs_task_at w (snd (?q, ?st) u) \<and> w + (k - 1) < 2 ^ 62 \<and>
        w \<le> fst (hd (map (Pair 0) (ts @ [t]))) + 1"
      using b(3,5) t v0 by (auto simp: cfs_task_at_def set_id_def set_vruntime_def)
  qed (use b m' t in \<open>auto simp: algebra_simps comp_def\<close>)
  then show ?thesis using add m'(3) by auto
qed

lemma cfs_add_all_turns:
  assumes "cfs_turn_list (k + length us) (q, st) (map (Pair 0) ts)" "distinct (ts @ us)"
    and "\<forall>u \<in> set us. cfs_task_at 0 (st u)" "length (ts @ us) \<le> btm_capacity (ready_queue q)"
    and "min_vruntime q = None \<or> min_vruntime q = Some 0"
  shows "\<exists>s. add_all cfs_ops us (q, st) = Inr s \<and> cfs_turn_list k s (map (Pair 0) (ts @ us)) \<and>
    btm_capacity (ready_queue (fst s)) = btm_capacity (ready_queue q)"
  using assms
proof (induction us arbitrary: q st ts)
  case (Cons u us)
  have "\<exists>q' st'. cfs_add_task u (q, st) = Inr (q', st') \<and>
      cfs_turn_list (k + length (u # us) - 1) (q', st') (map (Pair 0) (ts @ [u])) \<and>
      btm_capacity (ready_queue q') = btm_capacity (ready_queue q) \<and> min_vruntime q' = Some 0 \<and>
      (\<forall>w. w \<noteq> u \<longrightarrow> st' w = st w)"
    by (rule cfs_add_turn [OF Cons.prems(1)]) (use Cons.prems(2-5) in auto)
  then obtain q' st' where q': "cfs_add_task u (q, st) = Inr (q', st')"
    "cfs_turn_list (k + length us) (q', st') (map (Pair 0) (ts @ [u]))"
    "btm_capacity (ready_queue q') = btm_capacity (ready_queue q)" "min_vruntime q' = Some 0"
    "\<forall>w. w \<noteq> u \<longrightarrow> st' w = st w" by auto
  have "\<forall>w \<in> set us. cfs_task_at 0 (st' w)" using q'(5) Cons.prems(2,3) by auto
  then show ?case using Cons.IH [OF q'(2)] q'(1,3,4) Cons.prems(2,4) by auto
qed simp

lemma cfs_start:
  assumes "N \<le> cap" "N + k < 2 ^ 62" "cap < 2 ^ 64"
  shows "\<exists>s. add_all cfs_ops [0..<N] (cfs_new cap, \<lambda>_. cfs_task_new) = Inr s \<and> cfs_turns k s [0..<N]"
proof -
  have "cfs_turn_list (k + length [0..<N]) (cfs_new cap, \<lambda>_. cfs_task_new) (map (Pair 0) [])"
    unfolding cfs_turn_list_def using assms represents_new [of cap]
    by (intro exI [of _ 0]) (simp add: cfs_new_def)
  then have "\<exists>s. add_all cfs_ops [0..<N] (cfs_new cap, \<lambda>_. cfs_task_new) = Inr s \<and>
      cfs_turn_list k s (map (Pair 0) ([] @ [0..<N])) \<and>
      btm_capacity (ready_queue (fst s)) = btm_capacity (ready_queue (cfs_new cap))"
    by (rule cfs_add_all_turns)
      (use assms in \<open>auto simp: cfs_new_def cfs_task_at_def cfs_task_new_def btm_capacity_def btm_new_def\<close>)
  then obtain s where s: "add_all cfs_ops [0..<N] (cfs_new cap, \<lambda>_. cfs_task_new) = Inr s"
    "cfs_turn_list k s (map (Pair 0) [0..<N])" "btm_capacity (ready_queue (fst s)) = cap"
    by (auto simp: cfs_new_def btm_capacity_def btm_new_def)
  have "cfs_turns k s [0..<N]"
    unfolding cfs_turns_def using s(2,3) assms(1) by (intro exI [of _ "map (Pair 0) [0..<N]"]) (simp add: comp_def)
  then show ?thesis using s(1) by blast
qed

subsection \<open>The ids of the completely fair scheduler\<close>

definition cfs_calm :: "nat \<Rightarrow> cfs_queue \<Rightarrow> bool" where
  "cfs_calm k q \<longleftrightarrow> (\<exists>c. id_pool q = of_nat c \<and> c + k < 2 ^ 62 \<and>
     (\<forall>x \<in> dom (btm_map (ready_queue q)). \<exists>i < c. key_id x = of_nat i))"

lemma of_nat_isize_inj:
  assumes "i < 2 ^ 62" "j < 2 ^ 62" "(of_nat i :: isize) = of_nat j"
  shows "i = j"
proof -
  have "sint (of_nat i :: isize) = int i" by (rule sint_of_nat) (use assms(1) in simp)
  moreover have "sint (of_nat j :: isize) = int j" by (rule sint_of_nat) (use assms(2) in simp)
  ultimately have "int i = int j" using assms(3) by metis
  then show ?thesis by simp
qed

lemma cfs_calm_fresh:
  assumes "cfs_calm (Suc k) q"
  shows "cfs_fresh q"
proof -
  obtain c where c: "id_pool q = of_nat c" "c + Suc k < 2 ^ 62"
    "\<forall>x \<in> dom (btm_map (ready_queue q)). \<exists>i < c. key_id x = of_nat i"
    using assms by (auto simp: cfs_calm_def)
  have "key_id x \<noteq> id_pool q" if x: "x \<in> dom (btm_map (ready_queue q))" for x
  proof
    assume e: "key_id x = id_pool q"
    obtain i where i: "i < c" "key_id x = of_nat i" using c(3) x by blast
    have "c = i" by (rule of_nat_isize_inj) (use e i c(1,2) in auto)
    then show False using i(1) by simp
  qed
  then show ?thesis unfolding cfs_fresh_def by (metis imageE)
qed

lemma cfs_calm_insert:
  assumes "cfs_calm (Suc k) q" "dom (btm_map m) \<subseteq> insert (Key v (id_pool q)) (dom (btm_map (ready_queue q)))"
    and "ready_queue q' = m" "id_pool q' = id_pool q + 1"
  shows "cfs_calm k q'"
proof -
  obtain c where c: "id_pool q = of_nat c" "c + Suc k < 2 ^ 62"
    "\<forall>x \<in> dom (btm_map (ready_queue q)). \<exists>i < c. key_id x = of_nat i"
    using assms(1) by (auto simp: cfs_calm_def)
  have "\<exists>i < Suc c. key_id x = of_nat i" if "x \<in> dom (btm_map m)" for x
    using that assms(2) c(1,3) by (metis cfs_key.sel(2) insert_iff lessI less_SucI subsetD)
  then show ?thesis using c assms(3,4) unfolding cfs_calm_def by (intro exI [of _ "Suc c"]) auto
qed

lemma cfs_calm_less:
  assumes "cfs_calm k q" "dom (btm_map m) \<subseteq> dom (btm_map (ready_queue q))"
    and "ready_queue q' = m" "id_pool q' = id_pool q"
  shows "cfs_calm k q'"
proof -
  obtain c where c: "id_pool q = of_nat c" "c + k < 2 ^ 62"
    "\<forall>x \<in> dom (btm_map (ready_queue q)). \<exists>i < c. key_id x = of_nat i"
    using assms(1) by (auto simp: cfs_calm_def)
  have "\<forall>x \<in> dom (btm_map m). \<exists>i < c. key_id x = of_nat i" using c(3) assms(2) by blast
  then show ?thesis unfolding cfs_calm_def using c(1,2) assms(3,4) by (intro exI [of _ c]) simp
qed

lemma cfs_new_calm: "k < 2 ^ 62 \<Longrightarrow> cfs_calm k (cfs_new cap)"
  unfolding cfs_calm_def by (rule exI [of _ 0]) (simp add: cfs_new_def)

lemma map_insert_dom: "dom (map_insert n f k v) \<subseteq> insert k (dom f)"
  by (auto simp: map_insert_def split: if_splits)

interpretation cfs_yield: yielding cfs_ops cfs_queued cfs_wf nice_ok
  "\<lambda>q. btm_capacity (ready_queue q)" cfs_fresh cfs_calm
proof (unfold_locales, goal_cases)
  case (1 k q)
  then show ?case by (rule cfs_calm_fresh)
next
  case (2 q k st t q' st')
  let ?v = "case min_vruntime q of None \<Rightarrow> 0 | Some v \<Rightarrow> v"
  from cfs_add_spec [OF 2(1) cfs_calm_fresh [OF 2(2)], of t st] 2(4) obtain rq where
    rq: "ready_queue q' = rq" "id_pool q' = id_pool q + 1"
    "btm_map rq = map_insert (btm_capacity rq) (btm_map (ready_queue q)) (Key ?v (id_pool q)) t" by auto
  show ?case by (rule cfs_calm_insert [where v = ?v, OF 2(2) _ rq(1,2)]) (simp add: rq(3) map_insert_dom)
next
  case (3 q k st t p q' st')
  from cfs_put_spec [where st = st and t = t and p = p, OF 3(1) cfs_calm_fresh [OF 3(2)] 3(3)] 3(4) obtain rq v where
    rq: "ready_queue q' = rq" "id_pool q' = id_pool q + 1"
    "btm_map rq = map_insert (btm_capacity rq) (btm_map (ready_queue q)) (Key v (id_pool q)) t" by auto
  show ?case by (rule cfs_calm_insert [where v = v, OF 3(2) _ rq(1,2)]) (simp add: rq(3) map_insert_dom)
next
  case (4 q k st q' r)
  from cfs_pick_spec [OF 4(1), of st] obtain rq where rq: "q' = q\<lparr>ready_queue := rq\<rparr>"
    "btm_map rq = map_pop (btm_map (ready_queue q))" using 4(3) by auto
  have "dom (btm_map rq) \<subseteq> dom (btm_map (ready_queue q))" by (auto simp: rq(2) map_pop_def split: if_splits)
  then show ?case by (rule cfs_calm_less [OF 4(2)]) (simp_all add: rq(1))
qed

subsection \<open>The tests pass\<close>



end
