(* ===== verification/Task_Data.thy ===== *)
theory Task_Data
  imports Prelude
begin

unbundle bit_operations_syntax

text \<open>
  User data attached to a task, \<^verbatim>\<open>TaskExt\<close> of \<^verbatim>\<open>base_task/src/task_ext.rs\<close>: a raw pointer to a block whose
  size and alignment are chosen at link time by \<^verbatim>\<open>def_task_ext!\<close>. The heap is a map from addresses to
  blocks; the address an allocation gets is a parameter (0: it failed).
\<close>

subsection \<open>The heap\<close>

text \<open>\<open>content\<close> is \<open>None\<close> until the block is written. \<open>dropped\<close>: the values whose destructor has run.\<close>

record 'a block =
  block_size :: usize
  block_align :: usize
  content :: "'a option"

record 'a heap =
  blocks :: "usize \<Rightarrow> 'a block option"
  dropped :: "'a list"

definition write_block :: "usize \<Rightarrow> 'a block option \<Rightarrow> 'a heap \<Rightarrow> 'a heap" where
  "write_block p b h = h\<lparr>blocks := (blocks h)(p := b)\<rparr>"

text \<open>\<^verbatim>\<open>Layout::from_size_align\<close> succeeds: the alignment is a power of two, and the size rounded up to it
  does not exceed \<^verbatim>\<open>isize::MAX\<close>.\<close>

definition layout_ok :: "usize \<Rightarrow> usize \<Rightarrow> bool" where
  "layout_ok sz al \<longleftrightarrow> al \<noteq> 0 \<and> al AND (al - 1) = 0 \<and> uint sz \<le> 2 ^ 63 - uint al"

text \<open>\<open>TASK_EXT_SIZE\<close>, \<open>TASK_EXT_ALIGN\<close>: the linker symbols; \<open>malloc\<close>: the allocator's choice.\<close>

record 'a ext_env =
  TASK_EXT_SIZE :: usize
  TASK_EXT_ALIGN :: usize
  malloc :: "usize \<Rightarrow> usize \<Rightarrow> 'a heap \<Rightarrow> usize"

subsection \<open>The operations\<close>

text \<open>\<open>ext_ptr\<close>: 0 is the null pointer.\<close>

record task_ext =
  ext_ptr :: usize

definition task_ext_empty :: task_ext where
  "task_ext_empty = \<lparr>ext_ptr = 0\<rparr>"

definition task_ext_is_empty :: "task_ext \<Rightarrow> bool" where
  "task_ext_is_empty x \<longleftrightarrow> ext_ptr x = 0"

definition uninited :: "'a ext_env \<Rightarrow> 'a heap \<Rightarrow> ('a heap \<times> task_ext) outcome" where
  "uninited env h =
     (if TASK_EXT_SIZE env = 0 then Inr (h, \<lparr>ext_ptr = 0\<rparr>)
      else bind_outcome (assert_outcome (layout_ok (TASK_EXT_SIZE env) (TASK_EXT_ALIGN env))) (\<lambda>_.
        let p = malloc env (TASK_EXT_SIZE env) (TASK_EXT_ALIGN env) h in
        Inr (if p = 0 then h
             else write_block p (Some \<lparr>block_size = TASK_EXT_SIZE env, block_align = TASK_EXT_ALIGN env,
               content = None\<rparr>) h, \<lparr>ext_ptr = p\<rparr>)))"

text \<open>\<open>data_size\<close>, \<open>data_align\<close>: those of the type of the data. The result is the pointer, if there is one.\<close>

definition task_ext_write :: "'a ext_env \<Rightarrow> usize \<Rightarrow> usize \<Rightarrow> 'a \<Rightarrow> 'a heap \<times> task_ext \<Rightarrow>
    ('a heap \<times> task_ext \<times> usize option) outcome" where
  "task_ext_write env data_size data_align data = (\<lambda>(h, x).
     bind_outcome (assert_outcome (data_size = TASK_EXT_SIZE env)) (\<lambda>_.
     bind_outcome (assert_outcome (data_align = TASK_EXT_ALIGN env)) (\<lambda>_.
     bind_outcome (if ext_ptr x = 0 then uninited env h else Inr (h, x)) (\<lambda>(h1, x1).
       if 0 < data_size then
         bind_outcome (assert_outcome (ext_ptr x1 \<noteq> 0)) (\<lambda>_.
           case blocks h1 (ext_ptr x1) of
             None \<Rightarrow> Inl Undefined
           | Some b \<Rightarrow> Inr (write_block (ext_ptr x1) (Some (b\<lparr>content := Some data\<rparr>)) h1, x1, Some (ext_ptr x1)))
       else Inr (h1, x1, None)))))"

text \<open>\<^verbatim>\<open>drop\<close>, with the destructor that \<^verbatim>\<open>def_task_ext!\<close> defines.\<close>

definition task_ext_drop :: "'a ext_env \<Rightarrow> 'a heap \<times> task_ext \<Rightarrow> 'a heap outcome" where
  "task_ext_drop env = (\<lambda>(h, x).
     if ext_ptr x \<noteq> 0 then
       (case blocks h (ext_ptr x) of
          None \<Rightarrow> Inl Undefined
        | Some b \<Rightarrow>
            (case content b of
               None \<Rightarrow> Inl Undefined
             | Some d \<Rightarrow>
                 bind_outcome (assert_outcome (layout_ok (TASK_EXT_SIZE env) (TASK_EXT_ALIGN env))) (\<lambda>_.
                   if block_size b = TASK_EXT_SIZE env \<and> block_align b = TASK_EXT_ALIGN env
                   then Inr (write_block (ext_ptr x) None (h\<lparr>dropped := d # dropped h\<rparr>))
                   else Inl Undefined)))
     else Inr h)"

text \<open>The accessor \<^verbatim>\<open>task_ext()\<close> that \<^verbatim>\<open>def_task_ext!\<close> defines.\<close>

definition task_ext_ref :: "'a heap \<times> task_ext \<Rightarrow> 'a outcome" where
  "task_ext_ref = (\<lambda>(h, x).
     bind_outcome (assert_outcome (ext_ptr x \<noteq> 0)) (\<lambda>_.
       case blocks h (ext_ptr x) of
         None \<Rightarrow> Inl Undefined
       | Some b \<Rightarrow> (case content b of None \<Rightarrow> Inl Undefined | Some d \<Rightarrow> Inr d)))"

subsection \<open>The life of the data\<close>

lemma write_block_simps [simp]:
  "blocks (write_block p b h) = (blocks h)(p := b)" "dropped (write_block p b h) = dropped h"
  by (simp_all add: write_block_def)

text \<open>The first write allocates the block, every later one reuses it.\<close>

lemma first_write:
  assumes "0 < TASK_EXT_SIZE env" "layout_ok (TASK_EXT_SIZE env) (TASK_EXT_ALIGN env)"
    and "p = malloc env (TASK_EXT_SIZE env) (TASK_EXT_ALIGN env) h" "p \<noteq> 0"
  shows "task_ext_write env (TASK_EXT_SIZE env) (TASK_EXT_ALIGN env) d (h, task_ext_empty) =
    Inr (write_block p (Some \<lparr>block_size = TASK_EXT_SIZE env, block_align = TASK_EXT_ALIGN env, content = Some d\<rparr>) h,
      \<lparr>ext_ptr = p\<rparr>, Some p)"
  using assms by (simp add: task_ext_write_def uninited_def task_ext_empty_def Let_def write_block_def)

text \<open>C29: User data of the size and alignment of the link: the first write gets a block from the allocator
  (at an address \<open>p\<close> that is not in use), the accessor reads back what was written, and dropping runs
  the destructor of exactly that value and gives the block back, so the heap is as before. A write of
  another size or alignment panics, so does one when the allocator fails.\<close>

theorem task_ext_lifecycle:
  assumes "0 < TASK_EXT_SIZE env" "layout_ok (TASK_EXT_SIZE env) (TASK_EXT_ALIGN env)"
    and "p = malloc env (TASK_EXT_SIZE env) (TASK_EXT_ALIGN env) h" "blocks h p = None"
  shows "(p \<noteq> 0 \<longrightarrow> (\<exists>h1 x.
      task_ext_write env (TASK_EXT_SIZE env) (TASK_EXT_ALIGN env) d (h, task_ext_empty) = Inr (h1, x, Some p) \<and>
      \<not> task_ext_is_empty x \<and> task_ext_ref (h1, x) = Inr d \<and>
      task_ext_drop env (h1, x) = Inr (h\<lparr>dropped := d # dropped h\<rparr>))) \<and>
    (p = 0 \<longrightarrow> task_ext_write env (TASK_EXT_SIZE env) (TASK_EXT_ALIGN env) d (h, task_ext_empty) = Inl Panic) \<and>
    (sz \<noteq> TASK_EXT_SIZE env \<or> al \<noteq> TASK_EXT_ALIGN env \<longrightarrow> task_ext_write env sz al d (h', x') = Inl Panic)"
proof (intro conjI impI)
  assume p: "p \<noteq> 0"
  let ?b = "\<lparr>block_size = TASK_EXT_SIZE env, block_align = TASK_EXT_ALIGN env, content = Some d\<rparr>"
  have "blocks (h\<lparr>dropped := d # dropped h\<rparr>) = (blocks h)(p := None)" using assms(4) by auto
  then have "write_block p None ((write_block p (Some ?b) h)\<lparr>dropped := d # dropped h\<rparr>) = h\<lparr>dropped := d # dropped h\<rparr>"
    by (simp add: write_block_def)
  then show "\<exists>h1 x. task_ext_write env (TASK_EXT_SIZE env) (TASK_EXT_ALIGN env) d (h, task_ext_empty) = Inr (h1, x, Some p) \<and>
      \<not> task_ext_is_empty x \<and> task_ext_ref (h1, x) = Inr d \<and>
      task_ext_drop env (h1, x) = Inr (h\<lparr>dropped := d # dropped h\<rparr>)"
    using first_write [OF assms(1-3) p, of d] p assms(2)
    by (simp add: task_ext_is_empty_def task_ext_ref_def task_ext_drop_def)
next
  assume "p = 0"
  then show "task_ext_write env (TASK_EXT_SIZE env) (TASK_EXT_ALIGN env) d (h, task_ext_empty) = Inl Panic"
    using assms by (simp add: task_ext_write_def uninited_def task_ext_empty_def Let_def)
next
  assume "sz \<noteq> TASK_EXT_SIZE env \<or> al \<noteq> TASK_EXT_ALIGN env"
  then show "task_ext_write env sz al d (h', x') = Inl Panic"
    by (cases "sz = TASK_EXT_SIZE env") (simp_all add: task_ext_write_def)
qed

definition demo_ext_env :: "nat ext_env" where
  "demo_ext_env = \<lparr>TASK_EXT_SIZE = 16, TASK_EXT_ALIGN = 8, malloc = (\<lambda>sz al h. 4096)\<rparr>"

definition demo_heap :: "nat heap" where
  "demo_heap = \<lparr>blocks = (\<lambda>_. None), dropped = []\<rparr>"

theorem task_ext_lifecycle_witness:
  "\<exists>h1 x. task_ext_write demo_ext_env 16 8 233 (demo_heap, task_ext_empty) = Inr (h1, x, Some 4096) \<and>
    task_ext_ref (h1, x) = Inr 233 \<and> task_ext_drop demo_ext_env (h1, x) = Inr (demo_heap\<lparr>dropped := [233]\<rparr>)"
proof -
  have e: "TASK_EXT_SIZE demo_ext_env = 16" "TASK_EXT_ALIGN demo_ext_env = 8"
    "malloc demo_ext_env 16 8 demo_heap = 4096" "dropped demo_heap = []" "blocks demo_heap 4096 = None"
    by (simp_all add: demo_ext_env_def demo_heap_def)
  have "layout_ok 16 8" by (simp add: layout_ok_def)
  with task_ext_lifecycle [of demo_ext_env 4096 demo_heap 233 0 0 demo_heap task_ext_empty]
  show ?thesis by (auto simp: e)
qed

end
