(* ===== verification/Task.thy ===== *)
theory Task
  imports Prelude
begin

text \<open>
  The task control block \<^verbatim>\<open>TaskInner\<close> of \<^verbatim>\<open>base_task/src/task.rs\<close>: its state byte, its flags and its
  kernel stack. The machine context (crate \<^verbatim>\<open>hal\<close>), the allocator and the functions behind the stored
  function addresses are parameters: \<open>'c\<close> is the type of contexts.
\<close>

subsection \<open>States\<close>

datatype TaskState = Running | Ready | Blocked | Exited

fun as_u8 :: "TaskState \<Rightarrow> u8" where
  "as_u8 Running = 1"
| "as_u8 Ready = 2"
| "as_u8 Blocked = 3"
| "as_u8 Exited = 4"

text \<open>\<^verbatim>\<open>From<u8>\<close>: any other byte hits \<^verbatim>\<open>unreachable!()\<close>.\<close>

definition task_state_from :: "u8 \<Rightarrow> TaskState outcome" where
  "task_state_from b =
     (if b = 1 then Inr Running else if b = 2 then Inr Ready else if b = 3 then Inr Blocked
      else if b = 4 then Inr Exited else Inl Panic)"

subsection \<open>The task control block\<close>

record task_stack =
  stack_ptr :: usize
  stack_size :: usize

record 'c task_inner =
  alloc_stack :: "usize option"
  coroutine_entry :: "usize option"
  task_id_of :: u64
  idle_flag :: bool
  init_flag :: bool
  state_byte :: u8
  cpu_flag :: bool
  wait_queue_flag :: bool
  timer_ticket_id :: u64
  resched_flag :: bool
  preempt_disable_count :: usize
  kstack :: "task_stack option"
  ctx :: 'c

text \<open>\<^verbatim>\<open>TaskId::new\<close>: the counter and the id taken from it.\<close>

definition task_id_new :: "u64 \<Rightarrow> u64 \<times> u64" where
  "task_id_new counter = (counter + 1, counter)"

definition new_common :: "'c \<Rightarrow> u64 \<Rightarrow> u64 \<times> 'c task_inner" where
  "new_common c0 counter = (let (counter', tid) = task_id_new counter in
     (counter', \<lparr>alloc_stack = None, coroutine_entry = None, task_id_of = tid, idle_flag = False,
       init_flag = False, state_byte = as_u8 Ready, cpu_flag = False, wait_queue_flag = False,
       timer_ticket_id = 0, resched_flag = False, preempt_disable_count = 0, kstack = None, ctx = c0\<rparr>))"

definition set_on_cpu :: "bool \<Rightarrow> 'c task_inner \<Rightarrow> 'c task_inner" where
  "set_on_cpu b t = t\<lparr>cpu_flag := b\<rparr>"

definition new_init :: "'c \<Rightarrow> bool \<Rightarrow> u64 \<Rightarrow> u64 \<times> 'c task_inner" where
  "new_init c0 idle counter = (let (counter', t) = new_common c0 counter in
     (counter', (set_on_cpu True (t\<lparr>init_flag := True\<rparr>))\<lparr>idle_flag := idle\<rparr>))"

text \<open>
  \<^verbatim>\<open>TaskStack::alloc\<close>. The layout of alignment 16 is refused when the size rounded up to the
  alignment exceeds \<^verbatim>\<open>isize::MAX\<close>; a null pointer from the allocator fails the \<open>unwrap\<close>.
\<close>

definition stack_alloc :: "(usize \<Rightarrow> usize) \<Rightarrow> usize \<Rightarrow> task_stack outcome" where
  "stack_alloc malloc sz =
     (if 2 ^ 63 - 16 < uint sz then Inl Panic
      else if malloc sz = 0 then Inl Panic
      else Inr \<lparr>stack_ptr = malloc sz, stack_size = sz\<rparr>)"

definition stack_top :: "task_stack \<Rightarrow> usize" where
  "stack_top s = stack_ptr s + stack_size s"

text \<open>\<open>ctx_init entry top c\<close> is \<^verbatim>\<open>TaskContext::init\<close>; \<open>align_up\<close> is \<^verbatim>\<open>memory_addr::align_up_4k\<close>.\<close>

definition task_new :: "(usize \<Rightarrow> usize \<Rightarrow> 'c \<Rightarrow> 'c) \<Rightarrow> (usize \<Rightarrow> usize) \<Rightarrow> (usize \<Rightarrow> usize) \<Rightarrow> 'c \<Rightarrow>
    usize \<Rightarrow> bool \<Rightarrow> usize \<Rightarrow> u64 \<Rightarrow> (u64 \<times> 'c task_inner) outcome" where
  "task_new ctx_init align_up malloc c0 entry idle sz counter =
     (let (counter', t) = new_common c0 counter in
      bind_outcome (stack_alloc malloc (align_up sz)) (\<lambda>stk.
        Inr (counter', t\<lparr>ctx := ctx_init entry (stack_top stk) (ctx t), kstack := Some stk,
          idle_flag := idle\<rparr>)))"

definition set_alloc_stack_fn :: "usize \<Rightarrow> 'c task_inner \<Rightarrow> 'c task_inner" where
  "set_alloc_stack_fn f t = t\<lparr>alloc_stack := Some f\<rparr>"

definition set_coroutine_schedule :: "usize \<Rightarrow> 'c task_inner \<Rightarrow> 'c task_inner" where
  "set_coroutine_schedule f t = t\<lparr>coroutine_entry := Some f\<rparr>"

definition kernel_stack_top :: "'c task_inner \<Rightarrow> usize option" where
  "kernel_stack_top t = (case kstack t of Some s \<Rightarrow> Some (stack_top s) | None \<Rightarrow> None)"

text \<open>\<open>call_alloc f\<close> is the stack returned by the function at address \<open>f\<close>.\<close>

definition set_kstack :: "(usize \<Rightarrow> usize \<Rightarrow> 'c \<Rightarrow> 'c) \<Rightarrow> (usize \<Rightarrow> task_stack) \<Rightarrow> 'c task_inner \<Rightarrow>
    'c task_inner outcome" where
  "set_kstack ctx_init call_alloc t =
     (if kstack t = None \<and> \<not> init_flag t \<and> \<not> idle_flag t then
        (case alloc_stack t of
           None \<Rightarrow> Inl Panic
         | Some f \<Rightarrow>
             let stk = call_alloc f in
             (case coroutine_entry t of
                None \<Rightarrow> Inl Panic
              | Some e \<Rightarrow> Inr (t\<lparr>kstack := Some stk, ctx := ctx_init e (stack_top stk) (ctx t)\<rparr>)))
      else Inr t)"

subsection \<open>State and flags\<close>

definition state :: "'c task_inner \<Rightarrow> TaskState outcome" where
  "state t = task_state_from (state_byte t)"

definition set_state :: "TaskState \<Rightarrow> 'c task_inner \<Rightarrow> 'c task_inner" where
  "set_state s t = t\<lparr>state_byte := as_u8 s\<rparr>"

definition transition_state :: "TaskState \<Rightarrow> TaskState \<Rightarrow> 'c task_inner \<Rightarrow> 'c task_inner \<times> bool" where
  "transition_state current new t =
     (if state_byte t = as_u8 current then (t\<lparr>state_byte := as_u8 new\<rparr>, True) else (t, False))"

definition is_running :: "'c task_inner \<Rightarrow> bool outcome" where
  "is_running t = bind_outcome (state t) (\<lambda>s. Inr (s = Running))"

definition is_ready :: "'c task_inner \<Rightarrow> bool outcome" where
  "is_ready t = bind_outcome (state t) (\<lambda>s. Inr (s = Ready))"

definition is_init :: "'c task_inner \<Rightarrow> bool" where
  "is_init t = init_flag t"

definition is_idle :: "'c task_inner \<Rightarrow> bool" where
  "is_idle t = idle_flag t"

definition in_wait_queue :: "'c task_inner \<Rightarrow> bool" where
  "in_wait_queue t = wait_queue_flag t"

definition set_in_wait_queue :: "bool \<Rightarrow> 'c task_inner \<Rightarrow> 'c task_inner" where
  "set_in_wait_queue b t = t\<lparr>wait_queue_flag := b\<rparr>"

definition timer_ticket :: "'c task_inner \<Rightarrow> u64" where
  "timer_ticket t = timer_ticket_id t"

definition set_timer_ticket :: "u64 \<Rightarrow> 'c task_inner \<Rightarrow> 'c task_inner outcome" where
  "set_timer_ticket n t = bind_outcome (assert_outcome (n \<noteq> 0)) (\<lambda>_. Inr (t\<lparr>timer_ticket_id := n\<rparr>))"

definition timer_ticket_expired :: "'c task_inner \<Rightarrow> 'c task_inner" where
  "timer_ticket_expired t = t\<lparr>timer_ticket_id := 0\<rparr>"

definition set_preempt_pending :: "bool \<Rightarrow> 'c task_inner \<Rightarrow> 'c task_inner" where
  "set_preempt_pending b t = t\<lparr>resched_flag := b\<rparr>"

definition need_resched :: "'c task_inner \<Rightarrow> bool" where
  "need_resched t = resched_flag t"

definition can_preempt :: "usize \<Rightarrow> 'c task_inner \<Rightarrow> bool" where
  "can_preempt n t \<longleftrightarrow> preempt_disable_count t = n"

definition disable_preempt :: "'c task_inner \<Rightarrow> 'c task_inner" where
  "disable_preempt t = t\<lparr>preempt_disable_count := preempt_disable_count t + 1\<rparr>"

text \<open>The flag tells whether \<^verbatim>\<open>current_check_preempt_pending\<close> is called.\<close>

definition enable_preempt :: "bool \<Rightarrow> 'c task_inner \<Rightarrow> 'c task_inner \<times> bool" where
  "enable_preempt resched t =
     (t\<lparr>preempt_disable_count := preempt_disable_count t - 1\<rparr>, preempt_disable_count t = 1 \<and> resched)"

definition on_cpu :: "'c task_inner \<Rightarrow> bool" where
  "on_cpu t = cpu_flag t"

subsection \<open>Lemmas on states\<close>

named_theorems task_simps

lemma state_from_as [task_simps]: "task_state_from (as_u8 s) = Inr s"
  by (cases s) (simp_all add: task_state_from_def)

lemma as_u8_inject [task_simps]: "as_u8 a = as_u8 b \<longleftrightarrow> a = b"
  by (cases a; cases b) simp_all

lemma state_set [task_simps]: "state (set_state s t) = Inr s"
  by (simp add: state_def set_state_def state_from_as)

lemma state_eq_iff: "state t = Inr s \<longleftrightarrow> state_byte t = as_u8 s"
  by (cases s) (auto simp: state_def task_state_from_def)

lemma transition_simps [task_simps]:
  "state t = Inr a \<Longrightarrow> transition_state a b t = (set_state b t, True)"
  "state t = Inr c \<Longrightarrow> c \<noteq> a \<Longrightarrow> transition_state a b t = (t, False)"
  by (simp_all add: state_eq_iff transition_state_def set_state_def as_u8_inject)

lemma is_state_simps [task_simps]:
  "state t = Inr s \<Longrightarrow> is_running t = Inr (s = Running)"
  "state t = Inr s \<Longrightarrow> is_ready t = Inr (s = Ready)"
  by (simp_all add: is_running_def is_ready_def)

lemma state_frame [task_simps]:
  "state (set_on_cpu b t) = state t" "state (set_in_wait_queue b t) = state t"
  "state (set_preempt_pending b t) = state t" "state (disable_preempt t) = state t"
  "state (t\<lparr>kstack := k\<rparr>) = state t" "state (t\<lparr>ctx := c\<rparr>) = state t"
  by (simp_all add: state_def set_on_cpu_def set_in_wait_queue_def set_preempt_pending_def disable_preempt_def)

lemma on_cpu_frame [task_simps]:
  "on_cpu (set_on_cpu b t) = b" "on_cpu (set_in_wait_queue b t) = on_cpu t"
  "on_cpu (set_preempt_pending b t) = on_cpu t" "on_cpu (set_state s t) = on_cpu t"
  "on_cpu (t\<lparr>kstack := k\<rparr>) = on_cpu t" "on_cpu (t\<lparr>ctx := c\<rparr>) = on_cpu t"
  by (simp_all add: on_cpu_def set_on_cpu_def set_in_wait_queue_def set_preempt_pending_def set_state_def)

lemma idle_frame [task_simps]:
  "is_idle (set_on_cpu b t) = is_idle t" "is_idle (set_in_wait_queue b t) = is_idle t"
  "is_idle (set_preempt_pending b t) = is_idle t" "is_idle (set_state s t) = is_idle t"
  "is_idle (t\<lparr>kstack := k\<rparr>) = is_idle t" "is_idle (t\<lparr>ctx := c\<rparr>) = is_idle t"
  "is_init (set_on_cpu b t) = is_init t" "is_init (set_in_wait_queue b t) = is_init t"
  "is_init (set_preempt_pending b t) = is_init t" "is_init (set_state s t) = is_init t"
  "is_init (t\<lparr>kstack := k\<rparr>) = is_init t" "is_init (t\<lparr>ctx := c\<rparr>) = is_init t"
  by (simp_all add: is_idle_def is_init_def set_on_cpu_def set_in_wait_queue_def set_preempt_pending_def set_state_def)

text \<open>A task that can be switched to: it owns a stack, or is an init or idle task, or is a coroutine
  that knows how to get a stack and where to start.\<close>

definition startable :: "'c task_inner \<Rightarrow> bool" where
  "startable t \<longleftrightarrow> kstack t \<noteq> None \<or> is_init t \<or> is_idle t \<or> alloc_stack t \<noteq> None \<and> coroutine_entry t \<noteq> None"

lemma startable_frame [task_simps]:
  "startable (set_on_cpu b t) = startable t" "startable (set_in_wait_queue b t) = startable t"
  "startable (set_preempt_pending b t) = startable t" "startable (set_state s t) = startable t"
  by (simp_all add: startable_def is_idle_def is_init_def set_on_cpu_def set_in_wait_queue_def
      set_preempt_pending_def set_state_def)

lemma set_kstack_ok:
  assumes "startable t"
  shows "\<exists>t'. set_kstack ci ca t = Inr t' \<and> startable t' \<and> state t' = state t \<and> on_cpu t' = on_cpu t \<and>
    is_idle t' = is_idle t \<and> is_init t' = is_init t \<and> need_resched t' = need_resched t"
  using assms
  by (auto simp: set_kstack_def startable_def is_idle_def is_init_def state_def on_cpu_def need_resched_def Let_def
      split: option.split)

subsection \<open>Nested preemption\<close>

text \<open>\<open>n\<close> calls of \<^verbatim>\<open>enable_preempt\<close> and which of them checked for a pending preemption.\<close>

fun enable_times :: "nat \<Rightarrow> bool \<Rightarrow> 'c task_inner \<Rightarrow> 'c task_inner \<times> bool list" where
  "enable_times 0 r t = (t, [])"
| "enable_times (Suc n) r t = (let (t1, b) = enable_preempt r t; (t2, bs) = enable_times n r t1 in (t2, b # bs))"

lemma disable_times: "(disable_preempt ^^ n) t = t\<lparr>preempt_disable_count := preempt_disable_count t + of_nat n\<rparr>"
  by (induction n) (simp_all add: disable_preempt_def algebra_simps)

lemma enable_times_count:
  assumes "preempt_disable_count t = of_nat n" "n < 2 ^ 64"
  shows "enable_times n r t = (t\<lparr>preempt_disable_count := 0\<rparr>, map (\<lambda>i. i = 0 \<and> r) (rev [0..<n]))"
  using assms
proof (induction n arbitrary: t)
  case (Suc n)
  let ?t = "t\<lparr>preempt_disable_count := of_nat n\<rparr>"
  have "of_nat (Suc n) = (1 :: usize) \<longleftrightarrow> n = 0"
  proof
    assume "of_nat (Suc n) = (1 :: usize)"
    then have "Suc n = 1" using of_nat_inverse [of "Suc n" "1 :: usize"] Suc.prems(2) by simp
    then show "n = 0" by simp
  qed simp
  then have "enable_preempt r t = (?t, n = 0 \<and> r)" using Suc.prems(1) by (simp add: enable_preempt_def)
  then show ?case using Suc.IH [of ?t] Suc.prems(2) by simp
qed simp

subsection \<open>Properties\<close>

text \<open>The state byte decodes to the state it was written from and decoding panics on exactly the
  other bytes. \<^verbatim>\<open>transition_state\<close> answers true exactly when the task is in the expected state, moves
  it to the new state then and changes nothing otherwise, so of two attempts to take a task out of
  the same state at most the first succeeds.\<close>

theorem task_transition_once:
  "task_state_from (as_u8 a) = Inr a \<and>
   (task_state_from w = Inl Panic \<longleftrightarrow> w \<notin> {as_u8 Running, as_u8 Ready, as_u8 Blocked, as_u8 Exited}) \<and>
   snd (transition_state a b t) = (state t = Inr a) \<and>
   fst (transition_state a b t) = (if state t = Inr a then set_state b t else t) \<and>
   (a = b \<or> \<not> snd (transition_state a b t) \<or> \<not> snd (transition_state a c (fst (transition_state a b t))))"
proof (intro conjI)
  show "task_state_from (as_u8 a) = Inr a" by (rule state_from_as)
  show "task_state_from w = Inl Panic \<longleftrightarrow> w \<notin> {as_u8 Running, as_u8 Ready, as_u8 Blocked, as_u8 Exited}"
    by (simp add: task_state_from_def)
  show "snd (transition_state a b t) = (state t = Inr a)"
    "fst (transition_state a b t) = (if state t = Inr a then set_state b t else t)"
    by (simp_all add: transition_state_def state_eq_iff set_state_def)
  show "a = b \<or> \<not> snd (transition_state a b t) \<or> \<not> snd (transition_state a c (fst (transition_state a b t)))"
    by (simp add: transition_state_def as_u8_inject)
qed

theorem task_transition_once_witness:
  "let t = set_state Blocked (snd (new_common () 7)) in
   snd (transition_state Blocked Ready t) \<and>
   \<not> snd (transition_state Blocked Ready (fst (transition_state Blocked Ready t)))"
proof -
  have "Blocked \<noteq> Ready" by simp
  then show ?thesis
    using task_transition_once [of Blocked 0 Ready "set_state Blocked (snd (new_common () 7))" Ready]
      state_set [of Blocked "snd (new_common () 7)"] unfolding Let_def by metis
qed

text \<open>Preemption nests: after \<open>n\<close> calls of \<^verbatim>\<open>disable_preempt\<close> on a preemptible task, of the \<open>n\<close>
  matching calls of \<^verbatim>\<open>enable_preempt\<close> exactly the last one checks for a pending preemption (none does
  when rescheduling is not asked for), and the task is preemptible again.\<close>

theorem preempt_nesting:
  assumes "can_preempt 0 t" "n < 2 ^ 64"
  shows "can_preempt (of_nat n) ((disable_preempt ^^ n) t) \<and>
    enable_times n r ((disable_preempt ^^ n) t) = (t, map (\<lambda>i. i = 0 \<and> r) (rev [0..<n]))"
proof -
  have "t\<lparr>preempt_disable_count := 0\<rparr> = t" using assms(1) by (simp add: can_preempt_def)
  then show ?thesis using enable_times_count [of "(disable_preempt ^^ n) t" n r] assms
    by (simp add: disable_times can_preempt_def)
qed

theorem preempt_nesting_witness:
  "enable_times 3 True ((disable_preempt ^^ 3) (snd (new_common () 7))) =
    (snd (new_common () 7), [False, False, True])"
proof -
  have "can_preempt 0 (snd (new_common () 7))" by (simp add: can_preempt_def new_common_def task_id_new_def)
  then show ?thesis using preempt_nesting [of "snd (new_common () 7)" 3 True]
    by (simp add: upt_conv_Cons del: enable_times.simps)
qed

text \<open>Preparing a task for a switch gives a stack exactly to a coroutine that has none: it gets the
  stack of its allocation function and a context that starts its scheduling function at the top of
  that stack; a task that has a stack, and an init or idle task, is left as it is; doing it again
  changes nothing. The call panics exactly on a task that is not startable: a coroutine without the
  two functions.\<close>

theorem set_kstack_correct:
  "set_kstack ci ca t =
     (if kstack t = None \<and> \<not> is_init t \<and> \<not> is_idle t then
        (if alloc_stack t = None \<or> coroutine_entry t = None then Inl Panic
         else Inr (t\<lparr>kstack := Some (ca (the (alloc_stack t))),
           ctx := ci (the (coroutine_entry t)) (stack_top (ca (the (alloc_stack t)))) (ctx t)\<rparr>))
      else Inr t) \<and>
   bind_outcome (set_kstack ci ca t) (set_kstack ci ca) = set_kstack ci ca t \<and>
   (set_kstack ci ca t \<noteq> Inl Panic \<longleftrightarrow> startable t)"
  by (auto simp: set_kstack_def is_init_def is_idle_def startable_def Let_def split: option.splits)

end
