(* ===== verification/Vsched.thy ===== *)
theory Vsched
  imports Sched_Spec Task
begin

text \<open>
  The run queues of \<^verbatim>\<open>vsched/src/sched.rs\<close> and the functions the vDSO exports
  (\<^verbatim>\<open>vsched/src/api.rs\<close>), over any scheduler with the trait's operations. A call is one function on the
  state of all CPUs; a loop that waits for another CPU is \<open>Inl Spin\<close>: the call has not returned in
  this state.
\<close>

subsection \<open>Per-CPU data and the shared state\<close>

text \<open>\<open>prev_task\<close> is \<open>None\<close> while the cell is uninitialised.\<close>

record 'q percpu =
  cpu_id :: cpu
  current_task :: tid
  idle_task :: tid
  prev_task :: "tid option"
  scheduler :: 'q

definition percpu_new :: "'q \<Rightarrow> cpu \<Rightarrow> tid \<Rightarrow> tid \<Rightarrow> 'q percpu" where
  "percpu_new q0 c idle boot = \<lparr>cpu_id = c, current_task = boot, idle_task = idle,
     prev_task = Some boot, scheduler = q0\<rparr>"

text \<open>\<open>percpus\<close>: the vVAR array of \<^verbatim>\<open>SMP\<close> cells, \<open>None\<close> while uninitialised; \<open>tasks\<close>: the task control
  blocks; \<open>sched_info\<close>: the scheduler's fields of the tasks.\<close>

record ('q, 'i, 'c) vsched =
  percpus :: "'q percpu option list"
  tasks :: "tid \<Rightarrow> 'c task_inner"
  sched_info :: "tid \<Rightarrow> 'i"

text \<open>What the run queues are built over: the scheduler and the functions of \<^verbatim>\<open>set_kstack\<close>.\<close>

record ('q, 'i, 'c) platform =
  sched_ops :: "('q, 'i) base_scheduler_ops"
  scheduler_new :: 'q
  ctx_init :: "usize \<Rightarrow> usize \<Rightarrow> 'c \<Rightarrow> 'c"
  call_alloc :: "usize \<Rightarrow> task_stack"

definition get_run_queue :: "cpu \<Rightarrow> ('q, 'i, 'c) vsched \<Rightarrow> 'q percpu outcome" where
  "get_run_queue c s =
     (if c < length (percpus s)
      then (case percpus s ! c of None \<Rightarrow> Inl Undefined | Some p \<Rightarrow> Inr p)
      else Inl Panic)"

definition set_percpu :: "cpu \<Rightarrow> 'q percpu \<Rightarrow> ('q, 'i, 'c) vsched \<Rightarrow> ('q, 'i, 'c) vsched" where
  "set_percpu c p s = s\<lparr>percpus := (percpus s)[c := Some p]\<rparr>"

definition on_task :: "tid \<Rightarrow> ('c task_inner \<Rightarrow> 'c task_inner) \<Rightarrow> ('q, 'i, 'c) vsched \<Rightarrow> ('q, 'i, 'c) vsched" where
  "on_task t f s = s\<lparr>tasks := (tasks s)(t := f (tasks s t))\<rparr>"

definition set_sched :: "cpu \<Rightarrow> 'q percpu \<Rightarrow> ('q, 'i) sched_state \<Rightarrow> ('q, 'i, 'c) vsched \<Rightarrow> ('q, 'i, 'c) vsched" where
  "set_sched c p qi s = (set_percpu c (p\<lparr>scheduler := fst qi\<rparr>) s)\<lparr>sched_info := snd qi\<rparr>"

subsection \<open>Initialisation\<close>

definition init_vsched :: "('q, 'i, 'c) platform \<Rightarrow> cpu \<Rightarrow> tid \<Rightarrow> tid \<Rightarrow> ('q, 'i, 'c) vsched \<Rightarrow>
    ('q, 'i, 'c) vsched outcome" where
  "init_vsched env c idle boot s =
     (if c < length (percpus s)
      then Inr (set_percpu c (percpu_new (scheduler_new env) c idle boot) s)
      else Inl Panic)"

definition current :: "cpu \<Rightarrow> ('q, 'i, 'c) vsched \<Rightarrow> tid outcome" where
  "current c s = bind_outcome (get_run_queue c s) (\<lambda>p. Inr (current_task p))"

subsection \<open>Putting tasks into the run queue\<close>

definition put_prev :: "('q, 'i, 'c) platform \<Rightarrow> cpu \<Rightarrow> tid \<Rightarrow> bool \<Rightarrow> ('q, 'i, 'c) vsched \<Rightarrow>
    ('q, 'i, 'c) vsched outcome" where
  "put_prev env c t preempt s =
     bind_outcome (get_run_queue c s) (\<lambda>p.
       bind_outcome (put_prev_task (sched_ops env) t preempt (scheduler p, sched_info s)) (\<lambda>qi.
         Inr (set_sched c p qi s)))"

definition put_task_with_state :: "('q, 'i, 'c) platform \<Rightarrow> cpu \<Rightarrow> tid \<Rightarrow> TaskState \<Rightarrow> bool \<Rightarrow>
    ('q, 'i, 'c) vsched \<Rightarrow> (('q, 'i, 'c) vsched \<times> bool) outcome" where
  "put_task_with_state env c t current_state preempt s =
     (let (ti, ok) = transition_state current_state Ready (tasks s t);
          s1 = on_task t (\<lambda>_. ti) s
      in if ok \<and> \<not> is_idle ti then
           (if current_state = Blocked \<and> on_cpu ti then Inl Spin
            else bind_outcome (put_prev env c t preempt s1) (\<lambda>s2. Inr (s2, True)))
         else Inr (s1, False))"

definition spawn :: "('q, 'i, 'c) platform \<Rightarrow> cpu \<Rightarrow> tid \<Rightarrow> ('q, 'i, 'c) vsched \<Rightarrow> ('q, 'i, 'c) vsched outcome" where
  "spawn env c t s =
     bind_outcome (get_run_queue c s) (\<lambda>p.
     bind_outcome (is_ready (tasks s t)) (\<lambda>r.
     bind_outcome (assert_outcome r) (\<lambda>_.
     bind_outcome (add_task (sched_ops env) t (scheduler p, sched_info s)) (\<lambda>qi.
       Inr (set_sched c p qi s)))))"

definition migrate_entry :: "('q, 'i, 'c) platform \<Rightarrow> cpu \<Rightarrow> tid \<Rightarrow> ('q, 'i, 'c) vsched \<Rightarrow>
    ('q, 'i, 'c) vsched outcome" where
  "migrate_entry env c t s = put_prev env c t False s"

definition unblock_task :: "('q, 'i, 'c) platform \<Rightarrow> tid \<Rightarrow> bool \<Rightarrow> cpu \<Rightarrow> cpu \<Rightarrow> ('q, 'i, 'c) vsched \<Rightarrow>
    ('q, 'i, 'c) vsched outcome" where
  "unblock_task env t resched dst src s =
     bind_outcome (get_run_queue dst s) (\<lambda>p.
     bind_outcome (put_task_with_state env dst t Blocked resched s) (\<lambda>(s1, ok).
       if ok \<and> resched \<and> src = cpu_id p
       then bind_outcome (get_run_queue src s1) (\<lambda>ps.
              Inr (on_task (current_task ps) (set_preempt_pending True) s1))
       else Inr s1))"

subsection \<open>Ticks and priorities\<close>

definition vs_task_tick :: "('q, 'i, 'c) platform \<Rightarrow> cpu \<Rightarrow> tid \<Rightarrow> ('q, 'i, 'c) vsched \<Rightarrow>
    (('q, 'i, 'c) vsched \<times> bool) outcome" where
  "vs_task_tick env c t s =
     bind_outcome (get_run_queue c s) (\<lambda>p.
     bind_outcome (task_tick (sched_ops env) t (scheduler p, sched_info s)) (\<lambda>(qi, r).
       Inr (set_sched c p qi s, r)))"

definition vs_set_priority :: "('q, 'i, 'c) platform \<Rightarrow> isize \<Rightarrow> cpu \<Rightarrow> ('q, 'i, 'c) vsched \<Rightarrow>
    (('q, 'i, 'c) vsched \<times> bool) outcome" where
  "vs_set_priority env prio c s =
     bind_outcome (get_run_queue c s) (\<lambda>p.
     bind_outcome (set_priority (sched_ops env) (current_task p) prio (scheduler p, sched_info s)) (\<lambda>(qi, r).
       Inr (set_sched c p qi s, r)))"

subsection \<open>Rescheduling\<close>

text \<open>The next task: the scheduler's choice, or the idle task.\<close>

definition pick_or_idle :: "('q, 'i, 'c) platform \<Rightarrow> cpu \<Rightarrow> ('q, 'i, 'c) vsched \<Rightarrow>
    (('q, 'i, 'c) vsched \<times> tid) outcome" where
  "pick_or_idle env c s =
     bind_outcome (get_run_queue c s) (\<lambda>p.
     bind_outcome (pick_next_task (sched_ops env) (scheduler p, sched_info s)) (\<lambda>(qi, r).
       Inr (set_sched c p qi s, case r of Some t \<Rightarrow> t | None \<Rightarrow> idle_task p)))"

text \<open>\<open>Some (prev, next)\<close>: the CPU has switched from the context of \<open>prev\<close> to that of \<open>next\<close>.\<close>

definition switch_to :: "('q, 'i, 'c) platform \<Rightarrow> cpu \<Rightarrow> tid \<Rightarrow> tid \<Rightarrow> ('q, 'i, 'c) vsched \<Rightarrow>
    (('q, 'i, 'c) vsched \<times> (tid \<times> tid) option) outcome" where
  "switch_to env c prev next s =
     (let s1 = on_task next (set_state Running) (on_task next (set_preempt_pending False) s) in
      if prev = next then Inr (s1, None)
      else
        let s2 = on_task next (set_on_cpu True) s1 in
        bind_outcome (set_kstack (ctx_init env) (call_alloc env) (tasks s2 next)) (\<lambda>ti.
        let s3 = on_task next (\<lambda>_. ti) s2 in
        bind_outcome (get_run_queue c s3) (\<lambda>p.
          Inr (set_percpu c (p\<lparr>prev_task := Some prev, current_task := next\<rparr>) s3, Some (prev, next)))))"

definition resched :: "('q, 'i, 'c) platform \<Rightarrow> cpu \<Rightarrow> ('q, 'i, 'c) vsched \<Rightarrow>
    (('q, 'i, 'c) vsched \<times> (tid \<times> tid) option) outcome" where
  "resched env c s =
     bind_outcome (pick_or_idle env c s) (\<lambda>(s1, next).
     bind_outcome (is_ready (tasks s1 next)) (\<lambda>r.
     bind_outcome (assert_outcome r) (\<lambda>_.
     bind_outcome (get_run_queue c s1) (\<lambda>p.
       switch_to env c (current_task p) next s1))))"

text \<open>\<^verbatim>\<open>resched_f\<close>: as \<open>resched\<close>, without the context switch; the result tells whether the task changed.\<close>

definition resched_f :: "('q, 'i, 'c) platform \<Rightarrow> cpu \<Rightarrow> ('q, 'i, 'c) vsched \<Rightarrow>
    (('q, 'i, 'c) vsched \<times> bool) outcome" where
  "resched_f env c s =
     bind_outcome (pick_or_idle env c s) (\<lambda>(s1, next).
     bind_outcome (is_ready (tasks s1 next)) (\<lambda>r.
     bind_outcome (assert_outcome r) (\<lambda>_.
     bind_outcome (get_run_queue c s1) (\<lambda>p.
       let prev = current_task p;
           s2 = on_task next (set_state Running) (on_task next (set_preempt_pending False) s1) in
       if prev = next then Inr (s2, False)
       else Inr (set_percpu c (p\<lparr>prev_task := Some prev, current_task := next\<rparr>)
                   (on_task next (set_on_cpu True) s2), True)))))"

definition clear_prev_task_on_cpu :: "cpu \<Rightarrow> ('q, 'i, 'c) vsched \<Rightarrow> ('q, 'i, 'c) vsched outcome" where
  "clear_prev_task_on_cpu c s =
     bind_outcome (get_run_queue c s) (\<lambda>p.
       case prev_task p of None \<Rightarrow> Inl Undefined | Some t \<Rightarrow> Inr (on_task t (set_on_cpu False) s))"

definition take_prev_task_and_clear_on_cpu :: "cpu \<Rightarrow> ('q, 'i, 'c) vsched \<Rightarrow>
    (('q, 'i, 'c) vsched \<times> tid) outcome" where
  "take_prev_task_and_clear_on_cpu c s =
     bind_outcome (get_run_queue c s) (\<lambda>p.
       case prev_task p of
         None \<Rightarrow> Inl Undefined
       | Some t \<Rightarrow> Inr (on_task t (set_on_cpu False) (set_percpu c (p\<lparr>prev_task := None\<rparr>) s), t))"

subsection \<open>Giving up the CPU\<close>

text \<open>\<^verbatim>\<open>yield_current\<close> and \<^verbatim>\<open>preempt_current\<close> differ in the flag.\<close>

definition yield_with :: "bool \<Rightarrow> ('q, 'i, 'c) platform \<Rightarrow> cpu \<Rightarrow> ('q, 'i, 'c) vsched \<Rightarrow>
    ('q, 'i, 'c) vsched outcome" where
  "yield_with preempt env c s =
     bind_outcome (get_run_queue c s) (\<lambda>p.
     bind_outcome (is_running (tasks s (current_task p))) (\<lambda>r.
     bind_outcome (assert_outcome r) (\<lambda>_.
     bind_outcome (put_task_with_state env c (current_task p) Running preempt s) (\<lambda>(s1, ok).
       Inr s1))))"

definition yield_now :: "('q, 'i, 'c) platform \<Rightarrow> cpu \<Rightarrow> ('q, 'i, 'c) vsched \<Rightarrow>
    (('q, 'i, 'c) vsched \<times> (tid \<times> tid) option) outcome" where
  "yield_now env c s = bind_outcome (yield_with False env c s) (resched env c)"

definition preempt_current :: "('q, 'i, 'c) platform \<Rightarrow> cpu \<Rightarrow> ('q, 'i, 'c) vsched \<Rightarrow>
    (('q, 'i, 'c) vsched \<times> (tid \<times> tid) option) outcome" where
  "preempt_current env c s = bind_outcome (yield_with True env c s) (resched env c)"

definition yield_f :: "('q, 'i, 'c) platform \<Rightarrow> cpu \<Rightarrow> ('q, 'i, 'c) vsched \<Rightarrow>
    (('q, 'i, 'c) vsched \<times> bool) outcome" where
  "yield_f env c s = bind_outcome (yield_with False env c s) (resched_f env c)"

end
