(* ===== verification/Vsched_Spec.thy ===== *)
theory Vsched_Spec
  imports Vsched
begin

text \<open>
  The abstract scheduler that the run queues implement: which task each CPU runs, which task it has
  just left, what waits in each ready queue, and the state of every task; its invariant, that a task
  is in at most one place, and its preservation by the abstract steps.
\<close>

subsection \<open>The abstract state\<close>

record view =
  v_cpus :: nat
  v_cur :: "cpu \<Rightarrow> tid"
  v_idle :: "cpu \<Rightarrow> tid"
  v_prev :: "cpu \<Rightarrow> tid option"
  v_queue :: "cpu \<Rightarrow> tid multiset"
  v_bound :: "cpu \<Rightarrow> nat"
  v_state :: "tid \<Rightarrow> TaskState outcome"
  v_oncpu :: "tid \<Rightarrow> bool"
  v_isidle :: "tid \<Rightarrow> bool"
  v_startable :: "tid \<Rightarrow> bool"

text \<open>
  \<open>pend\<close>: the CPUs that have switched to a new task and have not yet cleared the flag of the old one.
  \<open>gap\<close>: a CPU whose current task has given up the CPU and whose next task is not picked yet.
\<close>

definition one_place :: "view \<Rightarrow> bool" where
  "one_place v \<longleftrightarrow>
     (\<forall>c < v_cpus v. \<forall>d < v_cpus v. v_cur v c = v_cur v d \<longrightarrow> c = d) \<and>
     (\<forall>c < v_cpus v. \<forall>t. count (v_queue v c) t \<le> 1) \<and>
     (\<forall>c < v_cpus v. \<forall>d < v_cpus v. \<forall>t. t \<in># v_queue v c \<and> t \<in># v_queue v d \<longrightarrow> c = d)"

definition queues_ready :: "view \<Rightarrow> bool" where
  "queues_ready v \<longleftrightarrow> (\<forall>c < v_cpus v. \<forall>t. t \<in># v_queue v c \<longrightarrow>
     v_state v t = Inr Ready \<and> \<not> v_isidle v t \<and> v_startable v t)"

definition currents_run :: "cpu option \<Rightarrow> view \<Rightarrow> bool" where
  "currents_run gap v \<longleftrightarrow> (\<forall>c < v_cpus v. v_startable v (v_cur v c) \<and>
     (gap \<noteq> Some c \<longrightarrow> v_state v (v_cur v c) = Inr Running) \<and>
     (gap = Some c \<longrightarrow> v_state v (v_cur v c) \<in> {Inr Ready, Inr Blocked, Inr Exited} \<and>
       (\<forall>d < v_cpus v. v_cur v c \<in># v_queue v d \<longrightarrow> d = c)))"

definition idles_ok :: "cpu option \<Rightarrow> view \<Rightarrow> bool" where
  "idles_ok gap v \<longleftrightarrow>
     (\<forall>c < v_cpus v. v_isidle v (v_idle v c) \<and> v_startable v (v_idle v c) \<and>
        (v_isidle v (v_cur v c) \<longrightarrow> v_cur v c = v_idle v c) \<and>
        (v_cur v c \<noteq> v_idle v c \<or> gap = Some c \<longrightarrow> v_state v (v_idle v c) = Inr Ready)) \<and>
     (\<forall>c < v_cpus v. \<forall>d < v_cpus v. v_idle v c = v_idle v d \<longrightarrow> c = d)"

definition on_cpu_exact :: "cpu set \<Rightarrow> view \<Rightarrow> bool" where
  "on_cpu_exact pend v \<longleftrightarrow>
     (\<forall>t. v_oncpu v t \<longleftrightarrow> (\<exists>c < v_cpus v. v_cur v c = t \<or> c \<in> pend \<and> v_prev v c = Some t))"

definition prevs_ok :: "cpu set \<Rightarrow> view \<Rightarrow> bool" where
  "prevs_ok pend v \<longleftrightarrow>
     (\<forall>c < v_cpus v. c \<in> pend \<longrightarrow> (\<exists>p. v_prev v c = Some p \<and>
        (\<forall>d < v_cpus v. v_cur v d \<noteq> p) \<and> (\<forall>d < v_cpus v. p \<in># v_queue v d \<longrightarrow> d = c) \<and>
        (v_isidle v p \<longrightarrow> p = v_idle v c))) \<and>
     (\<forall>c < v_cpus v. \<forall>d < v_cpus v. c \<in> pend \<and> d \<in> pend \<and> v_prev v c = v_prev v d \<longrightarrow> c = d)"

definition view_inv :: "cpu option \<Rightarrow> cpu set \<Rightarrow> view \<Rightarrow> bool" where
  "view_inv gap pend v \<longleftrightarrow> one_place v \<and> queues_ready v \<and> currents_run gap v \<and> idles_ok gap v \<and>
     on_cpu_exact pend v \<and> prevs_ok pend v"

lemmas view_inv_defs = one_place_def queues_ready_def currents_run_def idles_ok_def on_cpu_exact_def prevs_ok_def

text \<open>The invariant clause by clause, for proofs.\<close>

lemma view_invI:
  assumes "\<And>c d. c < v_cpus v \<Longrightarrow> d < v_cpus v \<Longrightarrow> v_cur v c = v_cur v d \<Longrightarrow> c = d"
    and "\<And>c t. c < v_cpus v \<Longrightarrow> count (v_queue v c) t \<le> 1"
    and "\<And>c d t. c < v_cpus v \<Longrightarrow> d < v_cpus v \<Longrightarrow> t \<in># v_queue v c \<Longrightarrow> t \<in># v_queue v d \<Longrightarrow> c = d"
    and "\<And>c t. c < v_cpus v \<Longrightarrow> t \<in># v_queue v c \<Longrightarrow>
      v_state v t = Inr Ready \<and> \<not> v_isidle v t \<and> v_startable v t"
    and "\<And>c. c < v_cpus v \<Longrightarrow> gap \<noteq> Some c \<Longrightarrow> v_state v (v_cur v c) = Inr Running"
    and "\<And>c. c < v_cpus v \<Longrightarrow> gap = Some c \<Longrightarrow> v_state v (v_cur v c) \<in> {Inr Ready, Inr Blocked, Inr Exited}"
    and "\<And>c d. c < v_cpus v \<Longrightarrow> d < v_cpus v \<Longrightarrow> gap = Some c \<Longrightarrow> v_cur v c \<in># v_queue v d \<Longrightarrow> d = c"
    and "\<And>c. c < v_cpus v \<Longrightarrow> v_startable v (v_cur v c)"
    and "\<And>c. c < v_cpus v \<Longrightarrow> v_isidle v (v_idle v c) \<and> v_startable v (v_idle v c)"
    and "\<And>c. c < v_cpus v \<Longrightarrow> v_isidle v (v_cur v c) \<Longrightarrow> v_cur v c = v_idle v c"
    and "\<And>c. c < v_cpus v \<Longrightarrow> v_cur v c \<noteq> v_idle v c \<or> gap = Some c \<Longrightarrow> v_state v (v_idle v c) = Inr Ready"
    and "\<And>c d. c < v_cpus v \<Longrightarrow> d < v_cpus v \<Longrightarrow> v_idle v c = v_idle v d \<Longrightarrow> c = d"
    and "\<And>t. v_oncpu v t \<longleftrightarrow> (\<exists>c < v_cpus v. v_cur v c = t \<or> c \<in> pend \<and> v_prev v c = Some t)"
    and "\<And>c. c < v_cpus v \<Longrightarrow> c \<in> pend \<Longrightarrow> \<exists>p. v_prev v c = Some p \<and>
        (\<forall>d < v_cpus v. v_cur v d \<noteq> p) \<and> (\<forall>d < v_cpus v. p \<in># v_queue v d \<longrightarrow> d = c) \<and>
        (v_isidle v p \<longrightarrow> p = v_idle v c)"
    and "\<And>c d. c < v_cpus v \<Longrightarrow> d < v_cpus v \<Longrightarrow> c \<in> pend \<Longrightarrow> d \<in> pend \<Longrightarrow> v_prev v c = v_prev v d \<Longrightarrow> c = d"
  shows "view_inv gap pend v"
proof -
  have "one_place v" unfolding one_place_def using assms(1-3) by blast
  moreover have "queues_ready v" unfolding queues_ready_def using assms(4) by blast
  moreover have "currents_run gap v" unfolding currents_run_def using assms(5-8) by blast
  moreover have "idles_ok gap v" unfolding idles_ok_def using assms(9-12) by blast
  moreover have "on_cpu_exact pend v" unfolding on_cpu_exact_def using assms(13) by blast
  moreover have "prevs_ok pend v" unfolding prevs_ok_def using assms(14,15) by blast
  ultimately show ?thesis by (simp only: view_inv_def)
qed

lemma cur_distinct: "view_inv gap pend v \<Longrightarrow> c < v_cpus v \<Longrightarrow> d < v_cpus v \<Longrightarrow> v_cur v c = v_cur v d \<Longrightarrow> c = d"
  and queue_once: "view_inv gap pend v \<Longrightarrow> c < v_cpus v \<Longrightarrow> count (v_queue v c) t \<le> 1"
  and queue_unique: "view_inv gap pend v \<Longrightarrow> c < v_cpus v \<Longrightarrow> d < v_cpus v \<Longrightarrow> t \<in># v_queue v c \<Longrightarrow> t \<in># v_queue v d \<Longrightarrow> c = d"
  unfolding view_inv_def one_place_def by blast+

lemma queued_ready: "view_inv gap pend v \<Longrightarrow> c < v_cpus v \<Longrightarrow> t \<in># v_queue v c \<Longrightarrow> v_state v t = Inr Ready"
  and queued_not_idle: "view_inv gap pend v \<Longrightarrow> c < v_cpus v \<Longrightarrow> t \<in># v_queue v c \<Longrightarrow> \<not> v_isidle v t"
  and queued_startable: "view_inv gap pend v \<Longrightarrow> c < v_cpus v \<Longrightarrow> t \<in># v_queue v c \<Longrightarrow> v_startable v t"
  unfolding view_inv_def queues_ready_def by blast+

lemma cur_running: "view_inv gap pend v \<Longrightarrow> c < v_cpus v \<Longrightarrow> gap \<noteq> Some c \<Longrightarrow> v_state v (v_cur v c) = Inr Running"
  and cur_gap: "view_inv gap pend v \<Longrightarrow> c < v_cpus v \<Longrightarrow> gap = Some c \<Longrightarrow> v_state v (v_cur v c) \<in> {Inr Ready, Inr Blocked, Inr Exited}"
  and cur_gap_queue: "view_inv gap pend v \<Longrightarrow> c < v_cpus v \<Longrightarrow> d < v_cpus v \<Longrightarrow> gap = Some c \<Longrightarrow> v_cur v c \<in># v_queue v d \<Longrightarrow> d = c"
  and cur_startable: "view_inv gap pend v \<Longrightarrow> c < v_cpus v \<Longrightarrow> v_startable v (v_cur v c)"
  unfolding view_inv_def currents_run_def by blast+

lemma idle_isidle: "view_inv gap pend v \<Longrightarrow> c < v_cpus v \<Longrightarrow> v_isidle v (v_idle v c)"
  and idle_startable: "view_inv gap pend v \<Longrightarrow> c < v_cpus v \<Longrightarrow> v_startable v (v_idle v c)"
  and cur_idle: "view_inv gap pend v \<Longrightarrow> c < v_cpus v \<Longrightarrow> v_isidle v (v_cur v c) \<Longrightarrow> v_cur v c = v_idle v c"
  and idle_ready: "view_inv gap pend v \<Longrightarrow> c < v_cpus v \<Longrightarrow> v_cur v c \<noteq> v_idle v c \<or> gap = Some c \<Longrightarrow> v_state v (v_idle v c) = Inr Ready"
  and idle_distinct: "view_inv gap pend v \<Longrightarrow> c < v_cpus v \<Longrightarrow> d < v_cpus v \<Longrightarrow> v_idle v c = v_idle v d \<Longrightarrow> c = d"
  unfolding view_inv_def idles_ok_def by blast+

lemma oncpu_iff: "view_inv gap pend v \<Longrightarrow> v_oncpu v t \<longleftrightarrow> (\<exists>c < v_cpus v. v_cur v c = t \<or> c \<in> pend \<and> v_prev v c = Some t)"
  unfolding view_inv_def on_cpu_exact_def by blast+

lemma prev_all: "view_inv gap pend v \<Longrightarrow> c < v_cpus v \<Longrightarrow> c \<in> pend \<Longrightarrow> \<exists>p. v_prev v c = Some p \<and>
    (\<forall>d < v_cpus v. v_cur v d \<noteq> p) \<and> (\<forall>d < v_cpus v. p \<in># v_queue v d \<longrightarrow> d = c) \<and>
    (v_isidle v p \<longrightarrow> p = v_idle v c)"
  unfolding view_inv_def prevs_ok_def by (elim conjE) simp

lemma prev_distinct: "view_inv gap pend v \<Longrightarrow> c < v_cpus v \<Longrightarrow> d < v_cpus v \<Longrightarrow>
    c \<in> pend \<Longrightarrow> d \<in> pend \<Longrightarrow> v_prev v c = v_prev v d \<Longrightarrow> c = d"
  unfolding view_inv_def prevs_ok_def by (elim conjE) simp

lemma prev_some: "view_inv gap pend v \<Longrightarrow> c < v_cpus v \<Longrightarrow> c \<in> pend \<Longrightarrow> \<exists>p. v_prev v c = Some p"
  by (drule (2) prev_all, blast)

lemma prev_not_cur: "view_inv gap pend v \<Longrightarrow> c < v_cpus v \<Longrightarrow> c \<in> pend \<Longrightarrow> v_prev v c = Some p \<Longrightarrow>
    d < v_cpus v \<Longrightarrow> v_cur v d \<noteq> p"
  and prev_queue: "view_inv gap pend v \<Longrightarrow> c < v_cpus v \<Longrightarrow> c \<in> pend \<Longrightarrow> v_prev v c = Some p \<Longrightarrow>
    d < v_cpus v \<Longrightarrow> p \<in># v_queue v d \<Longrightarrow> d = c"
  and prev_idle: "view_inv gap pend v \<Longrightarrow> c < v_cpus v \<Longrightarrow> c \<in> pend \<Longrightarrow> v_prev v c = Some p \<Longrightarrow>
    v_isidle v p \<Longrightarrow> p = v_idle v c"
  by (metis prev_all option.inject)+

subsection \<open>The abstract steps\<close>

definition a_state :: "tid \<Rightarrow> TaskState \<Rightarrow> view \<Rightarrow> view" where
  "a_state t x v = v\<lparr>v_state := (v_state v)(t := Inr x)\<rparr>"

definition a_enqueue :: "cpu \<Rightarrow> tid \<Rightarrow> view \<Rightarrow> view" where
  "a_enqueue c t v = v\<lparr>v_queue := (v_queue v)(c := offer (v_bound v c) t (v_queue v c))\<rparr>"

definition a_dequeue :: "cpu \<Rightarrow> tid multiset \<Rightarrow> view \<Rightarrow> view" where
  "a_dequeue c q v = v\<lparr>v_queue := (v_queue v)(c := q)\<rparr>"

definition a_switch :: "cpu \<Rightarrow> tid \<Rightarrow> view \<Rightarrow> view" where
  "a_switch c t v = (if v_cur v c = t then a_state t Running v
     else (a_state t Running v)\<lparr>v_oncpu := (v_oncpu v)(t := True),
       v_prev := (v_prev v)(c := Some (v_cur v c)), v_cur := (v_cur v)(c := t)\<rparr>)"

definition a_clear :: "cpu \<Rightarrow> tid \<Rightarrow> view \<Rightarrow> view" where
  "a_clear c t v = v\<lparr>v_oncpu := (v_oncpu v)(t := False), v_prev := (v_prev v)(c := None)\<rparr>"

text \<open>A task that is nowhere: not running, not just left, not waiting.\<close>

definition unplaced :: "cpu set \<Rightarrow> tid \<Rightarrow> view \<Rightarrow> bool" where
  "unplaced pend t v \<longleftrightarrow> (\<forall>c < v_cpus v. v_cur v c \<noteq> t \<and> t \<notin># v_queue v c \<and>
     \<not> (c \<in> pend \<and> v_prev v c = Some t))"

lemma offer_cases: "offer b t q = add_mset t q \<or> offer b t q = q"
  by (simp add: offer_def)

lemma in_offer: "u \<in># offer b t q \<Longrightarrow> u = t \<or> u \<in># q"
  by (auto simp: offer_def split: if_splits)

lemma count_offer: "count (offer b t q) u \<le> (if u = t then Suc (count q t) else count q u)"
  by (simp add: offer_def)

subsection \<open>Preservation\<close>

lemma a_state_simps [simp]:
  "v_cpus (a_state t x v) = v_cpus v" "v_cur (a_state t x v) = v_cur v" "v_idle (a_state t x v) = v_idle v"
  "v_prev (a_state t x v) = v_prev v" "v_queue (a_state t x v) = v_queue v" "v_bound (a_state t x v) = v_bound v"
  "v_oncpu (a_state t x v) = v_oncpu v" "v_isidle (a_state t x v) = v_isidle v"
  "v_startable (a_state t x v) = v_startable v"
  "v_state (a_state t x v) u = (if u = t then Inr x else v_state v u)"
  by (simp_all add: a_state_def)

lemma a_enqueue_simps [simp]:
  "v_cpus (a_enqueue c t v) = v_cpus v" "v_cur (a_enqueue c t v) = v_cur v" "v_idle (a_enqueue c t v) = v_idle v"
  "v_prev (a_enqueue c t v) = v_prev v" "v_bound (a_enqueue c t v) = v_bound v"
  "v_state (a_enqueue c t v) = v_state v" "v_oncpu (a_enqueue c t v) = v_oncpu v"
  "v_isidle (a_enqueue c t v) = v_isidle v" "v_startable (a_enqueue c t v) = v_startable v"
  "v_queue (a_enqueue c t v) e = (if e = c then offer (v_bound v c) t (v_queue v c) else v_queue v e)"
  by (simp_all add: a_enqueue_def)

text \<open>The current task of a CPU gives up the CPU: it becomes ready, blocked or exited.\<close>

lemma leave_inv:
  assumes inv: "view_inv None pend v" and c: "c < v_cpus v"
    and x: "x \<noteq> Running" "v_isidle v (v_cur v c) \<Longrightarrow> x = Ready"
  shows "view_inv (Some c) pend (a_state (v_cur v c) x v)"
proof -
  have run: "v_state v (v_cur v e) = Inr Running" if "e < v_cpus v" for e
    using cur_running [OF inv that] by simp
  have q: "v_cur v c \<notin># v_queue v e" if "e < v_cpus v" for e
    using queued_ready [OF inv that, of "v_cur v c"] run [OF c] by auto
  have other: "v_cur v e \<noteq> v_cur v c" if "e < v_cpus v" "e \<noteq> c" for e
    using cur_distinct [OF inv that(1) c] that(2) by blast
  have idle: "v_idle v e = v_cur v c \<Longrightarrow> e < v_cpus v \<Longrightarrow> e = c \<and> x = Ready" for e
    using idle_isidle [OF inv, of e] cur_idle [OF inv c] idle_distinct [OF inv _ c, of e] x(2) by metis
  show ?thesis
  proof (rule view_invI; (simp only: a_state_simps)?)
    show "\<And>c d. c < v_cpus v \<Longrightarrow> d < v_cpus v \<Longrightarrow> v_cur v c = v_cur v d \<Longrightarrow> c = d"
      by (rule cur_distinct [OF inv])
    show "\<And>c t. c < v_cpus v \<Longrightarrow> count (v_queue v c) t \<le> 1" by (rule queue_once [OF inv])
    show "\<And>c d t. c < v_cpus v \<Longrightarrow> d < v_cpus v \<Longrightarrow> t \<in># v_queue v c \<Longrightarrow> t \<in># v_queue v d \<Longrightarrow> c = d"
      by (rule queue_unique [OF inv])
    show "\<And>e t. e < v_cpus v \<Longrightarrow> t \<in># v_queue v e \<Longrightarrow>
        (if t = v_cur v c then Inr x else v_state v t) = Inr Ready \<and> \<not> v_isidle v t \<and> v_startable v t"
      using q queued_ready [OF inv] queued_not_idle [OF inv] queued_startable [OF inv] by auto
    show "\<And>e. e < v_cpus v \<Longrightarrow> Some c \<noteq> Some e \<Longrightarrow> (if v_cur v e = v_cur v c then Inr x else v_state v (v_cur v e)) = Inr Running"
      using other run by auto
    show "\<And>e. e < v_cpus v \<Longrightarrow> Some c = Some e \<Longrightarrow> (if v_cur v e = v_cur v c then Inr x else v_state v (v_cur v e)) \<in> {Inr Ready, Inr Blocked, Inr Exited}"
      using x(1) by (cases x) auto
    show "\<And>e d. e < v_cpus v \<Longrightarrow> d < v_cpus v \<Longrightarrow> Some c = Some e \<Longrightarrow> v_cur v e \<in># v_queue v d \<Longrightarrow> d = e"
      using q by auto
    show "\<And>e. e < v_cpus v \<Longrightarrow> v_startable v (v_cur v e)" by (rule cur_startable [OF inv])
    show "\<And>e. e < v_cpus v \<Longrightarrow> v_isidle v (v_idle v e) \<and> v_startable v (v_idle v e)"
      using idle_isidle [OF inv] idle_startable [OF inv] by simp
    show "\<And>e. e < v_cpus v \<Longrightarrow> v_isidle v (v_cur v e) \<Longrightarrow> v_cur v e = v_idle v e" by (rule cur_idle [OF inv])
    show "\<And>e. e < v_cpus v \<Longrightarrow> v_cur v e \<noteq> v_idle v e \<or> Some c = Some e \<Longrightarrow>
        (if v_idle v e = v_cur v c then Inr x else v_state v (v_idle v e)) = Inr Ready"
      using idle idle_ready [OF inv] by (metis option.inject)
    show "\<And>c d. c < v_cpus v \<Longrightarrow> d < v_cpus v \<Longrightarrow> v_idle v c = v_idle v d \<Longrightarrow> c = d"
      by (rule idle_distinct [OF inv])
    show "\<And>t. v_oncpu v t \<longleftrightarrow> (\<exists>c < v_cpus v. v_cur v c = t \<or> c \<in> pend \<and> v_prev v c = Some t)"
      by (rule oncpu_iff [OF inv])
    show "\<And>c. c < v_cpus v \<Longrightarrow> c \<in> pend \<Longrightarrow> \<exists>p. v_prev v c = Some p \<and>
        (\<forall>d < v_cpus v. v_cur v d \<noteq> p) \<and> (\<forall>d < v_cpus v. p \<in># v_queue v d \<longrightarrow> d = c) \<and>
        (v_isidle v p \<longrightarrow> p = v_idle v c)" by (rule prev_all [OF inv])
    show "\<And>c d. c < v_cpus v \<Longrightarrow> d < v_cpus v \<Longrightarrow> c \<in> pend \<Longrightarrow> d \<in> pend \<Longrightarrow> v_prev v c = v_prev v d \<Longrightarrow> c = d"
      by (rule prev_distinct [OF inv])
  qed
qed

lemma view_inv_parts:
  assumes "one_place v" "queues_ready v" "currents_run gap v" "idles_ok gap v" "on_cpu_exact pend v"
    "prevs_ok pend v"
  shows "view_inv gap pend v"
  using assms by (simp only: view_inv_def)

lemma view_inv_partsD:
  assumes "view_inv gap pend v"
  shows "one_place v" "queues_ready v" "currents_run gap v" "idles_ok gap v" "on_cpu_exact pend v"
    "prevs_ok pend v"
  using assms by (simp_all only: view_inv_def)

text \<open>A ready task that is nowhere, or the task that has just given up the CPU, is offered to a queue.\<close>

lemma enqueue_inv:
  assumes inv: "view_inv gap pend v" and c: "c < v_cpus v"
    and t: "v_state v t = Inr Ready" "\<not> v_isidle v t" "v_startable v t"
    and place: "unplaced pend t v \<or> gap = Some c \<and> v_cur v c = t \<and> c \<notin> pend \<and> t \<notin># v_queue v c"
  shows "view_inv gap pend (a_enqueue c t v)"
proof -
  note d = view_inv_partsD [OF inv]
  have nq: "t \<notin># v_queue v e" if "e < v_cpus v" for e
    using place that cur_gap_queue [OF inv c that] unfolding unplaced_def by metis
  have np: "v_prev v e \<noteq> Some t" if "e < v_cpus v" "e \<in> pend" for e
    using place that prev_not_cur [OF inv that, of t c] c unfolding unplaced_def by metis
  have nc: "e = c \<or> v_cur v e \<noteq> t" if "e < v_cpus v" for e
    using place that cur_distinct [OF inv that c] unfolding unplaced_def by metis
  have ng: "gap \<noteq> Some e \<or> e = c \<or> v_cur v e \<noteq> t" if "e < v_cpus v" for e using nc that by blast
  have new: "u \<in># v_queue v e \<or> u = t \<and> e = c" if "u \<in># v_queue (a_enqueue c t v) e" for u e
    using that by (auto split: if_splits dest: in_offer)
  have cnt: "count (v_queue (a_enqueue c t v) e) u \<le> 1" if "e < v_cpus v" for e u
    using queue_once [OF inv that, of u] nq [OF c] count_offer [of "v_bound v c" t "v_queue v c" u]
    by (auto simp: not_in_iff split: if_splits)
  show ?thesis
  proof (rule view_inv_parts)
    show "one_place (a_enqueue c t v)"
      unfolding one_place_def
    proof (intro conjI allI impI)
      fix e f u assume "e < v_cpus (a_enqueue c t v)" "f < v_cpus (a_enqueue c t v)"
        "u \<in># v_queue (a_enqueue c t v) e \<and> u \<in># v_queue (a_enqueue c t v) f"
      then show "e = f" using new [of u e] new [of u f] nq queue_unique [OF inv, of e f u] by auto
    qed (use cnt cur_distinct [OF inv] in auto)
    show "queues_ready (a_enqueue c t v)" unfolding queues_ready_def
    proof (intro allI impI)
      fix e u assume "e < v_cpus (a_enqueue c t v)" "u \<in># v_queue (a_enqueue c t v) e"
      then show "v_state (a_enqueue c t v) u = Inr Ready \<and> \<not> v_isidle (a_enqueue c t v) u \<and>
          v_startable (a_enqueue c t v) u"
        using new [of u e] t queued_ready [OF inv, of e u] queued_not_idle [OF inv, of e u]
          queued_startable [OF inv, of e u] by auto
    qed
    show "currents_run gap (a_enqueue c t v)" unfolding currents_run_def
    proof (intro allI impI conjI)
      fix e f assume "e < v_cpus (a_enqueue c t v)" "gap = Some e" "f < v_cpus (a_enqueue c t v)"
        "v_cur (a_enqueue c t v) e \<in># v_queue (a_enqueue c t v) f"
      then show "f = e" using new [of "v_cur v e" f] nc [of e] cur_gap_queue [OF inv, of e f] by auto
    qed (use cur_running [OF inv] cur_gap [OF inv] cur_startable [OF inv] in auto)
    show "idles_ok gap (a_enqueue c t v)" using d(4) unfolding idles_ok_def a_enqueue_simps .
    show "on_cpu_exact pend (a_enqueue c t v)" using d(5) unfolding on_cpu_exact_def a_enqueue_simps .
    show "prevs_ok pend (a_enqueue c t v)" unfolding prevs_ok_def
    proof (intro allI impI conjI)
      fix e assume e: "e < v_cpus (a_enqueue c t v)" "e \<in> pend"
      then obtain p where p: "v_prev v e = Some p" using prev_some [OF inv, of e] by auto
      show "\<exists>p. v_prev (a_enqueue c t v) e = Some p \<and> (\<forall>d < v_cpus (a_enqueue c t v). v_cur (a_enqueue c t v) d \<noteq> p) \<and>
          (\<forall>d < v_cpus (a_enqueue c t v). p \<in># v_queue (a_enqueue c t v) d \<longrightarrow> d = e) \<and>
          (v_isidle (a_enqueue c t v) p \<longrightarrow> p = v_idle (a_enqueue c t v) e)"
      proof (intro exI [of _ p] conjI allI impI)
        show "v_prev (a_enqueue c t v) e = Some p" using p by simp
        show "v_cur (a_enqueue c t v) f \<noteq> p" if "f < v_cpus (a_enqueue c t v)" for f
          using prev_not_cur [OF inv, of e p f] e p that by simp
        show "f = e" if "f < v_cpus (a_enqueue c t v)" "p \<in># v_queue (a_enqueue c t v) f" for f
          using new [OF that(2)] np [of e] p e prev_queue [OF inv, of e p f] that(1) by auto
        show "p = v_idle (a_enqueue c t v) e" if "v_isidle (a_enqueue c t v) p"
          using prev_idle [OF inv, of e p] e p that by simp
      qed
    qed (use prev_distinct [OF inv] in auto)
  qed
qed

text \<open>Picking the next task: it leaves the queue, or the queue is empty and it is the idle task.\<close>

definition a_pick :: "cpu \<Rightarrow> tid \<Rightarrow> view \<Rightarrow> view \<Rightarrow> bool" where
  "a_pick c t v v' \<longleftrightarrow>
     (v_queue v c = {#} \<and> t = v_idle v c \<and> v' = v) \<or>
     (\<exists>q. v_queue v c = add_mset t q \<and> v' = a_dequeue c q v)"

lemma a_dequeue_simps [simp]:
  "v_cpus (a_dequeue c q v) = v_cpus v" "v_cur (a_dequeue c q v) = v_cur v" "v_idle (a_dequeue c q v) = v_idle v"
  "v_prev (a_dequeue c q v) = v_prev v" "v_bound (a_dequeue c q v) = v_bound v"
  "v_state (a_dequeue c q v) = v_state v" "v_oncpu (a_dequeue c q v) = v_oncpu v"
  "v_isidle (a_dequeue c q v) = v_isidle v" "v_startable (a_dequeue c q v) = v_startable v"
  "v_queue (a_dequeue c q v) e = (if e = c then q else v_queue v e)"
  by (simp_all add: a_dequeue_def)

lemma a_switch_simps [simp]:
  "v_cpus (a_switch c t v) = v_cpus v" "v_idle (a_switch c t v) = v_idle v"
  "v_queue (a_switch c t v) = v_queue v" "v_bound (a_switch c t v) = v_bound v"
  "v_isidle (a_switch c t v) = v_isidle v" "v_startable (a_switch c t v) = v_startable v"
  "v_state (a_switch c t v) u = (if u = t then Inr Running else v_state v u)"
  "v_cur (a_switch c t v) = (v_cur v)(c := t)"
  "v_oncpu (a_switch c t v) u = (if u = t \<and> v_cur v c \<noteq> t then True else v_oncpu v u)"
  "v_prev (a_switch c t v) e = (if e = c \<and> v_cur v c \<noteq> t then Some (v_cur v c) else v_prev v e)"
  by (auto simp: a_switch_def)

text \<open>What is known of the task picked on CPU \<open>c\<close>, in either case.\<close>

lemma picked_facts:
  assumes inv: "view_inv (Some c) pend v" and c: "c < v_cpus v" and pick: "a_pick c t v v'"
  shows "v_state v t = Inr Ready" "v_startable v t" "v_isidle v t \<Longrightarrow> t = v_idle v c"
    "\<And>e. e < v_cpus v \<Longrightarrow> v_cur v e = t \<Longrightarrow> e = c"
    "\<And>e. e < v_cpus v \<Longrightarrow> e \<in> pend \<Longrightarrow> v_prev v e = Some t \<Longrightarrow> e = c"
    "\<And>e u. e < v_cpus v \<Longrightarrow> u \<in># v_queue v' e \<Longrightarrow> u \<in># v_queue v e \<and> u \<noteq> t"
    "\<And>e u. e < v_cpus v \<Longrightarrow> count (v_queue v' e) u \<le> 1"
proof -
  have run: "v_state v (v_cur v e) = Inr Running" if "e < v_cpus v" "e \<noteq> c" for e
    using cur_running [OF inv that(1)] that(2) by simp
  consider (idle) "v_queue v c = {#}" "t = v_idle v c" "v' = v"
    | (queued) q where "v_queue v c = add_mset t q" "v' = a_dequeue c q v" "t \<in># v_queue v c"
    using pick by (auto simp: a_pick_def)
  note cs = this
  show ready: "v_state v t = Inr Ready"
    using cs by cases (use idle_ready [OF inv c] queued_ready [OF inv c] in auto)
  show "v_startable v t"
    using cs by cases (use idle_startable [OF inv c] queued_startable [OF inv c] in auto)
  show isidle: "t = v_idle v c" if "v_isidle v t"
    using cs by cases (use that queued_not_idle [OF inv c] in auto)
  show "e = c" if "e < v_cpus v" "v_cur v e = t" for e
    using run [OF that(1)] ready that(2) by auto
  show "e = c" if e: "e < v_cpus v" "e \<in> pend" "v_prev v e = Some t" for e
    using cs
  proof cases
    case idle
    then have "v_idle v c = v_idle v e" using prev_idle [OF inv e] idle_isidle [OF inv c] by simp
    then show ?thesis using idle_distinct [OF inv c e(1)] by simp
  next
    case queued
    then show ?thesis using prev_queue [OF inv e c] by simp
  qed
  show "u \<in># v_queue v e \<and> u \<noteq> t" if e: "e < v_cpus v" "u \<in># v_queue v' e" for e u
    using cs
  proof cases
    case idle
    then show ?thesis using e queued_not_idle [OF inv e(1), of u] idle_isidle [OF inv c] by auto
  next
    case queued
    have "count q t = 0" using queue_once [OF inv c, of t] queued(1) by simp
    moreover have "e \<noteq> c \<Longrightarrow> u \<in># v_queue v e \<Longrightarrow> u \<noteq> t"
      using queue_unique [OF inv e(1) c, of u] queued(3) by blast
    ultimately show ?thesis using e queued by (auto simp: count_eq_zero_iff split: if_splits)
  qed
  show "count (v_queue v' e) u \<le> 1" if e: "e < v_cpus v" for e u
    using cs
  proof cases
    case idle
    then show ?thesis using queue_once [OF inv e] by simp
  next
    case queued
    then show ?thesis using queue_once [OF inv e, of u] by (auto split: if_splits)
  qed
qed

lemma a_pick_frame:
  assumes "a_pick c t v v'"
  shows "v_cpus v' = v_cpus v" "v_cur v' = v_cur v" "v_idle v' = v_idle v" "v_prev v' = v_prev v"
    "v_state v' = v_state v" "v_oncpu v' = v_oncpu v" "v_isidle v' = v_isidle v"
    "v_startable v' = v_startable v" "v_bound v' = v_bound v"
  using assms by (auto simp: a_pick_def)

lemma switch_inv:
  assumes inv: "view_inv (Some c) pend v" and c: "c < v_cpus v" "c \<notin> pend" and pick: "a_pick c t v v'"
  shows "view_inv None (if v_cur v c = t then pend else insert c pend) (a_switch c t v')"
proof -
  let ?w = "a_switch c t v'" and ?pend = "if v_cur v c = t then pend else insert c pend"
  note f = picked_facts [OF inv c(1) pick] and fr [simp] = a_pick_frame [OF pick]
  have run: "v_state v (v_cur v e) = Inr Running" if "e < v_cpus v" "e \<noteq> c" for e
    using cur_running [OF inv that(1)] that(2) by simp
  have old: "v_cur v c \<in># v_queue v' e \<Longrightarrow> e < v_cpus v \<Longrightarrow> e = c" for e
    using f(6) [of e "v_cur v c"] cur_gap_queue [OF inv c(1), of e] by blast
  show ?thesis
  proof (rule view_inv_parts)
    show "one_place ?w" unfolding one_place_def
    proof (intro conjI allI impI)
      fix e g assume "e < v_cpus ?w" "g < v_cpus ?w" "v_cur ?w e = v_cur ?w g"
      then show "e = g" using f(4) [of e] f(4) [of g] cur_distinct [OF inv, of e g] by (auto split: if_splits)
    next
      fix e u assume "e < v_cpus ?w"
      then show "count (v_queue ?w e) u \<le> 1" using f(7) by simp
    next
      fix e g u assume "e < v_cpus ?w" "g < v_cpus ?w" "u \<in># v_queue ?w e \<and> u \<in># v_queue ?w g"
      then show "e = g" using f(6) [of e u] f(6) [of g u] queue_unique [OF inv, of e g u] by simp
    qed
    show "queues_ready ?w" unfolding queues_ready_def
    proof (intro allI impI)
      fix e u assume "e < v_cpus ?w" "u \<in># v_queue ?w e"
      then show "v_state ?w u = Inr Ready \<and> \<not> v_isidle ?w u \<and> v_startable ?w u"
        using f(6) [of e u] queued_ready [OF inv, of e u] queued_not_idle [OF inv, of e u]
          queued_startable [OF inv, of e u] by simp
    qed
    show "currents_run None ?w" unfolding currents_run_def
      using run f(2,4) cur_startable [OF inv] by auto
    show "idles_ok None ?w" unfolding idles_ok_def
    proof (intro conjI allI impI)
      fix e assume "e < v_cpus ?w"
      then show "v_isidle ?w (v_idle ?w e)" "v_startable ?w (v_idle ?w e)"
        using idle_isidle [OF inv, of e] idle_startable [OF inv, of e] by simp_all
    next
      fix e assume "e < v_cpus ?w" "v_isidle ?w (v_cur ?w e)"
      then show "v_cur ?w e = v_idle ?w e" using f(3) cur_idle [OF inv, of e] by (auto split: if_splits)
    next
      fix e assume e: "e < v_cpus ?w" "v_cur ?w e \<noteq> v_idle ?w e \<or> None = Some e"
      have "v_idle v e \<noteq> t"
        using e f(3) idle_isidle [OF inv, of e] idle_distinct [OF inv, of e c] c(1) by (auto split: if_splits)
      then show "v_state ?w (v_idle ?w e) = Inr Ready"
        using e idle_ready [OF inv, of e] by (auto split: if_splits)
    next
      fix e g assume "e < v_cpus ?w" "g < v_cpus ?w" "v_idle ?w e = v_idle ?w g"
      then show "e = g" using idle_distinct [OF inv, of e g] by simp
    qed
    show "on_cpu_exact ?pend ?w" unfolding on_cpu_exact_def
    proof
      fix u
      show "v_oncpu ?w u \<longleftrightarrow> (\<exists>e < v_cpus ?w. v_cur ?w e = u \<or> e \<in> ?pend \<and> v_prev ?w e = Some u)"
      proof (cases "v_cur v c = t")
        case True
        then have "v_cur ?w = v_cur v" "v_prev ?w = v_prev v" by (auto simp: fun_eq_iff)
        then show ?thesis using oncpu_iff [OF inv, of u] True by simp
      next
        case False
        then show ?thesis using oncpu_iff [OF inv, of u] c by auto
      qed
    qed
    show "prevs_ok ?pend ?w" unfolding prevs_ok_def
    proof (intro conjI allI impI)
      fix e assume e: "e < v_cpus ?w" "e \<in> ?pend"
      show "\<exists>p. v_prev ?w e = Some p \<and> (\<forall>d < v_cpus ?w. v_cur ?w d \<noteq> p) \<and>
          (\<forall>d < v_cpus ?w. p \<in># v_queue ?w d \<longrightarrow> d = e) \<and> (v_isidle ?w p \<longrightarrow> p = v_idle ?w e)"
      proof (cases "e = c")
        case True
        then have ne: "v_cur v c \<noteq> t" using e(2) c(2) by (auto split: if_splits)
        have nd: "d < v_cpus v \<Longrightarrow> d \<noteq> c \<Longrightarrow> v_cur v d \<noteq> v_cur v c" for d
          using cur_distinct [OF inv _ c(1)] by blast
        show ?thesis using True ne nd old cur_idle [OF inv c(1)] by (intro exI [of _ "v_cur v c"]) auto
      next
        case False
        then have e': "e < v_cpus v" "e \<in> pend" using e by (auto split: if_splits)
        obtain p where p: "v_prev v e = Some p" using prev_some [OF inv e'] by blast
        have "p \<noteq> t" using f(5) [OF e'] p False by blast
        then show ?thesis using False p prev_not_cur [OF inv e' p] prev_idle [OF inv e' p]
            f(6) [of _ p] prev_queue [OF inv e' p]
          by (intro exI [of _ p] conjI allI impI) (auto dest: f(6))
      qed
    next
      fix e g assume "e < v_cpus ?w" "g < v_cpus ?w" "e \<in> ?pend \<and> g \<in> ?pend \<and> v_prev ?w e = v_prev ?w g"
      then show "e = g"
        using prev_distinct [OF inv, of e g] prev_not_cur [OF inv, of e "v_cur v c" c] c
          prev_not_cur [OF inv, of g "v_cur v c" c] by (auto split: if_splits)
    qed
  qed
qed

text \<open>Clearing the flag of the task that was left.\<close>

lemma clear_inv:
  assumes inv: "view_inv None pend v" and c: "c < v_cpus v" "c \<in> pend" and p: "v_prev v c = Some t"
  shows "view_inv None (pend - {c}) (a_clear c t v)"
proof -
  let ?w = "a_clear c t v"
  note d = view_inv_partsD [OF inv]
  have eqs: "v_cpus ?w = v_cpus v" "v_cur ?w = v_cur v" "v_idle ?w = v_idle v" "v_queue ?w = v_queue v"
    "v_state ?w = v_state v" "v_isidle ?w = v_isidle v" "v_startable ?w = v_startable v"
    "v_prev ?w e = (if e = c then None else v_prev v e)" "v_oncpu ?w u = (u \<noteq> t \<and> v_oncpu v u)" for e u
    by (simp_all add: a_clear_def)
  show ?thesis
  proof (rule view_inv_parts)
    show "one_place ?w" using d(1) unfolding one_place_def eqs .
    show "queues_ready ?w" using d(2) unfolding queues_ready_def eqs .
    show "currents_run None ?w" using d(3) unfolding currents_run_def eqs .
    show "idles_ok None ?w" using d(4) unfolding idles_ok_def eqs .
    show "on_cpu_exact (pend - {c}) ?w" unfolding on_cpu_exact_def eqs
    proof
      fix u
      have other: "v_prev v e \<noteq> Some t" if "e < v_cpus v" "e \<in> pend" "e \<noteq> c" for e
        using prev_distinct [OF inv that(1) c(1) that(2) c(2)] that(3) p by auto
      show "(u \<noteq> t \<and> v_oncpu v u) \<longleftrightarrow> (\<exists>e < v_cpus v. v_cur v e = u \<or>
          e \<in> pend - {c} \<and> (if e = c then None else v_prev v e) = Some u)"
      proof (cases "u = t")
        case True
        then show ?thesis using prev_not_cur [OF inv c p] other by auto
      next
        case False
        then show ?thesis unfolding oncpu_iff [OF inv, of u] using p by auto
      qed
    qed
    show "prevs_ok (pend - {c}) ?w" unfolding prevs_ok_def eqs
    proof (intro conjI allI impI)
      fix e assume "e < v_cpus v" "e \<in> pend - {c}"
      then have e: "e < v_cpus v" "e \<in> pend" "e \<noteq> c" by auto
      show "\<exists>p. (if e = c then None else v_prev v e) = Some p \<and> (\<forall>d < v_cpus v. v_cur v d \<noteq> p) \<and>
          (\<forall>d < v_cpus v. p \<in># v_queue v d \<longrightarrow> d = e) \<and> (v_isidle v p \<longrightarrow> p = v_idle v e)"
        unfolding if_not_P [OF e(3)] by (rule prev_all [OF inv e(1,2)])
    next
      fix e g assume "e < v_cpus v" "g < v_cpus v" "e \<in> pend - {c} \<and> g \<in> pend - {c} \<and>
        (if e = c then None else v_prev v e) = (if g = c then None else v_prev v g)"
      then show "e = g" using prev_distinct [OF inv, of e g] by auto
    qed
  qed
qed

text \<open>A blocked task that is neither running nor waiting becomes ready.\<close>

lemma wake_inv:
  assumes inv: "view_inv gap pend v"
    and t: "\<And>e. e < v_cpus v \<Longrightarrow> v_cur v e \<noteq> t" "\<And>e. e < v_cpus v \<Longrightarrow> t \<notin># v_queue v e"
  shows "view_inv gap pend (a_state t Ready v)"
proof -
  let ?w = "a_state t Ready v"
  note d = view_inv_partsD [OF inv]
  show ?thesis
  proof (rule view_inv_parts)
    show "one_place ?w" using d(1) unfolding one_place_def a_state_simps .
    show "queues_ready ?w" unfolding queues_ready_def
      using t(2) queued_ready [OF inv] queued_not_idle [OF inv] queued_startable [OF inv] by auto
    show "currents_run gap ?w" unfolding currents_run_def
      using t(1) d(3) by (simp add: currents_run_def)
    have "v_idle v e = t \<or> v_state v (v_idle v e) = Inr Ready" if "e < v_cpus v" "v_cur v e \<noteq> v_idle v e \<or> gap = Some e" for e
      using idle_ready [OF inv, of e] that by auto
    then show "idles_ok gap ?w" unfolding idles_ok_def
      using idle_isidle [OF inv] idle_startable [OF inv] cur_idle [OF inv] idle_distinct [OF inv] by auto
    show "on_cpu_exact pend ?w" using d(5) unfolding on_cpu_exact_def a_state_simps .
    show "prevs_ok pend ?w" using d(6) unfolding prevs_ok_def a_state_simps .
  qed
qed

subsection \<open>No task is lost\<close>

text \<open>
  \<open>live\<close>: the tasks handed to the scheduler so far. Each ready one of them, the exceptions \<open>ex\<close> apart,
  waits in a ready queue, and every ready queue has room for all of them.
\<close>

definition all_kept :: "tid set \<Rightarrow> tid set \<Rightarrow> view \<Rightarrow> bool" where
  "all_kept live ex v \<longleftrightarrow> finite live \<and> (\<forall>t \<in> live. \<not> v_isidle v t) \<and>
     (\<forall>c < v_cpus v. set_mset (v_queue v c) \<subseteq> live \<and> card live \<le> v_bound v c \<and>
        (v_isidle v (v_cur v c) \<or> v_cur v c \<in> live)) \<and>
     (\<forall>t \<in> live - ex. v_state v t = Inr Ready \<longrightarrow> (\<exists>c < v_cpus v. t \<in># v_queue v c))"

lemma size_distinct: "(\<And>t. count q t \<le> 1) \<Longrightarrow> size q = card (set_mset q)"
  by (simp add: size_multiset_overloaded_eq)
    (metis (no_types, lifting) One_nat_def antisym_conv count_greater_zero_iff card_eq_sum le_less_Suc_eq less_Suc_eq_le not_le sum.cong Suc_leI)

lemma kept_leave:
  assumes "all_kept live {} v" "c < v_cpus v" "v_state v (v_cur v c) = Inr Running"
  shows "all_kept live (if x = Ready then {v_cur v c} else {}) (a_state (v_cur v c) x v)"
  using assms unfolding all_kept_def by auto

lemma kept_enqueue:
  assumes inv: "view_inv gap pend v" and k: "all_kept live {t} v" and c: "c < v_cpus v"
    and t: "t \<in> live" "\<And>e. e < v_cpus v \<Longrightarrow> t \<notin># v_queue v e"
  shows "all_kept live {} (a_enqueue c t v)"
proof -
  have fin: "finite live" and sub: "set_mset (v_queue v c) \<subseteq> live - {t}" and b: "card live \<le> v_bound v c"
    using k c t(2) by (auto simp: all_kept_def)
  have "size (v_queue v c) = card (set_mset (v_queue v c))"
    using queue_once [OF inv c] by (intro size_distinct)
  also have "\<dots> \<le> card (live - {t})" using fin sub by (intro card_mono) auto
  also have "\<dots> < card live" using fin t(1) by (rule card_Diff1_less)
  finally have "offer (v_bound v c) t (v_queue v c) = add_mset t (v_queue v c)" using b by simp
  then show ?thesis using k c t(1) unfolding all_kept_def by auto
qed

lemma kept_wake: "all_kept live {} v \<Longrightarrow> all_kept live {t} (a_state t Ready v)"
  unfolding all_kept_def by auto

lemma kept_spawn: "all_kept live {} v \<Longrightarrow> finite live \<Longrightarrow> \<not> v_isidle v t \<Longrightarrow>
    (\<And>c. c < v_cpus v \<Longrightarrow> card (insert t live) \<le> v_bound v c) \<Longrightarrow> all_kept (insert t live) {t} v"
  unfolding all_kept_def by auto

lemma kept_switch:
  assumes inv: "view_inv (Some c) pend v" and k: "all_kept live {} v" and c: "c < v_cpus v"
    and pick: "a_pick c t v v'"
  shows "all_kept live {} (a_switch c t v')"
proof -
  note fr = a_pick_frame [OF pick]
  have q: "u \<in># v_queue v e \<Longrightarrow> u \<noteq> t \<Longrightarrow> u \<in># v_queue v' e" for u e
    using pick by (auto simp: a_pick_def split: if_splits)
  have sub: "set_mset (v_queue v' e) \<subseteq> set_mset (v_queue v e)" if "e < v_cpus v" for e
    using picked_facts(6) [OF inv c pick that] by blast
  have t: "v_isidle v t \<or> t \<in> live"
    using pick idle_isidle [OF inv c] k c by (auto simp: a_pick_def all_kept_def)
  show ?thesis unfolding all_kept_def
  proof (intro conjI ballI allI impI)
    show "finite live" using k by (simp add: all_kept_def)
    show "\<not> v_isidle (a_switch c t v') u" if "u \<in> live" for u using k that by (simp add: all_kept_def fr)
    fix e assume "e < v_cpus (a_switch c t v')"
    then have e: "e < v_cpus v" by (simp add: fr)
    show "set_mset (v_queue (a_switch c t v') e) \<subseteq> live" "card live \<le> v_bound (a_switch c t v') e"
      using sub [OF e] k e by (auto simp: all_kept_def fr)
    show "v_isidle (a_switch c t v') (v_cur (a_switch c t v') e) \<or> v_cur (a_switch c t v') e \<in> live"
      using k e t by (simp add: all_kept_def fr)
  next
    fix u assume u: "u \<in> live - {}" "v_state (a_switch c t v') u = Inr Ready"
    then have "u \<noteq> t" "v_state v u = Inr Ready" by (auto simp: fr split: if_splits)
    then obtain e where "e < v_cpus v" "u \<in># v_queue v e" using k u(1) by (auto simp: all_kept_def)
    then show "\<exists>e < v_cpus (a_switch c t v'). u \<in># v_queue (a_switch c t v') e"
      using q \<open>u \<noteq> t\<close> by (auto simp: fr)
  qed
qed

lemma kept_clear: "all_kept live ex v \<Longrightarrow> all_kept live ex (a_clear c t v)"
  by (simp add: all_kept_def a_clear_def)

end
