(* ===== verification/Vsched_Inv.thy ===== *)
theory Vsched_Inv
  imports Vsched_Spec
begin

text \<open>
  The run queues refine the abstract scheduler: every call of \<^verbatim>\<open>vsched/src/sched.rs\<close>, on a state that
  satisfies the invariant, returns and acts as the abstract step. The proofs are over any scheduler
  that meets the contract \<open>base_scheduler\<close>.
\<close>

subsection \<open>The view of a state\<close>

definition cpu_at :: "('q, 'i, 'c) vsched \<Rightarrow> cpu \<Rightarrow> 'q percpu" where
  "cpu_at s c = the (percpus s ! c)"

definition view_of :: "('q \<Rightarrow> tid multiset) \<Rightarrow> ('q \<Rightarrow> nat) \<Rightarrow> ('q, 'i, 'c) vsched \<Rightarrow> view" where
  "view_of queued bound s = \<lparr>
     v_cpus = length (percpus s),
     v_cur = (\<lambda>c. current_task (cpu_at s c)), v_idle = (\<lambda>c. idle_task (cpu_at s c)),
     v_prev = (\<lambda>c. prev_task (cpu_at s c)), v_queue = (\<lambda>c. queued (scheduler (cpu_at s c))),
     v_bound = (\<lambda>c. bound (scheduler (cpu_at s c))),
     v_state = (\<lambda>t. state (tasks s t)), v_oncpu = (\<lambda>t. on_cpu (tasks s t)),
     v_isidle = (\<lambda>t. is_idle (tasks s t)), v_startable = (\<lambda>t. startable (tasks s t))\<rparr>"

text \<open>Every CPU is initialised, and the schedulers and their task fields are well formed.\<close>

definition vs_ok :: "('q \<Rightarrow> bool) \<Rightarrow> ('i \<Rightarrow> bool) \<Rightarrow> ('q, 'i, 'c) vsched \<Rightarrow> bool" where
  "vs_ok qinv iok s \<longleftrightarrow> (\<forall>c < length (percpus s). \<exists>p. percpus s ! c = Some p \<and> cpu_id p = c \<and> qinv (scheduler p)) \<and>
     (\<forall>u. iok (sched_info s u))"

lemma vs_okD:
  assumes "vs_ok qinv iok s"
  shows "c < length (percpus s) \<Longrightarrow> get_run_queue c s = Inr (cpu_at s c)"
    "c < length (percpus s) \<Longrightarrow> cpu_id (cpu_at s c) = c"
    "c < length (percpus s) \<Longrightarrow> qinv (scheduler (cpu_at s c))"
    "iok (sched_info s u)"
  using assms by (auto simp: vs_ok_def get_run_queue_def cpu_at_def)

lemma cpu_at_set [simp]:
  "c < length (percpus s) \<Longrightarrow> cpu_at (set_percpu c p s) d = (if d = c then p else cpu_at s d)"
  by (simp add: cpu_at_def set_percpu_def)

lemma set_simps [simp]:
  "percpus (on_task t f s) = percpus s" "sched_info (on_task t f s) = sched_info s"
  "cpu_at (on_task t f s) = cpu_at s" "get_run_queue c (on_task t f s) = get_run_queue c s"
  "tasks (on_task t f s) u = (if u = t then f (tasks s t) else tasks s u)"
  "length (percpus (set_percpu c p s)) = length (percpus s)" "tasks (set_percpu c p s) = tasks s"
  "sched_info (set_percpu c p s) = sched_info s"
  "length (percpus (set_sched c p qi s)) = length (percpus s)" "tasks (set_sched c p qi s) = tasks s"
  "sched_info (set_sched c p qi s) = snd qi"
  "cpu_at (s\<lparr>sched_info := i\<rparr>) = cpu_at s" "vs_ok qinv iok (on_task t f s) = vs_ok qinv iok s"
  by (simp_all add: on_task_def cpu_at_def fun_eq_iff get_run_queue_def set_percpu_def set_sched_def vs_ok_def)

lemma cpu_at_sched [simp]:
  "c < length (percpus s) \<Longrightarrow> cpu_at (set_sched c p qi s) d = (if d = c then p\<lparr>scheduler := fst qi\<rparr> else cpu_at s d)"
  by (simp add: set_sched_def)

lemma vs_ok_set:
  assumes "vs_ok qinv iok s" "c < length (percpus s)" "cpu_id p = c" "qinv (scheduler p)"
  shows "vs_ok qinv iok (set_percpu c p s)"
  using assms by (auto simp: vs_ok_def set_percpu_def nth_list_update)

lemma vs_ok_sched:
  assumes "vs_ok qinv iok s" "c < length (percpus s)" "qinv q" "\<forall>u. iok (i u)"
  shows "vs_ok qinv iok (set_sched c (cpu_at s c) (q, i) s)"
  using assms vs_okD(2) [OF assms(1)] by (auto simp: vs_ok_def set_sched_def set_percpu_def nth_list_update)

lemma view_on_task:
  "view_of queued bound (on_task t (set_state x) s) = a_state t x (view_of queued bound s)"
  "view_of queued bound (on_task t (set_preempt_pending b) s) = view_of queued bound s"
  "view_of queued bound (on_task t (\<lambda>_. tasks s t) s) = view_of queued bound s"
  by (auto simp: view_of_def a_state_def fun_eq_iff task_simps)

lemma view_simps [simp]:
  "v_cpus (view_of queued bound s) = length (percpus s)"
  "v_cur (view_of queued bound s) c = current_task (cpu_at s c)"
  "v_idle (view_of queued bound s) c = idle_task (cpu_at s c)"
  "v_prev (view_of queued bound s) c = prev_task (cpu_at s c)"
  "v_queue (view_of queued bound s) c = queued (scheduler (cpu_at s c))"
  "v_bound (view_of queued bound s) c = bound (scheduler (cpu_at s c))"
  "v_state (view_of queued bound s) t = state (tasks s t)"
  "v_oncpu (view_of queued bound s) t = on_cpu (tasks s t)"
  "v_isidle (view_of queued bound s) t = is_idle (tasks s t)"
  "v_startable (view_of queued bound s) t = startable (tasks s t)"
  by (simp_all add: view_of_def)

subsection \<open>Refinement\<close>

text \<open>A platform is built over the scheduler of the contract.\<close>

definition over :: "('q, 'i) base_scheduler_ops \<Rightarrow> ('q, 'i, 'c) platform \<Rightarrow> bool" where
  "over ops env \<longleftrightarrow> sched_ops env = ops"

context base_scheduler
begin

lemma put_prev_refines:
  assumes env: "over ops env" and ok: "vs_ok qinv iok s" and c: "c < length (percpus s)"
    and fr: "fresh (scheduler (cpu_at s c))"
  shows "\<exists>s'. put_prev env c t p s = Inr s' \<and> vs_ok qinv iok s' \<and> tasks s' = tasks s \<and>
    length (percpus s') = length (percpus s) \<and> view_of queued bound s' = a_enqueue c t (view_of queued bound s)"
proof -
  obtain q' st' where q: "put_prev_task ops t p (scheduler (cpu_at s c), sched_info s) = Inr (q', st')" "qinv q'"
    "\<forall>u. iok (st' u)" "bound q' = bound (scheduler (cpu_at s c))"
    "queued q' = offer (bound (scheduler (cpu_at s c))) t (queued (scheduler (cpu_at s c)))"
    using put_law [OF vs_okD(3) [OF ok c] fr, of "sched_info s" t p] vs_okD(4) [OF ok] by blast
  let ?s = "set_sched c (cpu_at s c) (q', st') s"
  have "put_prev env c t p s = Inr ?s"
    using q(1) vs_okD(1) [OF ok c] env by (simp add: put_prev_def over_def)
  moreover have "vs_ok qinv iok ?s" using vs_ok_sched [OF ok c q(2,3)] .
  moreover have "view_of queued bound ?s = a_enqueue c t (view_of queued bound s)"
    using q(4,5) c by (auto simp: view_of_def a_enqueue_def fun_eq_iff)
  ultimately show ?thesis by (intro exI [of _ ?s]) simp
qed

lemma spawn_refines:
  assumes env: "over ops env" and ok: "vs_ok qinv iok s" and c: "c < length (percpus s)"
    and fr: "fresh (scheduler (cpu_at s c))" and rd: "state (tasks s t) = Inr Ready"
  shows "\<exists>s'. spawn env c t s = Inr s' \<and> vs_ok qinv iok s' \<and> tasks s' = tasks s \<and>
    length (percpus s') = length (percpus s) \<and> view_of queued bound s' = a_enqueue c t (view_of queued bound s)"
proof -
  obtain q' st' where q: "add_task ops t (scheduler (cpu_at s c), sched_info s) = Inr (q', st')" "qinv q'"
    "\<forall>u. iok (st' u)" "bound q' = bound (scheduler (cpu_at s c))"
    "queued q' = offer (bound (scheduler (cpu_at s c))) t (queued (scheduler (cpu_at s c)))"
    using add_law [OF vs_okD(3) [OF ok c] fr, of "sched_info s" t] vs_okD(4) [OF ok] by blast
  let ?s = "set_sched c (cpu_at s c) (q', st') s"
  have "spawn env c t s = Inr ?s"
    using q(1) vs_okD(1) [OF ok c] env rd by (simp add: spawn_def over_def task_simps)
  moreover have "vs_ok qinv iok ?s" using vs_ok_sched [OF ok c q(2,3)] .
  moreover have "view_of queued bound ?s = a_enqueue c t (view_of queued bound s)"
    using q(4,5) c by (auto simp: view_of_def a_enqueue_def fun_eq_iff)
  ultimately show ?thesis by (intro exI [of _ ?s]) simp
qed

lemma pick_refines:
  assumes env: "over ops env" and ok: "vs_ok qinv iok s" and c: "c < length (percpus s)"
  shows "\<exists>s' t. pick_or_idle env c s = Inr (s', t) \<and> vs_ok qinv iok s' \<and> tasks s' = tasks s \<and>
    length (percpus s') = length (percpus s) \<and> current_task (cpu_at s' c) = current_task (cpu_at s c) \<and>
    a_pick c t (view_of queued bound s) (view_of queued bound s')"
proof -
  let ?p = "cpu_at s c"
  from vs_okD(3) [OF ok c] show ?thesis
  proof (cases rule: pick_cases [where st = "sched_info s"])
    case (none q')
    let ?s = "set_sched c ?p (q', sched_info s) s"
    have "pick_or_idle env c s = Inr (?s, idle_task ?p)"
      using none vs_okD(1) [OF ok c] env by (simp add: pick_or_idle_def over_def)
    moreover have "vs_ok qinv iok ?s" using vs_ok_sched [OF ok c none(2)] vs_okD(4) [OF ok] by blast
    moreover have "view_of queued bound ?s = view_of queued bound s"
      using none c by (auto simp: view_of_def fun_eq_iff)
    ultimately show ?thesis using none(4) c
      by (intro exI [of _ ?s] exI [of _ "idle_task ?p"]) (simp add: a_pick_def)
  next
    case (some q' t)
    let ?s = "set_sched c ?p (q', sched_info s) s"
    have "pick_or_idle env c s = Inr (?s, t)"
      using some vs_okD(1) [OF ok c] env by (simp add: pick_or_idle_def over_def)
    moreover have "vs_ok qinv iok ?s" using vs_ok_sched [OF ok c some(2)] vs_okD(4) [OF ok] by blast
    moreover have "view_of queued bound ?s = a_dequeue c (queued q') (view_of queued bound s)"
      using some c by (auto simp: view_of_def a_dequeue_def fun_eq_iff)
    ultimately show ?thesis using some(4) c
      by (intro exI [of _ ?s] exI [of _ t]) (auto simp: a_pick_def)
  qed
qed

lemma switch_to_refines:
  assumes ok: "vs_ok qinv iok s" and c: "c < length (percpus s)" and st: "startable (tasks s t)"
    and cur: "current_task (cpu_at s c) = prev"
  shows "\<exists>s'. switch_to env c prev t s = Inr (s', if prev = t then None else Some (prev, t)) \<and>
    vs_ok qinv iok s' \<and> length (percpus s') = length (percpus s) \<and>
    view_of queued bound s' = a_switch c t (view_of queued bound s)"
proof (cases "prev = t")
  case True
  then show ?thesis using ok cur
    by (intro exI [of _ "on_task t (set_state Running) (on_task t (set_preempt_pending False) s)"])
      (simp add: switch_to_def Let_def view_on_task a_switch_def)
next
  case False
  let ?s1 = "on_task t (set_on_cpu True) (on_task t (set_state Running) (on_task t (set_preempt_pending False) s))"
  have "startable (tasks ?s1 t)" using st by (simp add: task_simps)
  from set_kstack_ok [OF this, of "ctx_init env" "call_alloc env"] obtain ti where
    ti: "set_kstack (ctx_init env) (call_alloc env) (tasks ?s1 t) = Inr ti" "startable ti"
      "state ti = Inr Running" "on_cpu ti" "is_idle ti = is_idle (tasks s t)"
    by (auto simp: task_simps)
  let ?p = "(cpu_at s c)\<lparr>prev_task := Some prev, current_task := t\<rparr>"
  let ?s = "set_percpu c ?p (on_task t (\<lambda>_. ti) ?s1)"
  have "switch_to env c prev t s = Inr (?s, Some (prev, t))"
    using False ti(1) vs_okD(1) [OF ok c] by (simp add: switch_to_def Let_def)
  moreover have "vs_ok qinv iok ?s"
    using ok c vs_okD(2,3) [OF ok c] by (intro vs_ok_set) simp_all
  moreover have "view_of queued bound ?s = a_switch c t (view_of queued bound s)"
    using c False cur st ti by (auto simp: view_of_def a_switch_def a_state_def fun_eq_iff)
  ultimately show ?thesis using False by (intro exI [of _ ?s]) simp
qed

text \<open>A reschedule from a state whose current task has given up the CPU picks a task and switches to it.\<close>

lemma resched_refines:
  assumes env: "over ops env" and ok: "vs_ok qinv iok s" and c: "c < length (percpus s)"
    and inv: "view_inv (Some c) pend (view_of queued bound s)"
  shows "\<exists>s' t w. resched env c s = Inr (s', if current_task (cpu_at s c) = t then None
      else Some (current_task (cpu_at s c), t)) \<and> vs_ok qinv iok s' \<and>
    length (percpus s') = length (percpus s) \<and>
    a_pick c t (view_of queued bound s) w \<and> view_of queued bound s' = a_switch c t w"
proof -
  obtain s1 t where s1: "pick_or_idle env c s = Inr (s1, t)" "vs_ok qinv iok s1" "tasks s1 = tasks s"
    "length (percpus s1) = length (percpus s)" "current_task (cpu_at s1 c) = current_task (cpu_at s c)"
    "a_pick c t (view_of queued bound s) (view_of queued bound s1)"
    using pick_refines [OF env ok c] by blast
  note f = picked_facts(1,2) [OF inv _ s1(6)]
  have t: "state (tasks s1 t) = Inr Ready" "startable (tasks s1 t)" using f c s1(3) by simp_all
  obtain s2 where s2: "switch_to env c (current_task (cpu_at s1 c)) t s1 =
      Inr (s2, if current_task (cpu_at s1 c) = t then None else Some (current_task (cpu_at s1 c), t))"
    "vs_ok qinv iok s2" "length (percpus s2) = length (percpus s1)"
    "view_of queued bound s2 = a_switch c t (view_of queued bound s1)"
    using switch_to_refines [OF s1(2) _ t(2) refl, of c env] s1(4) c by auto
  have "resched env c s = Inr (s2, if current_task (cpu_at s c) = t then None
      else Some (current_task (cpu_at s c), t))"
    using s1 s2 t(1) c vs_okD(1) [OF s1(2), of c] by (simp add: resched_def task_simps)
  then show ?thesis using s1 s2 by metis
qed

lemma resched_f_refines:
  assumes env: "over ops env" and ok: "vs_ok qinv iok s" and c: "c < length (percpus s)"
    and inv: "view_inv (Some c) pend (view_of queued bound s)"
  shows "\<exists>s' t w. resched_f env c s = Inr (s', current_task (cpu_at s c) \<noteq> t) \<and> vs_ok qinv iok s' \<and>
    length (percpus s') = length (percpus s) \<and>
    a_pick c t (view_of queued bound s) w \<and> view_of queued bound s' = a_switch c t w"
proof -
  obtain s1 t where s1: "pick_or_idle env c s = Inr (s1, t)" "vs_ok qinv iok s1" "tasks s1 = tasks s"
    "length (percpus s1) = length (percpus s)" "current_task (cpu_at s1 c) = current_task (cpu_at s c)"
    "a_pick c t (view_of queued bound s) (view_of queued bound s1)"
    using pick_refines [OF env ok c] by blast
  have c1: "c < length (percpus s1)" using c s1(4) by simp
  have t: "state (tasks s1 t) = Inr Ready"
    using picked_facts(1) [OF inv _ s1(6)] c s1(3) by simp
  let ?prev = "current_task (cpu_at s c)"
  let ?s2 = "on_task t (set_state Running) (on_task t (set_preempt_pending False) s1)"
  let ?p = "(cpu_at s1 c)\<lparr>prev_task := Some ?prev, current_task := t\<rparr>"
  let ?s = "if ?prev = t then ?s2 else set_percpu c ?p (on_task t (set_on_cpu True) ?s2)"
  have "resched_f env c s = Inr (?s, ?prev \<noteq> t)"
    using s1 t vs_okD(1) [OF s1(2) c1] by (simp add: resched_f_def task_simps Let_def)
  moreover have "vs_ok qinv iok ?s"
    using s1(2) c1 vs_okD(2,3) [OF s1(2) c1] by (auto intro!: vs_ok_set)
  moreover have "view_of queued bound ?s = a_switch c t (view_of queued bound s1)"
  proof (cases "?prev = t")
    case True
    then show ?thesis using s1(5) by (simp add: view_on_task a_switch_def)
  next
    case False
    then show ?thesis using s1(5) c1
      by (auto simp: view_of_def a_switch_def a_state_def fun_eq_iff task_simps)
  qed
  moreover have "length (percpus ?s) = length (percpus s)" using s1(4) by simp
  ultimately show ?thesis using s1(6) by blast
qed

text \<open>Yielding: the current task becomes ready and, unless it is the idle task, goes back to the queue.\<close>

lemma yield_with_refines:
  assumes env: "over ops env" and ok: "vs_ok qinv iok s" and c: "c < length (percpus s)"
    and fr: "fresh (scheduler (cpu_at s c))"
    and run: "state (tasks s (current_task (cpu_at s c))) = Inr Running"
  shows "\<exists>s'. yield_with p env c s = Inr s' \<and> vs_ok qinv iok s' \<and> length (percpus s') = length (percpus s) \<and>
    view_of queued bound s' = (let t = current_task (cpu_at s c); w = a_state t Ready (view_of queued bound s) in
      if is_idle (tasks s t) then w else a_enqueue c t w)"
proof -
  let ?t = "current_task (cpu_at s c)"
  let ?s1 = "on_task ?t (\<lambda>_. set_state Ready (tasks s ?t)) s"
  have v1: "view_of queued bound ?s1 = a_state ?t Ready (view_of queued bound s)"
    by (auto simp: view_of_def a_state_def fun_eq_iff task_simps)
  have ok1: "vs_ok qinv iok ?s1" using ok by simp
  show ?thesis
  proof (cases "is_idle (tasks s ?t)")
    case True
    then have "yield_with p env c s = Inr ?s1"
      using run vs_okD(1) [OF ok c] by (simp add: yield_with_def put_task_with_state_def task_simps)
    then show ?thesis using True v1 ok1 by (intro exI [of _ ?s1]) (simp add: Let_def)
  next
    case False
    obtain s2 where s2: "put_prev env c ?t p ?s1 = Inr s2" "vs_ok qinv iok s2"
      "length (percpus s2) = length (percpus s)" "view_of queued bound s2 = a_enqueue c ?t (view_of queued bound ?s1)"
      using put_prev_refines [OF env ok1, of c ?t p] c fr by auto
    have "yield_with p env c s = Inr s2"
      using run vs_okD(1) [OF ok c] False s2(1) by (simp add: yield_with_def put_task_with_state_def task_simps)
    then show ?thesis using False s2 v1 by (intro exI [of _ s2]) (simp add: Let_def)
  qed
qed

text \<open>Waking a blocked task that is off its CPU puts it into the destination's queue.\<close>

lemma unblock_refines:
  assumes env: "over ops env" and ok: "vs_ok qinv iok s" and c: "c < length (percpus s)"
    and fr: "fresh (scheduler (cpu_at s c))"
    and t: "state (tasks s t) = Inr Blocked" "\<not> on_cpu (tasks s t)" "\<not> is_idle (tasks s t)"
  shows "\<exists>s'. unblock_task env t r c src s = Inr s' \<and> vs_ok qinv iok s' \<and> length (percpus s') = length (percpus s) \<and>
    view_of queued bound s' = a_enqueue c t (a_state t Ready (view_of queued bound s))"
proof -
  let ?s1 = "on_task t (\<lambda>_. set_state Ready (tasks s t)) s"
  have v1: "view_of queued bound ?s1 = a_state t Ready (view_of queued bound s)"
    by (auto simp: view_of_def a_state_def fun_eq_iff task_simps)
  have ok1: "vs_ok qinv iok ?s1" using ok by simp
  obtain s2 where s2: "put_prev env c t r ?s1 = Inr s2" "vs_ok qinv iok s2"
    "length (percpus s2) = length (percpus s)" "view_of queued bound s2 = a_enqueue c t (view_of queued bound ?s1)"
    using put_prev_refines [OF env ok1, of c t r] c fr by auto
  have put: "put_task_with_state env c t Blocked r s = Inr (s2, True)"
    using t s2(1) by (simp add: put_task_with_state_def task_simps)
  show ?thesis
  proof (cases "r \<and> src = c")
    case True
    let ?s3 = "on_task (current_task (cpu_at s2 c)) (set_preempt_pending True) s2"
    have "unblock_task env t r c src s = Inr ?s3"
      using put True vs_okD(1,2) [OF ok c] vs_okD(1) [OF s2(2), of c] s2(3) c by (simp add: unblock_task_def)
    then show ?thesis using s2 v1 by (intro exI [of _ ?s3]) (simp add: view_on_task)
  next
    case False
    then have "unblock_task env t r c src s = Inr s2"
      using put vs_okD(1,2) [OF ok c] by (auto simp: unblock_task_def)
    then show ?thesis using s2 v1 by (intro exI [of _ s2]) simp
  qed
qed

text \<open>Waking a task that is not blocked does nothing.\<close>

lemma unblock_noop:
  assumes ok: "vs_ok qinv iok s" and c: "c < length (percpus s)"
    and t: "state (tasks s t) = Inr x" "x \<noteq> Blocked"
  shows "\<exists>s'. unblock_task env t r c src s = Inr s' \<and> vs_ok qinv iok s' \<and> length (percpus s') = length (percpus s) \<and>
    view_of queued bound s' = view_of queued bound s"
  using ok vs_okD(1) [OF ok c] t
  by (simp add: unblock_task_def put_task_with_state_def task_simps view_on_task)

lemma clear_refines:
  assumes ok: "vs_ok qinv iok s" and c: "c < length (percpus s)" and p: "prev_task (cpu_at s c) = Some t"
  shows "\<exists>s'. take_prev_task_and_clear_on_cpu c s = Inr (s', t) \<and> vs_ok qinv iok s' \<and>
    length (percpus s') = length (percpus s) \<and> view_of queued bound s' = a_clear c t (view_of queued bound s)"
proof -
  let ?s = "on_task t (set_on_cpu False) (set_percpu c ((cpu_at s c)\<lparr>prev_task := None\<rparr>) s)"
  have "take_prev_task_and_clear_on_cpu c s = Inr (?s, t)"
    using vs_okD(1) [OF ok c] p by (simp add: take_prev_task_and_clear_on_cpu_def)
  moreover have "vs_ok qinv iok ?s" using ok c vs_okD(2,3) [OF ok c] by (simp add: vs_ok_set)
  moreover have "view_of queued bound ?s = a_clear c t (view_of queued bound s)"
    using c by (auto simp: view_of_def a_clear_def fun_eq_iff task_simps)
  ultimately show ?thesis by (intro exI [of _ ?s]) simp
qed

end

end
