(* ===== verification/Vsched_Run.thy ===== *)
theory Vsched_Run
  imports Vsched_Inv
begin

text \<open>
  Runs of the whole scheduler: the CPUs call the exported functions in any order, and each CPU that
  has switched to a new task first clears the flag of the task it left. Every enabled call returns
  and keeps the invariant, so in every reachable state a task is in at most one place.
\<close>

subsection \<open>Calls\<close>

text \<open>Blocking and exiting: \<^verbatim>\<open>blocked_resched\<close> and \<^verbatim>\<open>exit\<close> of \<^verbatim>\<open>task_management/src/sched.rs\<close> set the
  state of the current task and reschedule (the wait queues are modelled in \<open>Task_Mgmt\<close>).\<close>

definition stop_current :: "TaskState \<Rightarrow> ('q, 'i, 'c) platform \<Rightarrow> cpu \<Rightarrow> ('q, 'i, 'c) vsched \<Rightarrow>
    (('q, 'i, 'c) vsched \<times> (tid \<times> tid) option) outcome" where
  "stop_current st env c s =
     bind_outcome (current c s) (\<lambda>t.
     bind_outcome (is_running (tasks s t)) (\<lambda>r.
     bind_outcome (assert_outcome r) (\<lambda>_.
     bind_outcome (assert_outcome (\<not> is_idle (tasks s t))) (\<lambda>_.
       resched env c (on_task t (set_state st) s)))))"

definition stop_current_f :: "TaskState \<Rightarrow> ('q, 'i, 'c) platform \<Rightarrow> cpu \<Rightarrow> ('q, 'i, 'c) vsched \<Rightarrow>
    (('q, 'i, 'c) vsched \<times> bool) outcome" where
  "stop_current_f st env c s =
     bind_outcome (current c s) (\<lambda>t.
     bind_outcome (is_running (tasks s t)) (\<lambda>r.
     bind_outcome (assert_outcome r) (\<lambda>_.
     bind_outcome (assert_outcome (\<not> is_idle (tasks s t))) (\<lambda>_.
       resched_f env c (on_task t (set_state st) s)))))"

datatype event =
  Spawn cpu tid
| Yield cpu
| Preempt cpu
| YieldF cpu
| Block cpu
| Exit cpu
| BlockF cpu
| Unblock tid bool cpu cpu
| Tick cpu
| SetPrio cpu isize
| Clear cpu

type_synonym ('q, 'i, 'c) run = "('q, 'i, 'c) vsched \<times> cpu set"

definition after_switch :: "cpu \<Rightarrow> cpu set \<Rightarrow> (('q, 'i, 'c) vsched \<times> (tid \<times> tid) option) outcome \<Rightarrow>
    ('q, 'i, 'c) run outcome" where
  "after_switch c pend r = bind_outcome r (\<lambda>(s, sw). Inr (s, if sw = None then pend else insert c pend))"

definition after_switch_f :: "cpu \<Rightarrow> cpu set \<Rightarrow> (('q, 'i, 'c) vsched \<times> bool) outcome \<Rightarrow>
    ('q, 'i, 'c) run outcome" where
  "after_switch_f c pend r = bind_outcome r (\<lambda>(s, sw). Inr (s, if sw then insert c pend else pend))"

fun perform :: "('q, 'i, 'c) platform \<Rightarrow> event \<Rightarrow> ('q, 'i, 'c) run \<Rightarrow> ('q, 'i, 'c) run outcome" where
  "perform env (Spawn c t) (s, pend) = bind_outcome (spawn env c t s) (\<lambda>s'. Inr (s', pend))"
| "perform env (Yield c) (s, pend) = after_switch c pend (yield_now env c s)"
| "perform env (Preempt c) (s, pend) = after_switch c pend (preempt_current env c s)"
| "perform env (YieldF c) (s, pend) = after_switch_f c pend (yield_f env c s)"
| "perform env (Block c) (s, pend) = after_switch c pend (stop_current Blocked env c s)"
| "perform env (Exit c) (s, pend) = after_switch c pend (stop_current Exited env c s)"
| "perform env (BlockF c) (s, pend) = after_switch_f c pend (stop_current_f Blocked env c s)"
| "perform env (Unblock t r dst src) (s, pend) = bind_outcome (unblock_task env t r dst src s) (\<lambda>s'. Inr (s', pend))"
| "perform env (Tick c) (s, pend) = bind_outcome (current c s) (\<lambda>t.
     bind_outcome (vs_task_tick env c t s) (\<lambda>(s', b). Inr (s', pend)))"
| "perform env (SetPrio c pr) (s, pend) = bind_outcome (vs_set_priority env pr c s) (\<lambda>(s', b). Inr (s', pend))"
| "perform env (Clear c) (s, pend) = bind_outcome (take_prev_task_and_clear_on_cpu c s) (\<lambda>(s', t). Inr (s', pend - {c}))"

text \<open>
  When the callers may make a call: a CPU clears first; a task is spawned once; the idle task does
  not block or exit; a task is woken once it is off its CPU (until then \<^verbatim>\<open>unblock_task\<close> spins); a
  queue that is offered a task can tell it from the ones it holds.
\<close>

fun enabled :: "('q \<Rightarrow> tid multiset) \<Rightarrow> ('q \<Rightarrow> nat) \<Rightarrow> ('q \<Rightarrow> bool) \<Rightarrow> event \<Rightarrow> ('q, 'i, 'c) run \<Rightarrow> bool" where
  "enabled queued bound fresh (Spawn c t) (s, pend) \<longleftrightarrow> c < length (percpus s) \<and>
     fresh (scheduler (cpu_at s c)) \<and> state (tasks s t) = Inr Ready \<and> \<not> is_idle (tasks s t) \<and>
     startable (tasks s t) \<and> unplaced pend t (view_of queued bound s)"
| "enabled queued bound fresh (Yield c) (s, pend) \<longleftrightarrow> c < length (percpus s) \<and> c \<notin> pend \<and>
     fresh (scheduler (cpu_at s c))"
| "enabled queued bound fresh (Preempt c) (s, pend) \<longleftrightarrow> c < length (percpus s) \<and> c \<notin> pend \<and>
     fresh (scheduler (cpu_at s c))"
| "enabled queued bound fresh (YieldF c) (s, pend) \<longleftrightarrow> c < length (percpus s) \<and> c \<notin> pend \<and>
     fresh (scheduler (cpu_at s c))"
| "enabled queued bound fresh (Block c) (s, pend) \<longleftrightarrow> c < length (percpus s) \<and> c \<notin> pend \<and>
     \<not> is_idle (tasks s (current_task (cpu_at s c)))"
| "enabled queued bound fresh (Exit c) (s, pend) \<longleftrightarrow> c < length (percpus s) \<and> c \<notin> pend \<and>
     \<not> is_idle (tasks s (current_task (cpu_at s c)))"
| "enabled queued bound fresh (BlockF c) (s, pend) \<longleftrightarrow> c < length (percpus s) \<and> c \<notin> pend \<and>
     \<not> is_idle (tasks s (current_task (cpu_at s c)))"
| "enabled queued bound fresh (Unblock t r dst src) (s, pend) \<longleftrightarrow> dst < length (percpus s) \<and>
     (state (tasks s t) \<in> {Inr Running, Inr Ready, Inr Exited} \<or>
      state (tasks s t) = Inr Blocked \<and> fresh (scheduler (cpu_at s dst)) \<and> \<not> on_cpu (tasks s t) \<and>
        \<not> is_idle (tasks s t) \<and> startable (tasks s t))"
| "enabled queued bound fresh (Tick c) (s, pend) \<longleftrightarrow> c < length (percpus s)"
| "enabled queued bound fresh (SetPrio c pr) (s, pend) \<longleftrightarrow> c < length (percpus s)"
| "enabled queued bound fresh (Clear c) (s, pend) \<longleftrightarrow> c < length (percpus s) \<and> c \<in> pend"

text \<open>The tasks handed over so far.\<close>

fun spawned :: "event \<Rightarrow> tid set" where
  "spawned (Spawn c t) = {t}"
| "spawned e = {}"

context base_scheduler
begin

definition good :: "('q, 'i, 'c) run \<Rightarrow> bool" where
  "good S \<longleftrightarrow> vs_ok qinv iok (fst S) \<and> view_inv None (snd S) (view_of queued bound (fst S))"

text \<open>Leaving and picking, put together.\<close>

lemma resched_good:
  assumes env: "over ops env" and ok: "vs_ok qinv iok s" and c: "c < length (percpus s)" "c \<notin> pend"
    and inv: "view_inv (Some c) pend (view_of queued bound s)"
  shows "\<exists>s' pend'. after_switch c pend (resched env c s) = Inr (s', pend') \<and> good (s', pend') \<and>
      length (percpus s') = length (percpus s) \<and> (\<forall>live. all_kept live {} (view_of queued bound s) \<longrightarrow>
        all_kept live {} (view_of queued bound s'))"
    and "\<exists>s' pend'. after_switch_f c pend (resched_f env c s) = Inr (s', pend') \<and> good (s', pend') \<and>
      length (percpus s') = length (percpus s) \<and> (\<forall>live. all_kept live {} (view_of queued bound s) \<longrightarrow>
        all_kept live {} (view_of queued bound s'))"
proof -
  have c': "c < v_cpus (view_of queued bound s)" using c by simp
  obtain s' t w where s': "resched env c s = Inr (s', if current_task (cpu_at s c) = t then None
      else Some (current_task (cpu_at s c), t))" "vs_ok qinv iok s'" "length (percpus s') = length (percpus s)"
    "a_pick c t (view_of queued bound s) w" "view_of queued bound s' = a_switch c t w"
    using resched_refines [OF env ok c(1) inv] by blast
  let ?pend = "if current_task (cpu_at s c) = t then pend else insert c pend"
  have "after_switch c pend (resched env c s) = Inr (s', ?pend)" using s'(1) by (simp add: after_switch_def)
  moreover have "good (s', ?pend)"
    using switch_inv [OF inv c' c(2) s'(4)] s'(2,5) by (simp add: good_def)
  ultimately show "\<exists>s' pend'. after_switch c pend (resched env c s) = Inr (s', pend') \<and> good (s', pend') \<and>
      length (percpus s') = length (percpus s) \<and> (\<forall>live. all_kept live {} (view_of queued bound s) \<longrightarrow>
        all_kept live {} (view_of queued bound s'))"
    using kept_switch [OF inv _ c' s'(4)] s'(3,5) by auto
next
  have c': "c < v_cpus (view_of queued bound s)" using c by simp
  obtain s' t w where s': "resched_f env c s = Inr (s', current_task (cpu_at s c) \<noteq> t)"
    "vs_ok qinv iok s'" "length (percpus s') = length (percpus s)"
    "a_pick c t (view_of queued bound s) w" "view_of queued bound s' = a_switch c t w"
    using resched_f_refines [OF env ok c(1) inv] by blast
  let ?pend = "if current_task (cpu_at s c) = t then pend else insert c pend"
  have "after_switch_f c pend (resched_f env c s) = Inr (s', ?pend)" using s'(1) by (simp add: after_switch_f_def)
  moreover have "good (s', ?pend)"
    using switch_inv [OF inv c' c(2) s'(4)] s'(2,5) by (simp add: good_def)
  ultimately show "\<exists>s' pend'. after_switch_f c pend (resched_f env c s) = Inr (s', pend') \<and> good (s', pend') \<and>
      length (percpus s') = length (percpus s) \<and> (\<forall>live. all_kept live {} (view_of queued bound s) \<longrightarrow>
        all_kept live {} (view_of queued bound s'))"
    using kept_switch [OF inv _ c' s'(4)] s'(3,5) by auto
qed

lemma good_running:
  assumes "good (s, pend)" "c < length (percpus s)"
  shows "state (tasks s (current_task (cpu_at s c))) = Inr Running"
  using assms cur_running [of None pend "view_of queued bound s" c] by (simp add: good_def)

lemma good_not_queued:
  assumes "good (s, pend)" "c < length (percpus s)" "d < length (percpus s)"
  shows "current_task (cpu_at s c) \<notin># queued (scheduler (cpu_at s d))"
proof
  assume "current_task (cpu_at s c) \<in># queued (scheduler (cpu_at s d))"
  then have "state (tasks s (current_task (cpu_at s c))) = Inr Ready"
    using assms queued_ready [of None pend "view_of queued bound s" d] by (simp add: good_def)
  then show False using good_running [OF assms(1,2)] by simp
qed

text \<open>Yielding keeps the invariant up to the reschedule.\<close>

lemma yield_with_good:
  assumes env: "over ops env" and g: "good (s, pend)" and c: "c < length (percpus s)" "c \<notin> pend"
    and fr: "fresh (scheduler (cpu_at s c))"
  shows "\<exists>s'. yield_with p env c s = Inr s' \<and> vs_ok qinv iok s' \<and> length (percpus s') = length (percpus s) \<and>
    view_inv (Some c) pend (view_of queued bound s') \<and>
    (\<forall>live. all_kept live {} (view_of queued bound s) \<longrightarrow> all_kept live {} (view_of queued bound s'))"
proof -
  let ?v = "view_of queued bound s" and ?t = "current_task (cpu_at s c)"
  let ?w = "a_state ?t Ready ?v"
  have ok: "vs_ok qinv iok s" and inv: "view_inv None pend ?v" using g by (simp_all add: good_def)
  note run = good_running [OF g c(1)]
  obtain s' where s': "yield_with p env c s = Inr s'" "vs_ok qinv iok s'" "length (percpus s') = length (percpus s)"
    "view_of queued bound s' = (if is_idle (tasks s ?t) then ?w else a_enqueue c ?t ?w)"
    using yield_with_refines [OF env ok c(1) fr run] by (auto simp: Let_def)
  have w: "view_inv (Some c) pend ?w" using leave_inv [OF inv, of c Ready] c by simp
  have nq: "?t \<notin># v_queue ?w e" if "e < v_cpus ?w" for e using good_not_queued [OF g c(1), of e] that by simp
  have kw: "all_kept live {?t} ?w" if "all_kept live {} ?v" for live
    using kept_leave [OF that, of c Ready] c run by simp
  show ?thesis
  proof (cases "is_idle (tasks s ?t)")
    case True
    have "all_kept live {} ?w" if "all_kept live {} ?v" for live
    proof -
      have "?t \<notin> live" using that True by (auto simp: all_kept_def)
      then show ?thesis using kw [OF that] by (simp add: all_kept_def)
    qed
    then show ?thesis using s' w True by (intro exI [of _ s']) simp
  next
    case False
    have "view_inv (Some c) pend (a_enqueue c ?t ?w)"
      using enqueue_inv [OF w, of c ?t] c False nq cur_startable [OF inv, of c] by simp
    moreover have "all_kept live {} (a_enqueue c ?t ?w)" if "all_kept live {} ?v" for live
    proof -
      have "?t \<in> live" using that False c by (auto simp: all_kept_def)
      then show ?thesis using kept_enqueue [OF w kw [OF that], of c] nq c by simp
    qed
    ultimately show ?thesis using s' False by (intro exI [of _ s']) simp
  qed
qed

text \<open>Blocking and exiting.\<close>

lemma stop_state_good:
  assumes g: "good (s, pend)" and c: "c < length (percpus s)" and x: "x = Blocked \<or> x = Exited"
    and ni: "\<not> is_idle (tasks s (current_task (cpu_at s c)))"
  defines "s1 \<equiv> on_task (current_task (cpu_at s c)) (set_state x) s"
  shows "vs_ok qinv iok s1" "view_inv (Some c) pend (view_of queued bound s1)"
    "all_kept live {} (view_of queued bound s) \<Longrightarrow> all_kept live {} (view_of queued bound s1)"
proof -
  let ?v = "view_of queued bound s"
  have inv: "view_inv None pend ?v" using g by (simp add: good_def)
  show "vs_ok qinv iok s1" using g by (simp add: good_def s1_def)
  show "view_inv (Some c) pend (view_of queued bound s1)"
    using leave_inv [OF inv, of c x] c x ni by (auto simp: s1_def view_on_task)
  show "all_kept live {} (view_of queued bound s1)" if "all_kept live {} ?v"
    using kept_leave [OF that, of c x] c x good_running [OF g c] by (auto simp: s1_def view_on_task)
qed

lemma stop_good:
  assumes env: "over ops env" and g: "good (s, pend)" and c: "c < length (percpus s)" "c \<notin> pend"
    and x: "x = Blocked \<or> x = Exited" and ni: "\<not> is_idle (tasks s (current_task (cpu_at s c)))"
  shows "\<exists>s' pend'. after_switch c pend (stop_current x env c s) = Inr (s', pend') \<and> good (s', pend') \<and>
      length (percpus s') = length (percpus s) \<and> (\<forall>live. all_kept live {} (view_of queued bound s) \<longrightarrow>
        all_kept live {} (view_of queued bound s'))"
    and "\<exists>s' pend'. after_switch_f c pend (stop_current_f x env c s) = Inr (s', pend') \<and> good (s', pend') \<and>
      length (percpus s') = length (percpus s) \<and> (\<forall>live. all_kept live {} (view_of queued bound s) \<longrightarrow>
        all_kept live {} (view_of queued bound s'))"
proof -
  let ?s1 = "on_task (current_task (cpu_at s c)) (set_state x) s"
  note st = stop_state_good [OF g c(1) x ni]
  have ok: "vs_ok qinv iok s" using g by (simp add: good_def)
  have eq: "stop_current x env c s = resched env c ?s1" "stop_current_f x env c s = resched_f env c ?s1"
    using vs_okD(1) [OF ok c(1)] good_running [OF g c(1)] ni
    by (simp_all add: stop_current_def stop_current_f_def current_def task_simps)
  have c1: "c < length (percpus ?s1)" using c by simp
  note r = resched_good [OF env st(1) c1 c(2) st(2)]
  show "\<exists>s' pend'. after_switch c pend (stop_current x env c s) = Inr (s', pend') \<and> good (s', pend') \<and>
      length (percpus s') = length (percpus s) \<and> (\<forall>live. all_kept live {} (view_of queued bound s) \<longrightarrow>
        all_kept live {} (view_of queued bound s'))"
    using r(1) st(3) unfolding eq set_simps by blast
  show "\<exists>s' pend'. after_switch_f c pend (stop_current_f x env c s) = Inr (s', pend') \<and> good (s', pend') \<and>
      length (percpus s') = length (percpus s) \<and> (\<forall>live. all_kept live {} (view_of queued bound s) \<longrightarrow>
        all_kept live {} (view_of queued bound s'))"
    using r(2) st(3) unfolding eq set_simps by blast
qed

lemma yield_good:
  assumes env: "over ops env" and g: "good (s, pend)" and c: "c < length (percpus s)" "c \<notin> pend"
    and fr: "fresh (scheduler (cpu_at s c))"
  shows "\<exists>s' pend'. after_switch c pend (bind_outcome (yield_with p env c s) (resched env c)) = Inr (s', pend') \<and>
      good (s', pend') \<and> length (percpus s') = length (percpus s) \<and>
      (\<forall>live. all_kept live {} (view_of queued bound s) \<longrightarrow> all_kept live {} (view_of queued bound s'))"
    and "\<exists>s' pend'. after_switch_f c pend (bind_outcome (yield_with p env c s) (resched_f env c)) = Inr (s', pend') \<and>
      good (s', pend') \<and> length (percpus s') = length (percpus s) \<and>
      (\<forall>live. all_kept live {} (view_of queued bound s) \<longrightarrow> all_kept live {} (view_of queued bound s'))"
proof -
  obtain s1 where s1: "yield_with p env c s = Inr s1" "vs_ok qinv iok s1" "length (percpus s1) = length (percpus s)"
    "view_inv (Some c) pend (view_of queued bound s1)"
    and k: "\<forall>live. all_kept live {} (view_of queued bound s) \<longrightarrow> all_kept live {} (view_of queued bound s1)"
    using yield_with_good [OF env g c fr] by blast
  have c1: "c < length (percpus s1)" using c s1(3) by simp
  note r = resched_good [OF env s1(2) c1 c(2) s1(4)]
  show "\<exists>s' pend'. after_switch c pend (bind_outcome (yield_with p env c s) (resched env c)) = Inr (s', pend') \<and>
      good (s', pend') \<and> length (percpus s') = length (percpus s) \<and>
      (\<forall>live. all_kept live {} (view_of queued bound s) \<longrightarrow> all_kept live {} (view_of queued bound s'))"
    using r(1) k unfolding s1(1) bind_outcome_Inr s1(3) by blast
  show "\<exists>s' pend'. after_switch_f c pend (bind_outcome (yield_with p env c s) (resched_f env c)) = Inr (s', pend') \<and>
      good (s', pend') \<and> length (percpus s') = length (percpus s) \<and>
      (\<forall>live. all_kept live {} (view_of queued bound s) \<longrightarrow> all_kept live {} (view_of queued bound s'))"
    using r(2) k unfolding s1(1) bind_outcome_Inr s1(3) by blast
qed

lemma spawn_good:
  assumes env: "over ops env" and g: "good (s, pend)" and en: "enabled queued bound fresh (Spawn c t) (s, pend)"
  shows "\<exists>s'. spawn env c t s = Inr s' \<and> good (s', pend) \<and> length (percpus s') = length (percpus s) \<and>
    (\<forall>live. all_kept live {} (view_of queued bound s) \<and>
       (\<forall>e < length (percpus s). card (insert t live) \<le> bound (scheduler (cpu_at s e))) \<longrightarrow>
      all_kept (insert t live) {} (view_of queued bound s'))"
proof -
  let ?v = "view_of queued bound s"
  have ok: "vs_ok qinv iok s" and inv: "view_inv None pend ?v" using g by (simp_all add: good_def)
  have c: "c < length (percpus s)" "fresh (scheduler (cpu_at s c))" "state (tasks s t) = Inr Ready"
    "\<not> is_idle (tasks s t)" "startable (tasks s t)" "unplaced pend t ?v" using en by auto
  obtain s' where s': "spawn env c t s = Inr s'" "vs_ok qinv iok s'" "length (percpus s') = length (percpus s)"
    "view_of queued bound s' = a_enqueue c t ?v" using spawn_refines [OF env ok c(1,2,3)] by blast
  have "view_inv None pend (a_enqueue c t ?v)" using enqueue_inv [OF inv, of c t] c by simp
  moreover have "all_kept (insert t live) {} (a_enqueue c t ?v)"
    if k: "all_kept live {} ?v" "\<forall>e < length (percpus s). card (insert t live) \<le> bound (scheduler (cpu_at s e))" for live
  proof -
    have "finite live" using k(1) by (simp add: all_kept_def)
    then have "all_kept (insert t live) {t} ?v" using kept_spawn [OF k(1), of t] k(2) c(4) by simp
    then show ?thesis using kept_enqueue [OF inv, of "insert t live" t c] c(1,6) by (simp add: unplaced_def)
  qed
  ultimately show ?thesis using s' by (intro exI [of _ s']) (simp add: good_def)
qed

lemma unblock_good:
  assumes env: "over ops env" and g: "good (s, pend)" and en: "enabled queued bound fresh (Unblock t r c src) (s, pend)"
  shows "\<exists>s'. unblock_task env t r c src s = Inr s' \<and> good (s', pend) \<and> length (percpus s') = length (percpus s) \<and>
    (\<forall>live. all_kept live {} (view_of queued bound s) \<and> (state (tasks s t) = Inr Blocked \<longrightarrow> t \<in> live) \<longrightarrow>
      all_kept live {} (view_of queued bound s'))"
proof (cases "state (tasks s t) = Inr Blocked")
  case False
  then obtain x where "state (tasks s t) = Inr x" "x \<noteq> Blocked" using en by auto
  then show ?thesis using unblock_noop [of s c t x env r src] g en by (fastforce simp: good_def)
next
  case True
  let ?v = "view_of queued bound s" let ?w = "a_state t Ready ?v"
  have ok: "vs_ok qinv iok s" and inv: "view_inv None pend ?v" using g by (simp_all add: good_def)
  have c: "c < length (percpus s)" "fresh (scheduler (cpu_at s c))" "\<not> on_cpu (tasks s t)"
    "\<not> is_idle (tasks s t)" "startable (tasks s t)" using en True by auto
  obtain s' where s': "unblock_task env t r c src s = Inr s'" "vs_ok qinv iok s'" "length (percpus s') = length (percpus s)"
    "view_of queued bound s' = a_enqueue c t ?w" using unblock_refines [OF env ok c(1,2) True c(3,4)] by blast
  have ncur: "current_task (cpu_at s e) \<noteq> t" if "e < length (percpus s)" for e
    using good_running [OF g that] True by auto
  have nq: "t \<notin># queued (scheduler (cpu_at s e))" if "e < length (percpus s)" for e
    using queued_ready [OF inv, of e t] that True by auto
  have w: "view_inv None pend ?w" using wake_inv [OF inv, of t] ncur nq c(4) by simp
  have "\<not> (e \<in> pend \<and> prev_task (cpu_at s e) = Some t)" if "e < length (percpus s)" for e
    using oncpu_iff [OF inv, of t] c(3) that by auto
  then have "unplaced pend t ?w" using ncur nq by (simp add: unplaced_def)
  then have "view_inv None pend (a_enqueue c t ?w)" using enqueue_inv [OF w, of c t] c by simp
  moreover have "all_kept live {} (a_enqueue c t ?w)" if k: "all_kept live {} ?v" "t \<in> live" for live
    using kept_enqueue [OF w kept_wake [OF k(1)], of c] k(2) nq c(1) by simp
  ultimately show ?thesis using s' True by (intro exI [of _ s']) (simp add: good_def)
qed

lemma info_good:
  assumes g: "good (s, pend)" and c: "c < length (percpus s)" and i: "\<forall>u. iok (i u)"
  defines "s' \<equiv> set_sched c (cpu_at s c) (scheduler (cpu_at s c), i) s"
  shows "good (s', pend)" "length (percpus s') = length (percpus s)" "view_of queued bound s' = view_of queued bound s"
proof -
  have ok: "vs_ok qinv iok s" using g by (simp add: good_def)
  show v: "view_of queued bound s' = view_of queued bound s"
    using c by (auto simp: s'_def view_of_def fun_eq_iff)
  show "length (percpus s') = length (percpus s)" by (simp add: s'_def)
  show "good (s', pend)" using g vs_ok_sched [OF ok c vs_okD(3) [OF ok c] i] v by (simp add: good_def s'_def)
qed

lemma tick_good:
  assumes env: "over ops env" and g: "good (s, pend)" and c: "c < length (percpus s)"
  shows "\<exists>s' b. vs_task_tick env c t s = Inr (s', b) \<and> good (s', pend) \<and>
    length (percpus s') = length (percpus s) \<and> view_of queued bound s' = view_of queued bound s"
proof -
  have ok: "vs_ok qinv iok s" using g by (simp add: good_def)
  obtain st b where st: "task_tick ops t (scheduler (cpu_at s c), sched_info s) =
      Inr ((scheduler (cpu_at s c), st), b)" "\<forall>u. iok (st u)"
    using tick_law [of "sched_info s" t "scheduler (cpu_at s c)"] vs_okD(4) [OF ok] by blast
  then show ?thesis using info_good [OF g c st(2)] vs_okD(1) [OF ok c] env
    by (simp add: vs_task_tick_def over_def)
qed

lemma prio_good:
  assumes env: "over ops env" and g: "good (s, pend)" and c: "c < length (percpus s)"
  shows "\<exists>s' b. vs_set_priority env pr c s = Inr (s', b) \<and> good (s', pend) \<and>
    length (percpus s') = length (percpus s) \<and> view_of queued bound s' = view_of queued bound s"
proof -
  have ok: "vs_ok qinv iok s" using g by (simp add: good_def)
  obtain st b where st: "set_priority ops (current_task (cpu_at s c)) pr (scheduler (cpu_at s c), sched_info s) =
      Inr ((scheduler (cpu_at s c), st), b)" "\<forall>u. iok (st u)"
    using prio_law [of "sched_info s" "current_task (cpu_at s c)" pr "scheduler (cpu_at s c)"] vs_okD(4) [OF ok] by blast
  then show ?thesis using info_good [OF g c st(2)] vs_okD(1) [OF ok c] env
    by (simp add: vs_set_priority_def over_def)
qed

lemma clear_good:
  assumes g: "good (s, pend)" and c: "c < length (percpus s)" "c \<in> pend"
  shows "\<exists>s' t. take_prev_task_and_clear_on_cpu c s = Inr (s', t) \<and> good (s', pend - {c}) \<and>
    length (percpus s') = length (percpus s) \<and>
    (\<forall>live. all_kept live {} (view_of queued bound s) \<longrightarrow> all_kept live {} (view_of queued bound s'))"
proof -
  let ?v = "view_of queued bound s"
  have ok: "vs_ok qinv iok s" and inv: "view_inv None pend ?v" using g by (simp_all add: good_def)
  obtain t where t: "v_prev ?v c = Some t" using prev_some [OF inv, of c] c by auto
  obtain s' where s': "take_prev_task_and_clear_on_cpu c s = Inr (s', t)" "vs_ok qinv iok s'"
    "length (percpus s') = length (percpus s)" "view_of queued bound s' = a_clear c t ?v"
    using clear_refines [OF ok c(1), of t] t by auto
  then show ?thesis using clear_inv [OF inv _ c(2) t] c(1) kept_clear
    by (intro exI [of _ s'] exI [of _ t]) (auto simp: good_def)
qed

text \<open>Every enabled call returns and keeps the invariant.\<close>

lemma perform_good:
  assumes env: "over ops env" and g: "good (s, pend)" and en: "enabled queued bound fresh e (s, pend)"
  shows "\<exists>s' pend'. perform env e (s, pend) = Inr (s', pend') \<and> good (s', pend') \<and>
    length (percpus s') = length (percpus s)"
proof (cases e)
  case (Spawn c t)
  show ?thesis using spawn_good [OF env g en [unfolded Spawn]] unfolding Spawn by auto
next
  case (Yield c)
  then show ?thesis using yield_good(1) [OF env g, of c False] en by (auto simp: yield_now_def)
next
  case (Preempt c)
  then show ?thesis using yield_good(1) [OF env g, of c True] en by (auto simp: preempt_current_def)
next
  case (YieldF c)
  then show ?thesis using yield_good(2) [OF env g, of c False] en by (auto simp: yield_f_def)
next
  case (Block c)
  then show ?thesis using stop_good(1) [OF env g, of c Blocked] en by auto
next
  case (Exit c)
  then show ?thesis using stop_good(1) [OF env g, of c Exited] en by auto
next
  case (BlockF c)
  then show ?thesis using stop_good(2) [OF env g, of c Blocked] en by auto
next
  case (Unblock t r c src)
  show ?thesis using unblock_good [OF env g en [unfolded Unblock]] unfolding Unblock by auto
next
  case (Tick c)
  then have c: "c < length (percpus s)" using en by simp
  have "current c s = Inr (current_task (cpu_at s c))"
    using g vs_okD(1) [of qinv iok s c] c by (simp add: current_def good_def)
  then show ?thesis using tick_good [OF env g c, of "current_task (cpu_at s c)"] Tick by auto
next
  case (SetPrio c pr)
  then have c: "c < length (percpus s)" using en by simp
  then show ?thesis using prio_good [OF env g c, of pr] SetPrio by auto
next
  case (Clear c)
  then show ?thesis using clear_good [OF g, of c] en by auto
qed

text \<open>No call loses a task, as long as the ready queues have room for every task handed over.\<close>

definition room_for :: "event \<Rightarrow> tid set \<Rightarrow> ('q, 'i, 'c) vsched \<Rightarrow> bool" where
  "room_for e live s \<longleftrightarrow>
     (\<forall>c < length (percpus s). card (live \<union> spawned e) \<le> bound (scheduler (cpu_at s c))) \<and>
     (case e of Unblock t r c src \<Rightarrow> state (tasks s t) = Inr Blocked \<longrightarrow> t \<in> live | _ \<Rightarrow> True)"

lemma perform_kept:
  assumes env: "over ops env" and g: "good (s, pend)" and en: "enabled queued bound fresh e (s, pend)"
    and k: "all_kept live {} (view_of queued bound s)" and room: "room_for e live s"
    and p: "perform env e (s, pend) = Inr (s', pend')"
  shows "all_kept (live \<union> spawned e) {} (view_of queued bound s')"
proof (cases e)
  case (Spawn c t)
  have "\<forall>e < length (percpus s). card (insert t live) \<le> bound (scheduler (cpu_at s e))"
    using room Spawn by (simp add: room_for_def)
  then show ?thesis using spawn_good [OF env g en [unfolded Spawn]] p k unfolding Spawn by auto
next
  case (Yield c)
  then show ?thesis using yield_good(1) [OF env g, of c False] en p k by (auto simp: yield_now_def)
next
  case (Preempt c)
  then show ?thesis using yield_good(1) [OF env g, of c True] en p k by (auto simp: preempt_current_def)
next
  case (YieldF c)
  then show ?thesis using yield_good(2) [OF env g, of c False] en p k by (auto simp: yield_f_def)
next
  case (Block c)
  then show ?thesis using stop_good(1) [OF env g, of c Blocked] en p k by auto
next
  case (Exit c)
  then show ?thesis using stop_good(1) [OF env g, of c Exited] en p k by auto
next
  case (BlockF c)
  then show ?thesis using stop_good(2) [OF env g, of c Blocked] en p k by auto
next
  case (Unblock t r c src)
  then have "state (tasks s t) = Inr Blocked \<longrightarrow> t \<in> live" using room by (simp add: room_for_def)
  then show ?thesis using unblock_good [OF env g en [unfolded Unblock]] p k unfolding Unblock by auto
next
  case (Tick c)
  then have c: "c < length (percpus s)" using en by simp
  have "current c s = Inr (current_task (cpu_at s c))"
    using g vs_okD(1) [of qinv iok s c] c by (simp add: current_def good_def)
  then show ?thesis using tick_good [OF env g c, of "current_task (cpu_at s c)"] Tick p k by auto
next
  case (SetPrio c pr)
  then have c: "c < length (percpus s)" using en by simp
  then show ?thesis using prio_good [OF env g c, of pr] SetPrio p k by auto
next
  case (Clear c)
  then show ?thesis using clear_good [OF g, of c] en p k by auto
qed

end

end
