(* ===== verification/Vsched_Safe.thy ===== *)
theory Vsched_Safe
  imports Vsched_Run Round_Robin
begin

text \<open>
  What the run queues guarantee over whole runs: booting every CPU establishes the invariant, every
  run of allowed calls refines a run of the abstract scheduler, and no task handed over is lost.
\<close>

subsection \<open>The calls of the abstract scheduler\<close>

definition a_put :: "cpu \<Rightarrow> view \<Rightarrow> view" where
  "a_put c v = (let t = v_cur v c; w = a_state t Ready v in if v_isidle v t then w else a_enqueue c t w)"

definition a_pending :: "cpu \<Rightarrow> tid \<Rightarrow> view \<Rightarrow> cpu set \<Rightarrow> cpu set" where
  "a_pending c t v p = (if v_cur v c = t then p else insert c p)"

lemma a_pending_frame [simp]:
  "a_pending c t (a_state u x v) p = a_pending c t v p" "a_pending c t (a_put c v) p = a_pending c t v p"
  by (simp_all add: a_pending_def a_put_def Let_def)

inductive a_call :: "event \<Rightarrow> view \<times> cpu set \<Rightarrow> view \<times> cpu set \<Rightarrow> bool" where
  a_spawn: "a_call (Spawn c t) (v, p) (a_enqueue c t v, p)"
| a_yield: "e \<in> {Yield c, Preempt c, YieldF c} \<Longrightarrow> a_pick c t (a_put c v) w \<Longrightarrow>
    a_call e (v, p) (a_switch c t w, a_pending c t v p)"
| a_block: "e \<in> {Block c, BlockF c} \<Longrightarrow> a_pick c t (a_state (v_cur v c) Blocked v) w \<Longrightarrow>
    a_call e (v, p) (a_switch c t w, a_pending c t v p)"
| a_exit: "a_pick c t (a_state (v_cur v c) Exited v) w \<Longrightarrow>
    a_call (Exit c) (v, p) (a_switch c t w, a_pending c t v p)"
| a_wake: "v_state v t = Inr Blocked \<Longrightarrow>
    a_call (Unblock t r d src) (v, p) (a_enqueue d t (a_state t Ready v), p)"
| a_nowake: "v_state v t \<noteq> Inr Blocked \<Longrightarrow> a_call (Unblock t r d src) (v, p) (v, p)"
| a_tick: "a_call (Tick c) (v, p) (v, p)"
| a_prio: "a_call (SetPrio c pr) (v, p) (v, p)"
| a_clear: "v_prev v c = Some t \<Longrightarrow> a_call (Clear c) (v, p) (a_clear c t v, p - {c})"

inductive a_run :: "event list \<Rightarrow> view \<times> cpu set \<Rightarrow> view \<times> cpu set \<Rightarrow> bool" where
  a_stop: "a_run [] V V"
| a_go: "a_call e V W \<Longrightarrow> a_run es W U \<Longrightarrow> a_run (e # es) V U"

context base_scheduler
begin

definition run_view :: "('q, 'i, 'c) run \<Rightarrow> view \<times> cpu set" where
  "run_view S = (view_of queued bound (fst S), snd S)"

lemma resched_call:
  assumes env: "over ops env" and ok: "vs_ok qinv iok s" and c: "c < length (percpus s)"
    and inv: "view_inv (Some c) pend (view_of queued bound s)"
  shows "\<exists>s' t w. after_switch c pend (resched env c s) = Inr (s', a_pending c t (view_of queued bound s) pend) \<and>
      a_pick c t (view_of queued bound s) w \<and> view_of queued bound s' = a_switch c t w"
    and "\<exists>s' t w. after_switch_f c pend (resched_f env c s) = Inr (s', a_pending c t (view_of queued bound s) pend) \<and>
      a_pick c t (view_of queued bound s) w \<and> view_of queued bound s' = a_switch c t w"
  using resched_refines [OF env ok c inv] resched_f_refines [OF env ok c inv]
  by (fastforce simp: after_switch_def after_switch_f_def a_pending_def)+

lemma yield_call:
  assumes env: "over ops env" and g: "good (s, pend)" and c: "c < length (percpus s)" "c \<notin> pend"
    and fr: "fresh (scheduler (cpu_at s c))" and e: "e \<in> {Yield c, Preempt c, YieldF c}"
  shows "(\<exists>S'. after_switch c pend (bind_outcome (yield_with p env c s) (resched env c)) = Inr S' \<and>
      a_call e (run_view (s, pend)) (run_view S'))"
    and "(\<exists>S'. after_switch_f c pend (bind_outcome (yield_with p env c s) (resched_f env c)) = Inr S' \<and>
      a_call e (run_view (s, pend)) (run_view S'))"
proof -
  have ok: "vs_ok qinv iok s" using g by (simp add: good_def)
  obtain s1 where s1: "yield_with p env c s = Inr s1" "vs_ok qinv iok s1"
    "length (percpus s1) = length (percpus s)" "view_inv (Some c) pend (view_of queued bound s1)"
    using yield_with_good [OF env g c fr, of p] by blast
  have v1: "view_of queued bound s1 = a_put c (view_of queued bound s)"
    using yield_with_refines [OF env ok c(1) fr good_running [OF g c(1)], of p] s1(1)
    by (auto simp: a_put_def Let_def)
  have c1: "c < length (percpus s1)" using c s1(3) by simp
  note r = resched_call [OF env s1(2) c1 s1(4)]
  show "\<exists>S'. after_switch c pend (bind_outcome (yield_with p env c s) (resched env c)) = Inr S' \<and>
      a_call e (run_view (s, pend)) (run_view S')"
    using r(1) a_yield [OF e] unfolding s1(1) bind_outcome_Inr v1 a_pending_frame run_view_def
    by (metis fst_conv snd_conv)
  show "\<exists>S'. after_switch_f c pend (bind_outcome (yield_with p env c s) (resched_f env c)) = Inr S' \<and>
      a_call e (run_view (s, pend)) (run_view S')"
    using r(2) a_yield [OF e] unfolding s1(1) bind_outcome_Inr v1 a_pending_frame run_view_def
    by (metis fst_conv snd_conv)
qed

lemma stop_call:
  assumes env: "over ops env" and g: "good (s, pend)" and c: "c < length (percpus s)"
    and x: "x = Blocked \<or> x = Exited" and ni: "\<not> is_idle (tasks s (current_task (cpu_at s c)))"
  shows "\<exists>s' t w. after_switch c pend (stop_current x env c s) =
        Inr (s', a_pending c t (view_of queued bound s) pend) \<and>
      a_pick c t (a_state (current_task (cpu_at s c)) x (view_of queued bound s)) w \<and>
      view_of queued bound s' = a_switch c t w"
    and "\<exists>s' t w. after_switch_f c pend (stop_current_f x env c s) =
        Inr (s', a_pending c t (view_of queued bound s) pend) \<and>
      a_pick c t (a_state (current_task (cpu_at s c)) x (view_of queued bound s)) w \<and>
      view_of queued bound s' = a_switch c t w"
proof -
  let ?s1 = "on_task (current_task (cpu_at s c)) (set_state x) s"
  note st = stop_state_good [OF g c x ni]
  have c1: "c < length (percpus ?s1)" using c by simp
  have eq: "stop_current x env c s = resched env c ?s1" "stop_current_f x env c s = resched_f env c ?s1"
    using g vs_okD(1) [of qinv iok s c] c good_running [OF g c] ni
    by (simp_all add: good_def stop_current_def stop_current_f_def current_def task_simps)
  note r = resched_call [OF env st(1) c1 st(2)]
  show "\<exists>s' t w. after_switch c pend (stop_current x env c s) =
        Inr (s', a_pending c t (view_of queued bound s) pend) \<and>
      a_pick c t (a_state (current_task (cpu_at s c)) x (view_of queued bound s)) w \<and>
      view_of queued bound s' = a_switch c t w"
    using r(1) unfolding eq view_on_task a_pending_frame .
  show "\<exists>s' t w. after_switch_f c pend (stop_current_f x env c s) =
        Inr (s', a_pending c t (view_of queued bound s) pend) \<and>
      a_pick c t (a_state (current_task (cpu_at s c)) x (view_of queued bound s)) w \<and>
      view_of queued bound s' = a_switch c t w"
    using r(2) unfolding eq view_on_task a_pending_frame .
qed

lemma spawn_call:
  assumes env: "over ops env" and g: "good (s, pend)" and en: "enabled queued bound fresh (Spawn c t) (s, pend)"
  shows "\<exists>S'. perform env (Spawn c t) (s, pend) = Inr S' \<and> a_call (Spawn c t) (run_view (s, pend)) (run_view S')"
proof -
  have ok: "vs_ok qinv iok s" using g by (simp add: good_def)
  obtain s' where "spawn env c t s = Inr s'" "view_of queued bound s' = a_enqueue c t (view_of queued bound s)"
    using spawn_refines [OF env ok, of c t] en by auto
  then show ?thesis by (auto simp: run_view_def intro: a_spawn)
qed

lemma unblock_call:
  assumes env: "over ops env" and g: "good (s, pend)" and en: "enabled queued bound fresh (Unblock t r c src) (s, pend)"
  shows "\<exists>S'. perform env (Unblock t r c src) (s, pend) = Inr S' \<and>
    a_call (Unblock t r c src) (run_view (s, pend)) (run_view S')"
proof (cases "state (tasks s t) = Inr Blocked")
  case True
  have ok: "vs_ok qinv iok s" using g by (simp add: good_def)
  obtain s' where "unblock_task env t r c src s = Inr s'"
      "view_of queued bound s' = a_enqueue c t (a_state t Ready (view_of queued bound s))"
    using unblock_refines [OF env ok, of c t r src] en True by auto
  then show ?thesis using a_wake [of "view_of queued bound s" t r c src pend] True by (auto simp: run_view_def)
next
  case False
  have ok: "vs_ok qinv iok s" using g by (simp add: good_def)
  obtain x where x: "state (tasks s t) = Inr x" "x \<noteq> Blocked" using False en by auto
  have c: "c < length (percpus s)" using en by simp
  obtain s' where "unblock_task env t r c src s = Inr s'" "view_of queued bound s' = view_of queued bound s"
    using unblock_noop [OF ok c x, of env r src] by auto
  then show ?thesis using a_nowake [of "view_of queued bound s" t r c src pend] x by (auto simp: run_view_def)
qed

lemma perform_call:
  assumes env: "over ops env" and g: "good (s, pend)" and en: "enabled queued bound fresh e (s, pend)"
  shows "\<exists>S'. perform env e (s, pend) = Inr S' \<and> a_call e (run_view (s, pend)) (run_view S')"
proof (cases e)
  case (Spawn c t)
  show ?thesis using spawn_call [OF env g en [unfolded Spawn]] unfolding Spawn .
next
  case (Yield c)
  then show ?thesis using yield_call(1) [OF env g, of c e False] en by (simp add: yield_now_def)
next
  case (Preempt c)
  then show ?thesis using yield_call(1) [OF env g, of c e True] en by (simp add: preempt_current_def)
next
  case (YieldF c)
  then show ?thesis using yield_call(2) [OF env g, of c e False] en by (simp add: yield_f_def)
next
  case (Block c)
  then obtain s' t w where s': "perform env e (s, pend) = Inr (s', a_pending c t (view_of queued bound s) pend)"
    "a_pick c t (a_state (v_cur (view_of queued bound s) c) Blocked (view_of queued bound s)) w"
    "view_of queued bound s' = a_switch c t w"
    using stop_call(1) [OF env g, of c Blocked] en by auto
  then show ?thesis using a_block [OF _ s'(2), of e pend] Block by (auto simp: run_view_def)
next
  case (Exit c)
  then obtain s' t w where s': "perform env e (s, pend) = Inr (s', a_pending c t (view_of queued bound s) pend)"
    "a_pick c t (a_state (v_cur (view_of queued bound s) c) Exited (view_of queued bound s)) w"
    "view_of queued bound s' = a_switch c t w"
    using stop_call(1) [OF env g, of c Exited] en by auto
  then show ?thesis using a_exit [OF s'(2), of pend] Exit by (auto simp: run_view_def)
next
  case (BlockF c)
  then obtain s' t w where s': "perform env e (s, pend) = Inr (s', a_pending c t (view_of queued bound s) pend)"
    "a_pick c t (a_state (v_cur (view_of queued bound s) c) Blocked (view_of queued bound s)) w"
    "view_of queued bound s' = a_switch c t w"
    using stop_call(2) [OF env g, of c Blocked] en by auto
  then show ?thesis using a_block [OF _ s'(2), of e pend] BlockF by (auto simp: run_view_def)
next
  case (Unblock t r c src)
  show ?thesis using unblock_call [OF env g en [unfolded Unblock]] unfolding Unblock .
next
  case (Tick c)
  then have c: "c < length (percpus s)" using en by simp
  have "current c s = Inr (current_task (cpu_at s c))"
    using g vs_okD(1) [of qinv iok s c] c by (simp add: current_def good_def)
  then show ?thesis using tick_good [OF env g c, of "current_task (cpu_at s c)"] Tick
    by (auto simp: run_view_def intro: a_tick)
next
  case (SetPrio c pr)
  then have c: "c < length (percpus s)" using en by simp
  then show ?thesis using prio_good [OF env g c, of pr] SetPrio by (auto simp: run_view_def intro: a_prio)
next
  case (Clear c)
  then have c: "c < length (percpus s)" "c \<in> pend" using en by auto
  have ok: "vs_ok qinv iok s" and inv: "view_inv None pend (view_of queued bound s)" using g by (simp_all add: good_def)
  obtain t where t: "v_prev (view_of queued bound s) c = Some t" using prev_some [OF inv, of c] c by auto
  obtain s' where "take_prev_task_and_clear_on_cpu c s = Inr (s', t)"
    "view_of queued bound s' = a_clear c t (view_of queued bound s)" using clear_refines [OF ok c(1), of t] t by auto
  then show ?thesis using a_clear [OF t, of pend] Clear by (auto simp: run_view_def)
qed

end

subsection \<open>Runs\<close>

fun run_events :: "('q, 'i, 'c) platform \<Rightarrow> event list \<Rightarrow> ('q, 'i, 'c) run \<Rightarrow> ('q, 'i, 'c) run outcome" where
  "run_events env [] S = Inr S"
| "run_events env (e # es) S = bind_outcome (perform env e S) (run_events env es)"

text \<open>Every call is made when the callers may make it.\<close>

fun allowed :: "('q \<Rightarrow> tid multiset) \<Rightarrow> ('q \<Rightarrow> nat) \<Rightarrow> ('q \<Rightarrow> bool) \<Rightarrow> ('q, 'i, 'c) platform \<Rightarrow>
    event list \<Rightarrow> ('q, 'i, 'c) run \<Rightarrow> bool" where
  "allowed queued bound fresh env [] S = True"
| "allowed queued bound fresh env (e # es) S = (enabled queued bound fresh e S \<and>
     (case perform env e S of Inl x \<Rightarrow> True | Inr S' \<Rightarrow> allowed queued bound fresh env es S'))"

context base_scheduler
begin

lemma run_refines:
  assumes "over ops env" "good S" "allowed queued bound fresh env es S"
  shows "\<exists>S'. run_events env es S = Inr S' \<and> good S' \<and> length (percpus (fst S')) = length (percpus (fst S)) \<and>
    a_run es (run_view S) (run_view S')"
  using assms(2,3)
proof (induction es arbitrary: S)
  case Nil
  then show ?case by (auto intro: a_stop)
next
  case (Cons e es)
  obtain s pend where S: "S = (s, pend)" by (cases S)
  obtain S1 where S1: "perform env e S = Inr S1" "a_call e (run_view S) (run_view S1)"
    using perform_call [OF assms(1), of s pend e] Cons.prems unfolding S by auto
  have g: "good S1" "length (percpus (fst S1)) = length (percpus (fst S))"
    using perform_good [OF assms(1), of s pend e] Cons.prems S1(1) unfolding S by auto
  then show ?case using Cons.IH [OF g(1)] Cons.prems(2) S1 by (auto intro: a_go)
qed

end

end
