(* ===== verification/Vsched_Boot.thy ===== *)
theory Vsched_Boot
  imports Vsched_Safe
begin

text \<open>
  From boot on: initialising every CPU establishes the invariant of the run queues, and the
  guarantees that every later run of allowed calls inherits, with the round-robin scheduler as the
  running example.
\<close>

subsection \<open>Booting\<close>

text \<open>Each CPU calls \<^verbatim>\<open>init_vsched\<close> with its idle task and the task it is running.\<close>

fun boot_cpus :: "('q, 'i, 'c) platform \<Rightarrow> cpu \<Rightarrow> (tid \<times> tid) list \<Rightarrow> ('q, 'i, 'c) vsched \<Rightarrow>
    ('q, 'i, 'c) vsched outcome" where
  "boot_cpus env c [] s = Inr s"
| "boot_cpus env c ((idle, boot) # xs) s = bind_outcome (init_vsched env c idle boot s) (boot_cpus env (Suc c) xs)"

definition bootable :: "(tid \<times> tid) list \<Rightarrow> ('q, 'i, 'c) vsched \<Rightarrow> bool" where
  "bootable xs s \<longleftrightarrow> length (percpus s) = length xs \<and> distinct (map fst xs) \<and> distinct (map snd xs) \<and>
     (\<forall>(i, b) \<in> set xs. is_idle (tasks s i) \<and> startable (tasks s i) \<and>
        (i \<noteq> b \<longrightarrow> state (tasks s i) = Inr Ready) \<and> state (tasks s b) = Inr Running \<and>
        startable (tasks s b) \<and> (is_idle (tasks s b) \<longrightarrow> b = i)) \<and>
     (\<forall>t. on_cpu (tasks s t) \<longleftrightarrow> t \<in> snd ` set xs)"

text \<open>The tasks the scheduler is given at boot, the idle tasks apart.\<close>

definition boot_tasks :: "(tid \<times> tid) list \<Rightarrow> ('q, 'i, 'c) vsched \<Rightarrow> tid set" where
  "boot_tasks xs s = {b \<in> snd ` set xs. \<not> is_idle (tasks s b)}"

lemma boot_cpus_ok:
  assumes "c + length xs \<le> length (percpus s)"
  shows "\<exists>s'. boot_cpus env c xs s = Inr s' \<and> tasks s' = tasks s \<and> sched_info s' = sched_info s \<and>
    length (percpus s') = length (percpus s) \<and> (\<forall>k < c. percpus s' ! k = percpus s ! k) \<and>
    (\<forall>k < length xs. percpus s' ! (c + k) =
       Some (percpu_new (scheduler_new env) (c + k) (fst (xs ! k)) (snd (xs ! k))))"
  using assms
proof (induction xs arbitrary: c s)
  case (Cons x xs)
  obtain idle boot where x: "x = (idle, boot)" by (cases x)
  let ?s = "set_percpu c (percpu_new (scheduler_new env) c idle boot) s"
  have i: "init_vsched env c idle boot s = Inr ?s" using Cons.prems by (simp add: init_vsched_def)
  have len: "length (percpus ?s) = length (percpus s)" "Suc c + length xs \<le> length (percpus ?s)"
    using Cons.prems by (simp_all add: set_percpu_def)
  obtain s' where s': "boot_cpus env (Suc c) xs ?s = Inr s'" "tasks s' = tasks ?s" "sched_info s' = sched_info ?s"
    "length (percpus s') = length (percpus ?s)" "\<forall>k < Suc c. percpus s' ! k = percpus ?s ! k"
    "\<forall>k < length xs. percpus s' ! (Suc c + k) =
       Some (percpu_new (scheduler_new env) (Suc c + k) (fst (xs ! k)) (snd (xs ! k)))"
    using Cons.IH [OF len(2)] by blast
  have "percpus s' ! (c + k) = Some (percpu_new (scheduler_new env) (c + k) (fst ((x # xs) ! k)) (snd ((x # xs) ! k)))"
    if "k < length (x # xs)" for k
  proof (cases k)
    case 0
    have "c < length (percpus s)" using Cons.prems by simp
    then show ?thesis using s'(5) 0 x by (simp add: set_percpu_def)
  next
    case (Suc j)
    then show ?thesis using s'(6) that by simp
  qed
  then show ?case using i s' len x by (intro exI [of _ s']) (simp add: set_percpu_def)
qed simp

context base_scheduler
begin

lemma boot_good:
  assumes boot: "bootable xs s" and q: "qinv (scheduler_new env)" "queued (scheduler_new env) = {#}"
    and i: "\<forall>u. iok (sched_info s u)"
  shows "\<exists>s'. boot_cpus env 0 xs s = Inr s' \<and> good (s', {}) \<and> length (percpus s') = length xs \<and>
    ((\<forall>c < length xs. card (boot_tasks xs s) \<le> bound (scheduler_new env)) \<longrightarrow>
      all_kept (boot_tasks xs s) {} (view_of queued bound s'))"
proof -
  have len: "length (percpus s) = length xs" and d: "distinct (map fst xs)" "distinct (map snd xs)"
    using boot by (simp_all add: bootable_def)
  have all: "\<forall>x \<in> set xs. is_idle (tasks s (fst x)) \<and> startable (tasks s (fst x)) \<and>
      (fst x \<noteq> snd x \<longrightarrow> state (tasks s (fst x)) = Inr Ready) \<and> state (tasks s (snd x)) = Inr Running \<and>
      startable (tasks s (snd x)) \<and> (is_idle (tasks s (snd x)) \<longrightarrow> snd x = fst x)"
    using boot by (simp add: bootable_def case_prod_beta)
  have t: "is_idle (tasks s (fst (xs ! c)))" "startable (tasks s (fst (xs ! c)))"
      "fst (xs ! c) \<noteq> snd (xs ! c) \<Longrightarrow> state (tasks s (fst (xs ! c))) = Inr Ready"
      "state (tasks s (snd (xs ! c))) = Inr Running" "startable (tasks s (snd (xs ! c)))"
      "is_idle (tasks s (snd (xs ! c))) \<Longrightarrow> snd (xs ! c) = fst (xs ! c)" if "c < length xs" for c
    using bspec [OF all nth_mem [OF that]] by blast+
  have oc: "on_cpu (tasks s u) \<longleftrightarrow> (\<exists>c < length xs. snd (xs ! c) = u)" for u
  proof -
    have "on_cpu (tasks s u) \<longleftrightarrow> u \<in> set (map snd xs)" using boot by (simp add: bootable_def)
    then show ?thesis unfolding in_set_conv_nth by auto
  qed
  obtain s' where s': "boot_cpus env 0 xs s = Inr s'" "tasks s' = tasks s" "sched_info s' = sched_info s"
    "length (percpus s') = length xs"
    "\<And>c. c < length xs \<Longrightarrow> percpus s' ! c = Some (percpu_new (scheduler_new env) c (fst (xs ! c)) (snd (xs ! c)))"
    using boot_cpus_ok [of 0 xs s env] len by auto
  have at: "cpu_at s' c = percpu_new (scheduler_new env) c (fst (xs ! c)) (snd (xs ! c))" if "c < length xs" for c
    using s'(5) that by (simp add: cpu_at_def)
  have ok: "vs_ok qinv iok s'" using s' q(1) i by (simp add: vs_ok_def percpu_new_def)
  let ?v = "view_of queued bound s'"
  have sd: "c = d" if "c < length xs" "d < length xs" "snd (xs ! c) = snd (xs ! d)" for c d
    using nth_eq_iff_index_eq [OF d(2), of c d] that by simp
  have fd: "c = d" if "c < length xs" "d < length xs" "fst (xs ! c) = fst (xs ! d)" for c d
    using nth_eq_iff_index_eq [OF d(1), of c d] that by simp
  have sv: "v_cpus ?v = length xs" "\<And>c. c < length xs \<Longrightarrow> v_cur ?v c = snd (xs ! c)"
      "\<And>c. c < length xs \<Longrightarrow> v_idle ?v c = fst (xs ! c)" "\<And>c. c < length xs \<Longrightarrow> v_queue ?v c = {#}"
      "v_state ?v = (\<lambda>u. state (tasks s u))" "v_oncpu ?v = (\<lambda>u. on_cpu (tasks s u))"
      "v_isidle ?v = (\<lambda>u. is_idle (tasks s u))" "v_startable ?v = (\<lambda>u. startable (tasks s u))"
    using at s'(2,4) q(2) by (simp_all add: percpu_new_def view_of_def)
  note view_simps [simp del]
  have inv: "view_inv None {} ?v"
  proof (rule view_invI)
    fix c d assume "c < v_cpus ?v" "d < v_cpus ?v" "v_cur ?v c = v_cur ?v d"
    then show "c = d" using sd by (simp add: sv(1,2))
  next
    fix c d assume "c < v_cpus ?v" "d < v_cpus ?v" "v_idle ?v c = v_idle ?v d"
    then show "c = d" using fd by (simp add: sv(1,3))
  next
    fix c assume "c < v_cpus ?v" "v_cur ?v c \<noteq> v_idle ?v c \<or> None = Some c"
    then show "v_state ?v (v_idle ?v c) = Inr Ready" using t(3) by (auto simp: sv)
  next
    fix u show "v_oncpu ?v u \<longleftrightarrow> (\<exists>c < v_cpus ?v. v_cur ?v c = u \<or> c \<in> {} \<and> v_prev ?v c = Some u)"
      using oc by (auto simp: sv(1,2,6))
  next
    fix c assume "c < v_cpus ?v" "v_isidle ?v (v_cur ?v c)"
    then show "v_cur ?v c = v_idle ?v c" using t(6) by (simp add: sv)
  qed (use t(1,2,4,5) in \<open>simp_all add: sv\<close>)
  have bt: "\<exists>c < length xs. snd (xs ! c) = u" if "u \<in> boot_tasks xs s" for u
  proof -
    have "u \<in> set (map snd xs)" using that by (simp add: boot_tasks_def)
    then show ?thesis unfolding in_set_conv_nth by auto
  qed
  have nr: "state (tasks s u) = Inr Running" if "u \<in> boot_tasks xs s" for u
    using bt [OF that] t(4) by blast
  have cur: "is_idle (tasks s (snd (xs ! c))) \<or> snd (xs ! c) \<in> boot_tasks xs s" if "c < length xs" for c
    using that by (simp add: boot_tasks_def)
  have fin: "finite (boot_tasks xs s)" "\<forall>u \<in> boot_tasks xs s. \<not> is_idle (tasks s u)"
    by (simp_all add: boot_tasks_def)
  have "all_kept (boot_tasks xs s) {} ?v" if "\<forall>c < length xs. card (boot_tasks xs s) \<le> bound (scheduler_new env)"
    unfolding all_kept_def using that at s'(4) fin nr cur by (auto simp: sv view_simps(6) percpu_new_def)
  then show ?thesis using s' ok inv by (intro exI [of _ s']) (simp add: good_def)
qed

end

subsection \<open>No task is lost\<close>

fun spawned_in :: "event list \<Rightarrow> tid set" where
  "spawned_in [] = {}"
| "spawned_in (e # es) = spawned e \<union> spawned_in es"

text \<open>Only tasks that were handed over are woken.\<close>

fun wakes_known :: "tid set \<Rightarrow> event list \<Rightarrow> bool" where
  "wakes_known live [] = True"
| "wakes_known live (e # es) = ((case e of Unblock t r d src \<Rightarrow> t \<in> live | _ \<Rightarrow> True) \<and>
     wakes_known (live \<union> spawned e) es)"

lemma finite_spawned [simp]: "finite (spawned e)" "finite (spawned_in es)"
proof -
  show f: "finite (spawned e)" for e by (cases e) simp_all
  show "finite (spawned_in es)" by (induction es) (simp_all add: f)
qed

lemma a_call_frame:
  assumes "a_call e V W"
  shows "v_bound (fst W) = v_bound (fst V) \<and> v_cpus (fst W) = v_cpus (fst V)"
  using assms by (induction rule: a_call.induct)
    (auto simp: a_put_def a_pick_def a_switch_def a_clear_def a_state_def a_enqueue_def a_dequeue_def Let_def
      split: if_splits)

context base_scheduler
begin

lemma run_kept:
  assumes env: "over ops env"
  shows "good S \<Longrightarrow> allowed queued bound fresh env es S \<Longrightarrow> wakes_known live es \<Longrightarrow>
    all_kept live {} (fst (run_view S)) \<Longrightarrow>
    (\<forall>c < v_cpus (fst (run_view S)). card (live \<union> spawned_in es) \<le> v_bound (fst (run_view S)) c) \<Longrightarrow>
    run_events env es S = Inr S' \<Longrightarrow> all_kept (live \<union> spawned_in es) {} (fst (run_view S'))"
proof (induction es arbitrary: S live)
  case Nil
  then show ?case by simp
next
  case (Cons e es)
  obtain s pend where S: "S = (s, pend)" by (cases S)
  have en: "enabled queued bound fresh e (s, pend)" using Cons.prems(2) unfolding S by simp
  obtain s1 p1 where S1: "perform env e (s, pend) = Inr (s1, p1)" "good (s1, p1)"
    using perform_good [OF env Cons.prems(1) [unfolded S] en] by blast
  have fr: "v_bound (fst (run_view (s1, p1))) = v_bound (fst (run_view S)) \<and>
      v_cpus (fst (run_view (s1, p1))) = v_cpus (fst (run_view S))"
    using perform_call [OF env Cons.prems(1) [unfolded S] en] S1(1) a_call_frame unfolding S by fastforce
  have fin: "finite live" using Cons.prems(4) by (simp add: all_kept_def)
  have "room_for e live s"
    unfolding room_for_def
  proof (intro conjI allI impI)
    fix c assume c: "c < length (percpus s)"
    have "card (live \<union> spawned e) \<le> card (live \<union> spawned_in (e # es))"
      using fin by (intro card_mono) auto
    then show "card (live \<union> spawned e) \<le> bound (scheduler (cpu_at s c))"
      using Cons.prems(5) c unfolding S run_view_def by fastforce
  next
    show "case e of Unblock t r c src \<Rightarrow> state (tasks s t) = Inr Blocked \<longrightarrow> t \<in> live | _ \<Rightarrow> True"
      using Cons.prems(3) by (cases e) auto
  qed
  then have k: "all_kept (live \<union> spawned e) {} (fst (run_view (s1, p1)))"
    using perform_kept [OF env Cons.prems(1) [unfolded S] en _ _ S1(1), of live] Cons.prems(4)
    unfolding S run_view_def by simp
  have "all_kept (live \<union> spawned e \<union> spawned_in es) {} (fst (run_view S'))"
  proof (rule Cons.IH [OF S1(2) _ _ k])
    show "allowed queued bound fresh env es (s1, p1)" using Cons.prems(2) S1(1) unfolding S by simp
    show "wakes_known (live \<union> spawned e) es" using Cons.prems(3) by simp
    show "\<forall>c < v_cpus (fst (run_view (s1, p1))). card (live \<union> spawned e \<union> spawned_in es) \<le>
        v_bound (fst (run_view (s1, p1))) c"
      using Cons.prems(5) fr by (simp add: Un_assoc)
    show "run_events env es (s1, p1) = Inr S'" using Cons.prems(6) S1(1) unfolding S by simp
  qed
  then show ?case by (simp add: Un_assoc)
qed

end

end
