(* ===== verification/Vsched_Props.thy ===== *)
theory Vsched_Props
  imports Vsched_Boot
begin

text \<open>
  The guarantees of the run queues from boot on, over every scheduler that meets the contract, each
  applied to the round-robin scheduler on two CPUs.
\<close>

subsection \<open>A system of two CPUs\<close>

definition demo_env :: "(tid deque, rr_task, nat) platform" where
  "demo_env = \<lparr>sched_ops = rr_ops 5, scheduler_new = dq_new 4, ctx_init = (\<lambda>entry sp c. Suc c),
     call_alloc = (\<lambda>f. \<lparr>stack_ptr = f, stack_size = 4096\<rparr>)\<rparr>"

text \<open>Task 0: the main task of CPU 0; 1: its idle task; 2: the idle task of CPU 1, which boots as it;
  3 and 5: coroutines; 4 a thread.\<close>

definition demo_task :: "tid \<Rightarrow> nat task_inner" where
  "demo_task t = (let i = snd (new_common 0 (of_nat t)) in
     if t = 0 then set_state Running (set_on_cpu True (i\<lparr>init_flag := True\<rparr>))
     else if t = 1 then i\<lparr>idle_flag := True, kstack := Some \<lparr>stack_ptr = 4096, stack_size = 4096\<rparr>\<rparr>
     else if t = 2 then set_state Running (set_on_cpu True (i\<lparr>init_flag := True, idle_flag := True\<rparr>))
     else if t = 4 then i\<lparr>kstack := Some \<lparr>stack_ptr = 8192, stack_size = 4096\<rparr>\<rparr>
     else i\<lparr>alloc_stack := Some 64, coroutine_entry := Some 128\<rparr>)"

definition demo_boot :: "(tid \<times> tid) list" where
  "demo_boot = [(1, 0), (2, 2)]"

definition demo_state :: "(tid deque, rr_task, nat) vsched" where
  "demo_state = \<lparr>percpus = [None, None], tasks = demo_task, sched_info = (\<lambda>_. rr_task_new 5)\<rparr>"

text \<open>Coroutine 3 is spawned, runs, blocks and is woken on the other CPU.\<close>

definition demo_events :: "event list" where
  "demo_events = [Spawn 0 3, Yield 0, Clear 0, Block 0, Clear 0, Unblock 3 False 1 0]"

definition demo_booted :: "(tid deque, rr_task, nat) vsched" where
  "demo_booted = (case boot_cpus demo_env 0 demo_boot demo_state of Inr s \<Rightarrow> s | Inl f \<Rightarrow> demo_state)"

lemma demo_task_state:
  "state (demo_task t) = Inr (if t = 0 \<or> t = 2 then Running else Ready)"
  "on_cpu (demo_task t) \<longleftrightarrow> t = 0 \<or> t = 2" "is_idle (demo_task t) \<longleftrightarrow> t = 1 \<or> t = 2" "startable (demo_task t)"
  by (simp_all add: demo_task_def Let_def new_common_def task_id_new_def set_state_def set_on_cpu_def state_def
      on_cpu_def is_idle_def is_init_def startable_def task_state_from_def)

lemma demo_boot_ok:
  "bootable demo_boot demo_state" "wf_deque (scheduler_new demo_env)" "boot_tasks demo_boot demo_state = {0}"
  "mset (dq_list (scheduler_new demo_env)) = {#}" "\<forall>u. (\<lambda>_. True) (sched_info demo_state u)"
  "over (rr_ops 5) demo_env"
  by (auto simp: bootable_def demo_boot_def demo_state_def demo_task_state demo_env_def wf_dq_new boot_tasks_def
      over_def)

lemma demo_boot_run: "boot_cpus demo_env 0 demo_boot demo_state = Inr demo_booted"
  by (simp add: demo_booted_def demo_boot_def demo_state_def init_vsched_def set_percpu_def)

abbreviation demo_queued :: "tid deque \<Rightarrow> tid multiset" where
  "demo_queued q \<equiv> mset (dq_list q)"

abbreviation demo_bound :: "tid deque \<Rightarrow> nat" where
  "demo_bound q \<equiv> dq_capacity q - 1"

lemma demo_allowed:
  "allowed demo_queued demo_bound (\<lambda>_. True) demo_env demo_events (demo_booted, {})"
  by code_simp

definition demo_final :: "(tid deque, rr_task, nat) vsched" where
  "demo_final = (case run_events demo_env demo_events (demo_booted, {}) of Inr (s, p) \<Rightarrow> s | Inl f \<Rightarrow> demo_booted)"

definition demo_pend :: "cpu set" where
  "demo_pend = (case run_events demo_env demo_events (demo_booted, {}) of Inr (s, p) \<Rightarrow> p | Inl f \<Rightarrow> {})"

lemma demo_run: "run_events demo_env demo_events (demo_booted, {}) = Inr (demo_final, demo_pend)"
proof -
  have "case run_events demo_env demo_events (demo_booted, {}) of Inl f \<Rightarrow> False | Inr S \<Rightarrow> True" by code_simp
  then show ?thesis by (auto simp: demo_final_def demo_pend_def split: sum.splits)
qed

lemma demo_final_ready: "state (tasks demo_final 3) = Inr Ready"
  by code_simp

lemma demo_counts:
  "wakes_known (boot_tasks demo_boot demo_state) demo_events"
  "card (boot_tasks demo_boot demo_state \<union> spawned_in demo_events) \<le> demo_bound (scheduler_new demo_env)"
  "3 \<in> boot_tasks demo_boot demo_state \<union> spawned_in demo_events"
  by (simp_all add: demo_boot_ok(3) demo_events_def demo_env_def)

subsection \<open>The guarantees\<close>

context base_scheduler
begin

lemma boot_run:
  assumes "over ops env" "bootable xs s0" "qinv (scheduler_new env)" "queued (scheduler_new env) = {#}"
    "\<forall>u. iok (sched_info s0 u)" "boot_cpus env 0 xs s0 = Inr s1" "allowed queued bound fresh env es (s1, {})"
  shows "\<exists>s pend. run_events env es (s1, {}) = Inr (s, pend) \<and>
    view_inv None pend (view_of queued bound s) \<and> length (percpus s) = length xs \<and>
    a_run es (view_of queued bound s1, {}) (view_of queued bound s, pend)"
proof -
  have g: "good (s1, {})" "length (percpus s1) = length xs" using boot_good [OF assms(2-5)] assms(6) by auto
  show ?thesis using run_refines [OF assms(1) g(1) assms(7)] g(2) by (auto simp: run_view_def good_def)
qed

lemma boot_run_kept:
  assumes "over ops env" "bootable xs s0" "qinv (scheduler_new env)" "queued (scheduler_new env) = {#}"
    "\<forall>u. iok (sched_info s0 u)" "boot_cpus env 0 xs s0 = Inr s1" "allowed queued bound fresh env es (s1, {})"
    "wakes_known (boot_tasks xs s0) es"
    "card (boot_tasks xs s0 \<union> spawned_in es) \<le> bound (scheduler_new env)"
    "run_events env es (s1, {}) = Inr (s, pend)"
  shows "all_kept (boot_tasks xs s0 \<union> spawned_in es) {} (view_of queued bound s)"
proof -
  have fin: "finite (boot_tasks xs s0)" by (simp add: boot_tasks_def)
  have "card (boot_tasks xs s0) \<le> card (boot_tasks xs s0 \<union> spawned_in es)"
    using fin by (intro card_mono) auto
  then have g: "good (s1, {})" "length (percpus s1) = length xs"
      "all_kept (boot_tasks xs s0) {} (view_of queued bound s1)"
    using boot_good [OF assms(2-5)] assms(6,9) by auto
  have len: "length (percpus s0) = length xs" using assms(2) by (simp add: bootable_def)
  have "bound (scheduler (cpu_at s1 c)) = bound (scheduler_new env)" if "c < length xs" for c
    using boot_cpus_ok [of 0 xs s0 env] len assms(6) that by (auto simp: cpu_at_def percpu_new_def)
  then show ?thesis
    using run_kept [OF assms(1) g(1) assms(7,8) _ _ assms(10)] g(2,3) assms(9) by (simp add: run_view_def)
qed

end

text \<open>C2: From boot on, under every scheduler that meets the contract, every run of allowed calls
  returns without a panic, undefined behaviour or endless wait, and is a run of the abstract
  scheduler: each call acts on the current tasks, the ready queues, the task states and the
  \<^verbatim>\<open>on_cpu\<close> flags exactly as the abstract call of the same name.\<close>

theorem vsched_run_refines:
  assumes "base_scheduler ops queued qinv iok bound fresh" "over ops env" "bootable xs s0"
    "qinv (scheduler_new env)" "queued (scheduler_new env) = {#}" "\<forall>u. iok (sched_info s0 u)"
    "boot_cpus env 0 xs s0 = Inr s1" "allowed queued bound fresh env es (s1, {})"
  shows "\<exists>s pend. run_events env es (s1, {}) = Inr (s, pend) \<and>
    a_run es (view_of queued bound s1, {}) (view_of queued bound s, pend)"
  using base_scheduler.boot_run [OF assms] by blast

theorem vsched_run_refines_witness:
  "\<exists>s pend. run_events demo_env demo_events (demo_booted, {}) = Inr (s, pend) \<and>
    a_run demo_events (view_of demo_queued demo_bound demo_booted, {}) (view_of demo_queued demo_bound s, pend)"
  by (rule vsched_run_refines [OF rr.base_scheduler_axioms demo_boot_ok(6,1,2,4,5) demo_boot_run demo_allowed])

text \<open>C3: In every state reached from boot by allowed calls each task is in at most one place: two CPUs
  never run the same task; the task a CPU runs is \<^verbatim>\<open>Running\<close>, has its \<^verbatim>\<open>on_cpu\<close> flag set and waits in
  no ready queue; a waiting task is \<^verbatim>\<open>Ready\<close>, is no idle task and waits once, in one queue; and
  \<^verbatim>\<open>on_cpu\<close> is set exactly for the tasks that run and those just left by a CPU that has not yet
  cleared their flag.\<close>

theorem vsched_one_place:
  assumes "base_scheduler ops queued qinv iok bound fresh" "over ops env" "bootable xs s0"
    "qinv (scheduler_new env)" "queued (scheduler_new env) = {#}" "\<forall>u. iok (sched_info s0 u)"
    "boot_cpus env 0 xs s0 = Inr s1" "allowed queued bound fresh env es (s1, {})"
    "run_events env es (s1, {}) = Inr (s, pend)" "c < length xs" "d < length xs"
  shows "(current_task (cpu_at s c) = current_task (cpu_at s d) \<longrightarrow> c = d) \<and>
    state (tasks s (current_task (cpu_at s c))) = Inr Running \<and> on_cpu (tasks s (current_task (cpu_at s c))) \<and>
    current_task (cpu_at s c) \<notin># queued (scheduler (cpu_at s d)) \<and>
    (\<forall>t \<in># queued (scheduler (cpu_at s c)). state (tasks s t) = Inr Ready \<and> \<not> is_idle (tasks s t) \<and>
       count (queued (scheduler (cpu_at s c))) t = 1 \<and> (t \<in># queued (scheduler (cpu_at s d)) \<longrightarrow> c = d)) \<and>
    (\<forall>t. on_cpu (tasks s t) \<longleftrightarrow> (\<exists>e < length xs. current_task (cpu_at s e) = t \<or>
       e \<in> pend \<and> prev_task (cpu_at s e) = Some t))"
proof -
  have inv: "view_inv None pend (view_of queued bound s)" and len: "length (percpus s) = length xs"
    using base_scheduler.boot_run [OF assms(1-8)] assms(9) by auto
  note i = cur_distinct [OF inv, of c d] cur_running [OF inv, of c] oncpu_iff [OF inv]
    queued_ready [OF inv] queued_not_idle [OF inv] queue_unique [OF inv, of c d] queue_once [OF inv, of c]
  have run: "state (tasks s (current_task (cpu_at s c))) = Inr Running" using i(2) len assms(10) by simp
  have nq: "current_task (cpu_at s c) \<notin># queued (scheduler (cpu_at s d))"
    using i(4) [of d] run len assms(11) by force
  have "count (queued (scheduler (cpu_at s c))) t = 1" if "t \<in># queued (scheduler (cpu_at s c))" for t
  proof -
    have "0 < count (queued (scheduler (cpu_at s c))) t" using that by (simp only: count_greater_zero_iff)
    moreover have "count (queued (scheduler (cpu_at s c))) t \<le> 1" using i(7) [of t] len assms(10) by simp
    ultimately show ?thesis by linarith
  qed
  then show ?thesis using i(1,3,6) i(4,5) [of c] run nq len assms(10,11) by auto
qed

theorem vsched_one_place_witness:
  "current_task (cpu_at demo_final 0) \<noteq> current_task (cpu_at demo_final 1) \<and>
   state (tasks demo_final (current_task (cpu_at demo_final 0))) = Inr Running \<and>
   on_cpu (tasks demo_final (current_task (cpu_at demo_final 0)))"
proof -
  have "0 < length demo_boot" "1 < length demo_boot" by (simp_all add: demo_boot_def)
  from vsched_one_place [OF rr.base_scheduler_axioms demo_boot_ok(6,1,2,4,5) demo_boot_run demo_allowed demo_run this]
  show ?thesis using zero_neq_one [where 'a = nat] by blast
qed

text \<open>C5: No task is lost: as long as the ready queues are large enough for all tasks handed over since
  boot and only such tasks are woken, after any run of allowed calls every one of them that is
  \<^verbatim>\<open>Ready\<close> waits in a ready queue.\<close>

theorem vsched_no_task_lost:
  assumes "base_scheduler ops queued qinv iok bound fresh" "over ops env" "bootable xs s0"
    "qinv (scheduler_new env)" "queued (scheduler_new env) = {#}" "\<forall>u. iok (sched_info s0 u)"
    "boot_cpus env 0 xs s0 = Inr s1" "allowed queued bound fresh env es (s1, {})"
    "wakes_known (boot_tasks xs s0) es"
    "card (boot_tasks xs s0 \<union> spawned_in es) \<le> bound (scheduler_new env)"
    "run_events env es (s1, {}) = Inr (s, pend)"
    "t \<in> boot_tasks xs s0 \<union> spawned_in es" "state (tasks s t) = Inr Ready"
  shows "\<exists>c < length xs. t \<in># queued (scheduler (cpu_at s c))"
proof -
  have "length (percpus s) = length xs"
    using base_scheduler.boot_run [OF assms(1-8)] assms(11) by auto
  then show ?thesis using base_scheduler.boot_run_kept [OF assms(1-11)] assms(12,13)
    by (auto simp: all_kept_def)
qed

theorem vsched_no_task_lost_witness:
  "\<exists>c < 2. 3 \<in> set (dq_list (scheduler (cpu_at demo_final c)))"
  using vsched_no_task_lost [OF rr.base_scheduler_axioms demo_boot_ok(6,1,2,4,5) demo_boot_run demo_allowed
      demo_counts(1,2) demo_run demo_counts(3) demo_final_ready]
  by (simp add: demo_boot_def numeral_2_eq_2)

end
