(* ===== verification/Vsched_Types.thy ===== *)
theory Vsched_Types
  imports Vsched_Props
begin

text \<open>
  What the types of the run queues promise in every reachable state: each state byte is one of the four
  that \<^verbatim>\<open>From<u8>\<close> accepts, each cell of the vVAR array is initialised, and a task changes its state along
  the life cycle only.
\<close>

fun may_become :: "TaskState \<Rightarrow> TaskState \<Rightarrow> bool" where
  "may_become Running y = True"
| "may_become Ready y = (y = Ready \<or> y = Running)"
| "may_become Blocked y = (y = Blocked \<or> y = Ready)"
| "may_become Exited y = (y = Exited)"

definition decoded :: "view \<Rightarrow> bool" where
  "decoded v \<longleftrightarrow> (\<forall>t. \<exists>x. v_state v t = Inr x)"

lemma decoded_frame:
  "decoded (a_enqueue c t v) = decoded v" "decoded (a_dequeue c q v) = decoded v" "decoded (a_clear c t v) = decoded v"
  "decoded v \<Longrightarrow> decoded (a_state t x v)" "decoded v \<Longrightarrow> decoded (a_switch c t v)" "decoded v \<Longrightarrow> decoded (a_put c v)"
  by (auto simp: decoded_def a_enqueue_def a_dequeue_def a_clear_def a_state_def a_switch_def a_put_def Let_def)

lemma decoded_pick: "a_pick c t v w \<Longrightarrow> decoded v \<Longrightarrow> decoded w"
  by (auto simp: a_pick_def decoded_frame)

lemma decoded_call: "a_call e V W \<Longrightarrow> decoded (fst V) \<Longrightarrow> decoded (fst W)"
  by (induction rule: a_call.induct) (auto simp: decoded_frame dest: decoded_pick)

lemma decoded_run: "a_run es V W \<Longrightarrow> decoded (fst V) \<Longrightarrow> decoded (fst W)"
  by (induction rule: a_run.induct) (auto dest: decoded_call)

text \<open>The task picked was ready, unless the CPU goes on with the one it ran.\<close>

lemma picked_was_ready:
  assumes "view_inv None p v" "c < v_cpus v"
    and "a_pick c t (a_put c v) w \<or> (\<exists>x. a_pick c t (a_state (v_cur v c) x v) w)"
  shows "t \<noteq> v_cur v c \<Longrightarrow> v_state v t = Inr Ready" "u \<noteq> v_cur v c \<Longrightarrow> v_state w u = v_state v u"
proof -
  assume ne: "t \<noteq> v_cur v c"
  have "t = v_idle v c \<or> t \<in># v_queue v c" using assms(3) ne
    by (auto simp: a_pick_def a_put_def a_enqueue_def a_state_def offer_def Let_def split: if_splits)
      (metis (no_types, lifting) add_eq_conv_ex insert_iff set_mset_add_mset_insert union_single_eq_member)+
  then show "v_state v t = Inr Ready"
    using queued_ready [OF assms(1,2)] idle_ready [OF assms(1,2)] ne by auto
next
  assume "u \<noteq> v_cur v c"
  then show "v_state w u = v_state v u"
    using assms(3) by (auto simp: a_pick_def a_put_def a_enqueue_def a_dequeue_def a_state_def Let_def split: if_splits)
qed

lemma switch_life:
  assumes "view_inv None p v" "c < v_cpus v"
    and pick: "a_pick c t (a_put c v) w \<or> (\<exists>x. a_pick c t (a_state (v_cur v c) x v) w)"
    and "v_state v u = Inr x" "v_state (a_switch c t w) u = Inr y"
  shows "may_become x y"
proof -
  have run: "v_state v (v_cur v c) = Inr Running" using cur_running [OF assms(1,2)] by simp
  have w: "v_state (a_switch c t w) u = (if u = t then Inr Running else v_state w u)"
    by (simp add: a_switch_def a_state_def)
  show ?thesis
  proof (cases "u = v_cur v c")
    case True
    then show ?thesis using run assms(4) by simp
  next
    case False
    then show ?thesis
      using picked_was_ready [OF assms(1,2) pick] w assms(4,5) by (cases x) (auto split: if_splits)
  qed
qed

fun event_cpu :: "event \<Rightarrow> cpu" where
  "event_cpu (Spawn c t) = c"
| "event_cpu (Yield c) = c"
| "event_cpu (Preempt c) = c"
| "event_cpu (YieldF c) = c"
| "event_cpu (Block c) = c"
| "event_cpu (Exit c) = c"
| "event_cpu (BlockF c) = c"
| "event_cpu (Unblock t r dst src) = dst"
| "event_cpu (Tick c) = c"
| "event_cpu (SetPrio c pr) = c"
| "event_cpu (Clear c) = c"

lemma call_life:
  assumes "a_call e V W" "view_inv None (snd V) (fst V)" "event_cpu e < v_cpus (fst V)"
    and "v_state (fst V) u = Inr x" "v_state (fst W) u = Inr y"
  shows "may_become x y"
  using assms
proof (induction rule: a_call.induct)
  case (a_spawn c t v p)
  then show ?case by (cases x) (auto simp: a_enqueue_def)
next
  case (a_yield e c t v w p)
  then show ?case using switch_life [of p v c t w u x y] by auto
next
  case (a_block e c t v w p)
  then have "event_cpu e = c" by auto
  then show ?case using a_block switch_life [of p v c t w u x y] by (simp only: fst_conv snd_conv) blast
next
  case (a_exit c t v w p)
  then show ?case using switch_life [of p v c t w u x y] by (simp only: fst_conv snd_conv event_cpu.simps) blast
next
  case (a_wake v t r d src p)
  then show ?case by (cases x) (auto simp: a_enqueue_def a_state_def split: if_splits)
next
  case (a_clear v c t p)
  then show ?case by (cases x) (auto simp: a_clear_def)
qed (cases x; auto)+

lemma enabled_cpu: "enabled queued bound fresh e (s, pend) \<Longrightarrow> event_cpu e < length (percpus s)"
  by (cases e) auto

lemma boot_decoded:
  assumes "boot_cpus env 0 xs s0 = Inr s1" "bootable xs s0" "\<forall>u. \<exists>x. state (tasks s0 u) = Inr x"
  shows "decoded (view_of queued bound s1)"
  using boot_cpus_ok [of 0 xs s0 env] assms by (auto simp: decoded_def bootable_def)

context base_scheduler
begin

lemma step_typed:
  assumes "over ops env" "bootable xs s0" "qinv (scheduler_new env)" "queued (scheduler_new env) = {#}"
    "\<forall>u. iok (sched_info s0 u)" "boot_cpus env 0 xs s0 = Inr s1" "allowed queued bound fresh env es (s1, {})"
    "\<forall>u. \<exists>x. state (tasks s0 u) = Inr x" "run_events env es (s1, {}) = Inr (s, pend)"
    "enabled queued bound fresh e (s, pend)"
  shows "\<exists>s' pend'. perform env e (s, pend) = Inr (s', pend') \<and> good (s', pend') \<and>
    length (percpus s') = length xs \<and>
    (\<forall>t. \<exists>x y. state (tasks s t) = Inr x \<and> state (tasks s' t) = Inr y \<and> may_become x y)"
proof -
  have g1: "good (s1, {})" "length (percpus s1) = length xs" using boot_good [OF assms(2-5)] assms(6) by auto
  have r: "good (s, pend)" "length (percpus s) = length xs" "a_run es (run_view (s1, {})) (run_view (s, pend))"
    using run_refines [OF assms(1) g1(1) assms(7)] assms(9) g1(2) by auto
  obtain S' where S': "perform env e (s, pend) = Inr S'" "a_call e (run_view (s, pend)) (run_view S')"
    using perform_call [OF assms(1) r(1) assms(10)] by blast
  have g': "good S'" "length (percpus (fst S')) = length xs"
    using perform_good [OF assms(1) r(1) assms(10)] S'(1) r(2) by auto
  have inv: "view_inv None pend (view_of queued bound s)" using r(1) by (simp add: good_def)
  have d: "decoded (view_of queued bound s)"
    using decoded_run [OF r(3)] boot_decoded [OF assms(6,2,8)] by (simp add: run_view_def)
  then have d': "decoded (view_of queued bound (fst S'))"
    using decoded_call [OF S'(2)] by (simp add: run_view_def)
  have "may_become x y" if "state (tasks s t) = Inr x" "state (tasks (fst S') t) = Inr y" for t x y
    using call_life [OF S'(2), of t x y] inv enabled_cpu [OF assms(10)] that by (simp add: run_view_def)
  then have "\<exists>x y. state (tasks s t) = Inr x \<and> state (tasks (fst S') t) = Inr y \<and> may_become x y" for t
    using d d' unfolding decoded_def by (metis view_simps(7))
  then show ?thesis using S'(1) g' by (cases S') auto
qed

end

text \<open>C6: in every state that allowed calls reach from boot, a further allowed call finds all data of its
  type: the state byte of every task decodes (so \<^verbatim>\<open>state()\<close> never hits \<^verbatim>\<open>unreachable!()\<close>) before and after
  it, every cell of the vVAR array is initialised, and every task keeps its state or goes from Running to
  Ready, Blocked or Exited, from Ready to Running, or from Blocked to Ready. So an exited task never runs
  again.\<close>

theorem vsched_states_typed:
  assumes "base_scheduler ops queued qinv iok bound fresh" "over ops env" "bootable xs s0"
    "qinv (scheduler_new env)" "queued (scheduler_new env) = {#}" "\<forall>u. iok (sched_info s0 u)"
    "boot_cpus env 0 xs s0 = Inr s1" "allowed queued bound fresh env es (s1, {})"
    "\<forall>u. \<exists>x. state (tasks s0 u) = Inr x" "run_events env es (s1, {}) = Inr (s, pend)"
    "enabled queued bound fresh e (s, pend)"
  shows "\<exists>s' pend'. perform env e (s, pend) = Inr (s', pend') \<and>
    (\<forall>t. \<exists>x y. state (tasks s t) = Inr x \<and> state (tasks s' t) = Inr y \<and> may_become x y) \<and>
    (\<forall>c < length xs. get_run_queue c s' = Inr (cpu_at s' c))"
proof -
  obtain s' pend' where r: "perform env e (s, pend) = Inr (s', pend')"
    "base_scheduler.good queued qinv iok bound (s', pend')" "length (percpus s') = length xs"
    "\<forall>t. \<exists>x y. state (tasks s t) = Inr x \<and> state (tasks s' t) = Inr y \<and> may_become x y"
    using base_scheduler.step_typed [OF assms] by blast
  have "vs_ok qinv iok s'" using r(2) unfolding base_scheduler.good_def [OF assms(1)] by simp
  then have "get_run_queue c s' = Inr (cpu_at s' c)" if "c < length xs" for c
    using vs_okD(1) [of qinv iok s' c] r(3) that by simp
  then show ?thesis using r(1,4) by blast
qed

lemma demo_next_enabled: "enabled demo_queued demo_bound (\<lambda>_. True) (Yield 1) (demo_final, demo_pend)"
  by code_simp

lemma demo_decoded: "\<forall>u. \<exists>x. state (tasks demo_state u) = Inr x"
  by (simp add: demo_state_def demo_task_state)

theorem vsched_states_typed_witness:
  "\<exists>s' pend' y. perform demo_env (Yield 1) (demo_final, demo_pend) = Inr (s', pend') \<and>
    state (tasks s' 3) = Inr y \<and> may_become Ready y \<and> get_run_queue 0 s' = Inr (cpu_at s' 0)"
proof -
  have "0 < length demo_boot" by (simp add: demo_boot_def)
  then show ?thesis
    using vsched_states_typed [OF rr.base_scheduler_axioms demo_boot_ok(6,1,2,4,5) demo_boot_run demo_allowed
      demo_decoded demo_run demo_next_enabled] demo_final_ready by (metis sum.inject(2))
qed

end
