(* ===== verification/Task_Ext.thy ===== *)
theory Task_Ext
  imports Vsched
begin

text \<open>
  The state that \<^verbatim>\<open>task_management\<close> adds to the run queues: the extended task data of
  \<^verbatim>\<open>task_inner_ext.rs\<close>, the wait queues, the per-CPU pools of coroutine stacks of \<^verbatim>\<open>task.rs\<close>; the
  creation of tasks and the choice of a CPU for a task.

  Closures and futures are values of type \<open>'f\<close>; CPU masks (crate \<^verbatim>\<open>cpumask\<close>) are values of type \<open>'m\<close>,
  read through the functions passed as arguments.
\<close>

subsection \<open>Extended tasks\<close>

type_synonym i32 = "32 word"

record ('f, 'm) task_inner_ext =
  ext_name :: string
  ext_exit_code :: i32
  ext_entry :: "'f option"
  ext_cpumask :: 'm
  ext_future :: "'f option"

text \<open>Every task owns the queue of the tasks that wait for its exit; other wait queues have a number.\<close>

datatype wq = ExitOf tid | WaitQueue nat

text \<open>\<open>released\<close>: the tasks whose reference held by the scheduler was given back, latest first.\<close>

record ('q, 'i, 'c, 'f, 'm) tm =
  vs :: "('q, 'i, 'c) vsched"
  exts :: "tid \<Rightarrow> ('f, 'm) task_inner_ext"
  queues :: "wq \<Rightarrow> tid list"
  waker_queues :: "nat \<Rightarrow> tid list"
  stack_pool :: "cpu \<Rightarrow> task_stack list"
  released :: "tid list"
  id_counter :: u64
  rq_index :: usize

definition ext_new_common :: "'m \<Rightarrow> string \<Rightarrow> ('f, 'm) task_inner_ext" where
  "ext_new_common full name = \<lparr>ext_name = name, ext_exit_code = 0, ext_entry = None, ext_cpumask = full,
     ext_future = None\<rparr>"

definition put_ext :: "tid \<Rightarrow> ('f, 'm) task_inner_ext \<Rightarrow> ('q, 'i, 'c, 'f, 'm) tm \<Rightarrow> ('q, 'i, 'c, 'f, 'm) tm" where
  "put_ext t e s = s\<lparr>exts := (exts s)(t := e)\<rparr>"

definition on_vs :: "(('q, 'i, 'c) vsched \<Rightarrow> ('q, 'i, 'c) vsched) \<Rightarrow> ('q, 'i, 'c, 'f, 'm) tm \<Rightarrow>
    ('q, 'i, 'c, 'f, 'm) tm" where
  "on_vs f s = s\<lparr>vs := f (vs s)\<rparr>"

definition put_queue :: "wq \<Rightarrow> tid list \<Rightarrow> ('q, 'i, 'c, 'f, 'm) tm \<Rightarrow> ('q, 'i, 'c, 'f, 'm) tm" where
  "put_queue w ts s = s\<lparr>queues := (queues s)(w := ts)\<rparr>"

definition exit_code :: "tid \<Rightarrow> ('q, 'i, 'c, 'f, 'm) tm \<Rightarrow> i32" where
  "exit_code t s = ext_exit_code (exts s t)"

definition set_exit_code :: "tid \<Rightarrow> i32 \<Rightarrow> ('q, 'i, 'c, 'f, 'm) tm \<Rightarrow> ('q, 'i, 'c, 'f, 'm) tm" where
  "set_exit_code t x s = put_ext t ((exts s t)\<lparr>ext_exit_code := x\<rparr>) s"

definition set_cpumask :: "tid \<Rightarrow> 'm \<Rightarrow> ('q, 'i, 'c, 'f, 'm) tm \<Rightarrow> ('q, 'i, 'c, 'f, 'm) tm" where
  "set_cpumask t m s = put_ext t ((exts s t)\<lparr>ext_cpumask := m\<rparr>) s"

subsection \<open>Creating tasks\<close>

text \<open>
  \<open>t\<close>: where the new task is stored (the address of its \<^verbatim>\<open>Arc\<close>); \<open>i0\<close>: the initial scheduling fields
  (\<^verbatim>\<open>AxTask::new\<close>); \<open>c0\<close>: a new context. The other arguments are the addresses of \<^verbatim>\<open>task_entry\<close>,
  \<^verbatim>\<open>alloc_stack_for_coroutine\<close> and \<^verbatim>\<open>coroutine_schedule\<close>, the context initialisation, \<^verbatim>\<open>align_up_4k\<close>
  and the allocator.
\<close>

definition store_task :: "tid \<Rightarrow> 'i \<Rightarrow> 'c task_inner \<Rightarrow> ('f, 'm) task_inner_ext \<Rightarrow> u64 \<Rightarrow>
    ('q, 'i, 'c, 'f, 'm) tm \<Rightarrow> ('q, 'i, 'c, 'f, 'm) tm" where
  "store_task t i0 ti e counter s =
     put_queue (ExitOf t) [] (put_ext t e
       (on_vs (\<lambda>v. (on_task t (\<lambda>_. ti) v)\<lparr>sched_info := (sched_info v)(t := i0)\<rparr>) s))\<lparr>id_counter := counter\<rparr>"

definition tm_new_init :: "'m \<Rightarrow> 'c \<Rightarrow> 'i \<Rightarrow> tid \<Rightarrow> string \<Rightarrow> ('q, 'i, 'c, 'f, 'm) tm \<Rightarrow>
    ('q, 'i, 'c, 'f, 'm) tm" where
  "tm_new_init full c0 i0 t name s =
     (let (counter, ti) = new_init c0 (name = ''idle'') (id_counter s)
      in store_task t i0 (set_state Running ti) (ext_new_common full name) counter s)"

definition tm_new :: "'m \<Rightarrow> (usize \<Rightarrow> usize \<Rightarrow> 'c \<Rightarrow> 'c) \<Rightarrow> (usize \<Rightarrow> usize) \<Rightarrow> (usize \<Rightarrow> usize) \<Rightarrow> 'c \<Rightarrow> 'i \<Rightarrow>
    usize \<Rightarrow> tid \<Rightarrow> 'f \<Rightarrow> string \<Rightarrow> usize \<Rightarrow> ('q, 'i, 'c, 'f, 'm) tm \<Rightarrow> ('q, 'i, 'c, 'f, 'm) tm outcome" where
  "tm_new full init align malloc c0 i0 task_entry t entry name stack s =
     bind_outcome (task_new init align malloc c0 task_entry (name = ''idle'') stack (id_counter s)) (\<lambda>(counter, ti).
       Inr (store_task t i0 ti ((ext_new_common full name)\<lparr>ext_entry := Some entry\<rparr>) counter s))"

text \<open>\<open>fut_exit\<close> wraps the future so that it ends in \<^verbatim>\<open>exit_f(0)\<close>.\<close>

definition tm_new_f :: "'m \<Rightarrow> 'c \<Rightarrow> 'i \<Rightarrow> usize \<Rightarrow> usize \<Rightarrow> ('f \<Rightarrow> 'f) \<Rightarrow> tid \<Rightarrow> 'f \<Rightarrow> string \<Rightarrow>
    ('q, 'i, 'c, 'f, 'm) tm \<Rightarrow> ('q, 'i, 'c, 'f, 'm) tm" where
  "tm_new_f full c0 i0 alloc_fn schedule_fn fut_exit t fut name s =
     (let (counter, ti) = new_common c0 (id_counter s);
          ti = set_coroutine_schedule schedule_fn (set_alloc_stack_fn alloc_fn ti)
      in store_task t i0 ti ((ext_new_common full name)\<lparr>ext_future := Some (fut_exit fut)\<rparr>) counter s)"

subsection \<open>Choosing a CPU\<close>

text \<open>\<^verbatim>\<open>select_run_queue_index\<close>: \<open>mget m i\<close> and \<open>mempty m\<close> read the mask; the result carries the counter
  \<^verbatim>\<open>RUN_QUEUE_INDEX\<close>. The loop may not end when no CPU is in the mask.\<close>

partial_function (option) select_loop :: "(nat \<Rightarrow> bool) \<Rightarrow> nat \<Rightarrow> usize \<Rightarrow> (usize \<times> nat) option" where
  "select_loop avail smp counter =
     (let i = unat counter mod smp in
      if avail i then Some (counter + 1, i) else select_loop avail smp (counter + 1))"

definition select_run_queue_index :: "('m \<Rightarrow> nat \<Rightarrow> bool) \<Rightarrow> ('m \<Rightarrow> bool) \<Rightarrow> nat \<Rightarrow> tid \<Rightarrow>
    ('q, 'i, 'c, 'f, 'm) tm \<Rightarrow> (('q, 'i, 'c, 'f, 'm) tm \<times> nat) outcome" where
  "select_run_queue_index mget mempty smp t s =
     (let m = ext_cpumask (exts s t) in
      if mempty m then Inl Panic
      else if smp = 0 then Inl Panic
      else case select_loop (mget m) smp (rq_index s) of
        None \<Rightarrow> Inl Spin
      | Some (counter, i) \<Rightarrow> Inr (s\<lparr>rq_index := counter\<rparr>, i))"

text \<open>Every CPU number is reached from every value of the counter, also across its wrap-around.\<close>

lemma select_loop_some:
  assumes "avail (unat (c + of_nat n) mod smp)"
  shows "\<exists>c' i. select_loop avail smp c = Some (c', i) \<and> avail i \<and> (0 < smp \<longrightarrow> i < smp)"
  using assms
proof (induction n arbitrary: c)
  case 0
  then show ?case by (subst select_loop.simps) (auto simp: Let_def)
next
  case (Suc n)
  show ?case
  proof (cases "avail (unat c mod smp)")
    case True
    then show ?thesis by (subst select_loop.simps) (auto simp: Let_def)
  next
    case False
    have "c + of_nat (Suc n) = (c + 1) + of_nat n" by simp
    then have "\<exists>c' i. select_loop avail smp (c + 1) = Some (c', i) \<and> avail i \<and> (0 < smp \<longrightarrow> i < smp)"
      using Suc.IH [of "c + 1"] Suc.prems by (metis (no_types))
    then show ?thesis using False by (subst select_loop.simps) (simp add: Let_def)
  qed
qed

lemma residue_reached:
  fixes c :: usize
  assumes "i < smp" "smp \<le> 2 ^ 63"
  shows "\<exists>n. unat (c + of_nat n) mod smp = i"
proof -
  let ?n = "unat (of_nat i - c)"
  have "c + of_nat ?n = of_nat i" by simp
  moreover have "unat (of_nat i :: usize) = i"
    using assms by (simp add: unsigned_of_nat take_bit_nat_eq_self)
  ultimately have "unat (c + of_nat ?n) mod smp = i" using assms(1) by (simp only: mod_less)
  then show ?thesis by blast
qed

text \<open>C35: \<^verbatim>\<open>select_run_queue_index\<close> panics exactly on an empty mask; on any other mask its loop ends, for
  every value of the shared counter and across its wrap-around, and returns a CPU of the mask below
  \<^verbatim>\<open>SMP\<close>; only the counter changes.\<close>

theorem select_run_queue_index_returns:
  assumes "0 < smp" "smp \<le> 2 ^ 63"
    "\<forall>m. mempty m \<longleftrightarrow> (\<forall>i < smp. \<not> mget m i)"
  shows "if mempty (ext_cpumask (exts s t)) then select_run_queue_index mget mempty smp t s = Inl Panic
    else \<exists>i c. select_run_queue_index mget mempty smp t s = Inr (s\<lparr>rq_index := c\<rparr>, i) \<and> i < smp \<and>
      mget (ext_cpumask (exts s t)) i"
proof (cases "mempty (ext_cpumask (exts s t))")
  case False
  then obtain i where i: "i < smp" "mget (ext_cpumask (exts s t)) i" using assms(3) by blast
  obtain n where "unat (rq_index s + of_nat n) mod smp = i" using residue_reached [OF i(1) assms(2)] by blast
  then obtain c' j where "select_loop (mget (ext_cpumask (exts s t))) smp (rq_index s) = Some (c', j)"
    "mget (ext_cpumask (exts s t)) j" "j < smp"
    using select_loop_some [of "mget (ext_cpumask (exts s t))" "rq_index s" n smp] i(2) assms(1) by auto
  then show ?thesis using False assms(1) by (auto simp: select_run_queue_index_def)
qed (simp add: select_run_queue_index_def)

definition select_demo :: "(unit, unit, unit, unit, nat set) tm" where
  "select_demo = \<lparr>vs = \<lparr>percpus = [], tasks = (\<lambda>_. snd (new_common () 1)), sched_info = (\<lambda>_. ())\<rparr>,
     exts = (\<lambda>t. ext_new_common {2} ''worker''), queues = (\<lambda>_. []), waker_queues = (\<lambda>_. []),
     stack_pool = (\<lambda>_. []), released = [], id_counter = 1, rq_index = - 1\<rparr>"

theorem select_run_queue_index_returns_witness:
  "\<exists>c. select_run_queue_index (\<lambda>m i. i \<in> m) (\<lambda>m. \<forall>i < 4. i \<notin> m) 4 7 select_demo =
    Inr (select_demo\<lparr>rq_index := c\<rparr>, 2)"
proof -
  have m: "ext_cpumask (exts select_demo 7) = {2}" by (simp add: select_demo_def ext_new_common_def)
  have e: "(\<forall>i < 4. i \<notin> {2 :: nat}) \<longleftrightarrow> False" by auto
  show ?thesis
    using select_run_queue_index_returns [of 4 "\<lambda>m. \<forall>i < 4. i \<notin> m" "\<lambda>m i. i \<in> m" select_demo 7]
    unfolding m e if_False by auto
qed

end
