(* ===== verification/Task_Mgmt.thy ===== *)
theory Task_Mgmt
  imports Task_Ext
begin

text \<open>
  The operations of \<^verbatim>\<open>task_management\<close> on threads: \<^verbatim>\<open>sched.rs\<close>, \<^verbatim>\<open>wait_queue.rs\<close>, \<^verbatim>\<open>task_inner_ext.rs\<close>
  and the entry of a thread in \<^verbatim>\<open>task.rs\<close>, as seen by one CPU \<open>c\<close> (\<^verbatim>\<open>get_cpu_id()\<close>).

  A context switch continues with the resume point of the next task, and every resume point starts
  with the same lines, \<open>finish_switch\<close>: after a reschedule the CPU runs \<open>finish_switch\<close>, whichever
  task it now runs. What the blocked task itself does after its own resume point is a separate
  operation (\<open>wait_resume\<close>). The lock of a wait queue is held within one operation only.
\<close>

subsection \<open>Resume points, booting and yielding\<close>

definition finish_switch :: "cpu \<Rightarrow> ('q, 'i, 'c, 'f, 'm) tm \<Rightarrow> ('q, 'i, 'c, 'f, 'm) tm outcome" where
  "finish_switch c s =
     bind_outcome (take_prev_task_and_clear_on_cpu c (vs s)) (\<lambda>(v, p).
     bind_outcome (state (tasks v p)) (\<lambda>st.
       Inr (s\<lparr>vs := v, released := if st = Exited then p # released s else released s\<rparr>)))"

text \<open>\<open>one c\<close> is the mask of the single CPU \<open>c\<close>; \<open>run_idle\<close> the idle loop as a closure.\<close>

definition tm_init_vsched :: "('q, 'i, 'c) platform \<Rightarrow> 'm \<Rightarrow> (cpu \<Rightarrow> 'm) \<Rightarrow> (usize \<Rightarrow> usize) \<Rightarrow> (usize \<Rightarrow> usize) \<Rightarrow>
    'c \<Rightarrow> 'i \<Rightarrow> usize \<Rightarrow> 'f \<Rightarrow> usize \<Rightarrow> tid \<Rightarrow> tid \<Rightarrow> cpu \<Rightarrow> ('q, 'i, 'c, 'f, 'm) tm \<Rightarrow>
    ('q, 'i, 'c, 'f, 'm) tm outcome" where
  "tm_init_vsched env full one align malloc c0 i0 entry idle_loop stack main idle c s =
     (let s1 = set_cpumask main (one c) (tm_new_init full c0 i0 main ''main'' s) in
      bind_outcome (tm_new full (ctx_init env) align malloc c0 i0 entry idle idle_loop ''idle'' stack s1) (\<lambda>s2.
      let s3 = set_cpumask idle (one c) s2 in
      bind_outcome (init_vsched env c idle main (vs s3)) (\<lambda>v. Inr (s3\<lparr>vs := v\<rparr>))))"

definition tm_init_vsched_secondary :: "('q, 'i, 'c) platform \<Rightarrow> 'm \<Rightarrow> (cpu \<Rightarrow> 'm) \<Rightarrow> 'c \<Rightarrow> 'i \<Rightarrow> tid \<Rightarrow> cpu \<Rightarrow>
    ('q, 'i, 'c, 'f, 'm) tm \<Rightarrow> ('q, 'i, 'c, 'f, 'm) tm outcome" where
  "tm_init_vsched_secondary env full one c0 i0 idle c s =
     (let s1 = set_cpumask idle (one c) (tm_new_init full c0 i0 idle ''idle'' s) in
      bind_outcome (init_vsched env c idle idle (vs s1)) (\<lambda>v. Inr (s1\<lparr>vs := v\<rparr>)))"

definition tm_spawn :: "('q, 'i, 'c) platform \<Rightarrow> cpu \<Rightarrow> tid \<Rightarrow> ('q, 'i, 'c, 'f, 'm) tm \<Rightarrow>
    ('q, 'i, 'c, 'f, 'm) tm outcome" where
  "tm_spawn env c t s = bind_outcome (spawn env c t (vs s)) (\<lambda>v. Inr (s\<lparr>vs := v\<rparr>))"

definition tm_yield_now :: "('q, 'i, 'c) platform \<Rightarrow> cpu \<Rightarrow> ('q, 'i, 'c, 'f, 'm) tm \<Rightarrow>
    ('q, 'i, 'c, 'f, 'm) tm outcome" where
  "tm_yield_now env c s = bind_outcome (yield_now env c (vs s)) (\<lambda>(v, sw). finish_switch c (s\<lparr>vs := v\<rparr>))"

text \<open>\<open>n\<close> rounds of the idle loop.\<close>

fun run_idle :: "('q, 'i, 'c) platform \<Rightarrow> cpu \<Rightarrow> nat \<Rightarrow> ('q, 'i, 'c, 'f, 'm) tm \<Rightarrow>
    ('q, 'i, 'c, 'f, 'm) tm outcome" where
  "run_idle env c 0 s = Inr s"
| "run_idle env c (Suc n) s = bind_outcome (tm_yield_now env c s) (run_idle env c n)"

subsection \<open>Wait queues: waking\<close>

definition unblock_one_task :: "('q, 'i, 'c) platform \<Rightarrow> cpu \<Rightarrow> tid \<Rightarrow> bool \<Rightarrow> ('q, 'i, 'c, 'f, 'm) tm \<Rightarrow>
    ('q, 'i, 'c, 'f, 'm) tm outcome" where
  "unblock_one_task env c t r s =
     (let s1 = on_vs (on_task t (set_in_wait_queue False)) s in
      bind_outcome (unblock_task env t r c c (vs s1)) (\<lambda>v. Inr (s1\<lparr>vs := v\<rparr>)))"

definition notify_one :: "('q, 'i, 'c) platform \<Rightarrow> cpu \<Rightarrow> wq \<Rightarrow> bool \<Rightarrow> ('q, 'i, 'c, 'f, 'm) tm \<Rightarrow>
    (('q, 'i, 'c, 'f, 'm) tm \<times> bool) outcome" where
  "notify_one env c w r s =
     (case queues s w of
        [] \<Rightarrow> Inr (s, False)
      | t # ts \<Rightarrow> bind_outcome (unblock_one_task env c t r (put_queue w ts s)) (\<lambda>s'. Inr (s', True)))"

lemma put_queue_simps [simp]:
  "vs (put_queue w ts s) = vs s" "queues (put_queue w ts s) = (queues s)(w := ts)" "exts (put_queue w ts s) = exts s"
  "released (put_queue w ts s) = released s" "stack_pool (put_queue w ts s) = stack_pool s"
  "waker_queues (put_queue w ts s) = waker_queues s"
  by (simp_all add: put_queue_def)

lemma on_vs_simps [simp]:
  "vs (on_vs f s) = f (vs s)" "queues (on_vs f s) = queues s" "exts (on_vs f s) = exts s"
  "released (on_vs f s) = released s" "stack_pool (on_vs f s) = stack_pool s"
  "waker_queues (on_vs f s) = waker_queues s"
  by (simp_all add: on_vs_def)

lemma unblock_one_queues: "unblock_one_task env c t r s = Inr s' \<Longrightarrow> queues s' = queues s"
  by (auto simp: unblock_one_task_def Let_def bind_outcome_eq_Inr)

lemma notify_one_shrinks:
  "notify_one env c w r s = Inr (s', True) \<Longrightarrow> length (queues s' w) < length (queues s w)"
  by (auto simp: notify_one_def bind_outcome_eq_Inr split: list.splits dest!: unblock_one_queues)

function notify_all :: "('q, 'i, 'c) platform \<Rightarrow> cpu \<Rightarrow> wq \<Rightarrow> bool \<Rightarrow> ('q, 'i, 'c, 'f, 'm) tm \<Rightarrow>
    ('q, 'i, 'c, 'f, 'm) tm outcome" where
  "notify_all env c w r s =
     (case notify_one env c w r s of
        Inl x \<Rightarrow> Inl x
      | Inr (s', b) \<Rightarrow> if b then notify_all env c w r s' else Inr s')"
  by pat_completeness auto
termination by (relation "measure (\<lambda>(env, c, w, r, s). length (queues s w))") (auto dest: notify_one_shrinks)

declare notify_all.simps [simp del]

definition notify_task :: "('q, 'i, 'c) platform \<Rightarrow> cpu \<Rightarrow> wq \<Rightarrow> bool \<Rightarrow> tid \<Rightarrow> ('q, 'i, 'c, 'f, 'm) tm \<Rightarrow>
    (('q, 'i, 'c, 'f, 'm) tm \<times> bool) outcome" where
  "notify_task env c w r t s =
     (if t \<in> set (queues s w)
      then bind_outcome (unblock_one_task env c t r (put_queue w (remove1 t (queues s w)) s)) (\<lambda>s'. Inr (s', True))
      else Inr (s, False))"

definition requeue :: "nat \<Rightarrow> wq \<Rightarrow> wq \<Rightarrow> ('q, 'i, 'c, 'f, 'm) tm \<Rightarrow> ('q, 'i, 'c, 'f, 'm) tm \<times> nat" where
  "requeue n w target s =
     (let k = min n (length (queues s w));
          ts = take k (queues s w);
          s1 = put_queue w (drop k (queues s w)) s
      in (if ts = [] then s1 else put_queue target (queues s1 target @ ts) s1, k))"

definition wq_len :: "wq \<Rightarrow> ('q, 'i, 'c, 'f, 'm) tm \<Rightarrow> nat" where
  "wq_len w s = length (queues s w)"

definition wq_is_empty :: "wq \<Rightarrow> ('q, 'i, 'c, 'f, 'm) tm \<Rightarrow> bool" where
  "wq_is_empty w s \<longleftrightarrow> queues s w = []"

subsection \<open>Wait queues: blocking\<close>

text \<open>\<open>irq\<close>: the build feature of that name.\<close>

definition cancel_events :: "bool \<Rightarrow> wq \<Rightarrow> tid \<Rightarrow> bool \<Rightarrow> ('q, 'i, 'c, 'f, 'm) tm \<Rightarrow> ('q, 'i, 'c, 'f, 'm) tm" where
  "cancel_events irq w me from_timer_list s =
     (let s1 = if in_wait_queue (tasks (vs s) me)
        then on_vs (on_task me (set_in_wait_queue False)) (put_queue w (filter (\<lambda>t. me \<noteq> t) (queues s w)) s)
        else s
      in if irq \<and> from_timer_list then on_vs (on_task me timer_ticket_expired) s1 else s1)"

text \<open>Marking the task blocked and queueing it, under the lock of the queue.\<close>

definition park :: "wq \<Rightarrow> tid \<Rightarrow> ('q, 'i, 'c, 'f, 'm) tm \<Rightarrow> ('q, 'i, 'c, 'f, 'm) tm" where
  "park w t s = put_queue w (queues s w @ [t])
     (on_vs (on_task t (\<lambda>i. set_in_wait_queue True (set_state Blocked i))) s)"

definition blocked_resched :: "('q, 'i, 'c) platform \<Rightarrow> cpu \<Rightarrow> wq \<Rightarrow> ('q, 'i, 'c, 'f, 'm) tm \<Rightarrow>
    ('q, 'i, 'c, 'f, 'm) tm outcome" where
  "blocked_resched env c w s =
     bind_outcome (current c (vs s)) (\<lambda>t.
     bind_outcome (is_running (tasks (vs s) t)) (\<lambda>r.
     bind_outcome (assert_outcome r) (\<lambda>_.
     bind_outcome (assert_outcome (\<not> is_idle (tasks (vs s) t))) (\<lambda>_.
     let s1 = park w t s in
     bind_outcome (resched env c (vs s1)) (\<lambda>(v, sw). finish_switch c (s1\<lparr>vs := v\<rparr>))))))"

text \<open>\<^verbatim>\<open>wait\<close>: up to the switch, with the task that waits; and once that task runs again.\<close>

definition wait_enter :: "('q, 'i, 'c) platform \<Rightarrow> cpu \<Rightarrow> wq \<Rightarrow> ('q, 'i, 'c, 'f, 'm) tm \<Rightarrow>
    (('q, 'i, 'c, 'f, 'm) tm \<times> tid) outcome" where
  "wait_enter env c w s =
     bind_outcome (current c (vs s)) (\<lambda>t. bind_outcome (blocked_resched env c w s) (\<lambda>s'. Inr (s', t)))"

definition wait_resume :: "bool \<Rightarrow> wq \<Rightarrow> tid \<Rightarrow> ('q, 'i, 'c, 'f, 'm) tm \<Rightarrow> ('q, 'i, 'c, 'f, 'm) tm" where
  "wait_resume irq w me s = cancel_events irq w me False s"

text \<open>One pass of the loop of \<^verbatim>\<open>wait_until\<close> of task \<open>me\<close>; \<open>True\<close>: the wait is over.\<close>

definition wait_until_pass :: "bool \<Rightarrow> ('q, 'i, 'c) platform \<Rightarrow> cpu \<Rightarrow> wq \<Rightarrow> (('q, 'i, 'c, 'f, 'm) tm \<Rightarrow> bool outcome) \<Rightarrow>
    tid \<Rightarrow> ('q, 'i, 'c, 'f, 'm) tm \<Rightarrow> (('q, 'i, 'c, 'f, 'm) tm \<times> bool) outcome" where
  "wait_until_pass irq env c w condition me s =
     bind_outcome (condition s) (\<lambda>b.
       if b then Inr (cancel_events irq w me False s, True)
       else bind_outcome (blocked_resched env c w s) (\<lambda>s'. Inr (s', False)))"

subsection \<open>Exit and join\<close>

definition notify_exit :: "('q, 'i, 'c) platform \<Rightarrow> cpu \<Rightarrow> tid \<Rightarrow> i32 \<Rightarrow> ('q, 'i, 'c, 'f, 'm) tm \<Rightarrow>
    ('q, 'i, 'c, 'f, 'm) tm outcome" where
  "notify_exit env c t x s = notify_all env c (ExitOf t) False (set_exit_code t x s)"

text \<open>\<open>MainExit\<close>: the main task ends the system by \<^verbatim>\<open>main_task_exit\<close>.\<close>

datatype exit_end = MainExit i32 | Gone

definition tm_exit :: "('q, 'i, 'c) platform \<Rightarrow> cpu \<Rightarrow> i32 \<Rightarrow> ('q, 'i, 'c, 'f, 'm) tm \<Rightarrow>
    (('q, 'i, 'c, 'f, 'm) tm \<times> exit_end) outcome" where
  "tm_exit env c x s =
     bind_outcome (current c (vs s)) (\<lambda>t.
     bind_outcome (is_running (tasks (vs s) t)) (\<lambda>r.
     bind_outcome (assert_outcome r) (\<lambda>_.
     bind_outcome (assert_outcome (\<not> is_idle (tasks (vs s) t))) (\<lambda>_.
     if is_init (tasks (vs s) t) then Inr (s, MainExit x)
     else
       bind_outcome (notify_exit env c t x (on_vs (on_task t (set_state Exited)) s)) (\<lambda>s1.
       bind_outcome (resched env c (vs s1)) (\<lambda>(v, sw).
       case sw of
         None \<Rightarrow> Inl Panic
       | Some _ \<Rightarrow> bind_outcome (finish_switch c (s1\<lparr>vs := v\<rparr>)) (\<lambda>s2. Inr (s2, Gone))))))))"

definition join_condition :: "tid \<Rightarrow> ('q, 'i, 'c, 'f, 'm) tm \<Rightarrow> bool outcome" where
  "join_condition t s = bind_outcome (state (tasks (vs s) t)) (\<lambda>st. Inr (st = Exited))"

text \<open>One pass of \<^verbatim>\<open>join\<close> on task \<open>t\<close> by task \<open>me\<close>.\<close>

definition join_pass :: "bool \<Rightarrow> ('q, 'i, 'c) platform \<Rightarrow> cpu \<Rightarrow> tid \<Rightarrow> tid \<Rightarrow> ('q, 'i, 'c, 'f, 'm) tm \<Rightarrow>
    (('q, 'i, 'c, 'f, 'm) tm \<times> i32 option) outcome" where
  "join_pass irq env c t me s =
     bind_outcome (wait_until_pass irq env c (ExitOf t) (join_condition t) me s) (\<lambda>(s', b).
       Inr (s', if b then Some (exit_code t s') else None))"

text \<open>\<^verbatim>\<open>task_entry\<close>: \<open>run f s\<close> is the closure \<open>f\<close> run to its end, with the CPU it ends on.\<close>

definition task_entry :: "('q, 'i, 'c) platform \<Rightarrow>
    ('f \<Rightarrow> cpu \<Rightarrow> ('q, 'i, 'c, 'f, 'm) tm \<Rightarrow> (('q, 'i, 'c, 'f, 'm) tm \<times> cpu) outcome) \<Rightarrow> cpu \<Rightarrow>
    ('q, 'i, 'c, 'f, 'm) tm \<Rightarrow> (('q, 'i, 'c, 'f, 'm) tm \<times> exit_end) outcome" where
  "task_entry env run c s =
     bind_outcome (finish_switch c s) (\<lambda>s1.
     bind_outcome (current c (vs s1)) (\<lambda>t.
     bind_outcome (case ext_entry (exts s1 t) of Some f \<Rightarrow> run f c s1 | None \<Rightarrow> Inr (s1, c)) (\<lambda>(s2, d).
       tm_exit env d 0 s2)))"

end
