(* ===== verification/Task_Mgmt_Inv.thy ===== *)
theory Task_Mgmt_Inv
  imports Task_Mgmt Vsched_Props
begin

text \<open>
  The wait queues on top of the run queues: a task in a wait queue is blocked, marked, off its CPU
  and in no other queue; every operation of \<^verbatim>\<open>task_management\<close> keeps this and the invariant of the
  run queues, and returns.
\<close>

subsection \<open>The mark \<open>in_wait_queue\<close> is not touched by the run queues\<close>

lemma wait_flag_frame [task_simps]:
  "in_wait_queue (set_on_cpu b t) = in_wait_queue t" "in_wait_queue (set_state x t) = in_wait_queue t"
  "in_wait_queue (set_preempt_pending b t) = in_wait_queue t" "in_wait_queue (set_in_wait_queue b t) = b"
  "in_wait_queue (t\<lparr>kstack := k\<rparr>) = in_wait_queue t" "in_wait_queue (t\<lparr>ctx := x'\<rparr>) = in_wait_queue t"
  by (simp_all add: in_wait_queue_def set_on_cpu_def set_state_def set_preempt_pending_def set_in_wait_queue_def)

lemma set_kstack_wait_flag: "set_kstack ci ca t = Inr t' \<Longrightarrow> in_wait_queue t' = in_wait_queue t"
  by (auto simp: set_kstack_def in_wait_queue_def Let_def split: if_splits option.splits)

lemma pick_tasks: "pick_or_idle env c v = Inr (v', t) \<Longrightarrow> tasks v' = tasks v"
  by (auto simp: pick_or_idle_def bind_outcome_eq_Inr)

lemma switch_to_wait_flag:
  "switch_to env c p t v = Inr (v', sw) \<Longrightarrow> in_wait_queue (tasks v' u) = in_wait_queue (tasks v u)"
  by (auto simp: switch_to_def Let_def bind_outcome_eq_Inr task_simps split: if_splits dest!: set_kstack_wait_flag)

lemma resched_wait_flag:
  "resched env c v = Inr (v', sw) \<Longrightarrow> in_wait_queue (tasks v' u) = in_wait_queue (tasks v u)"
  by (auto simp: resched_def bind_outcome_eq_Inr dest!: switch_to_wait_flag pick_tasks)

lemma put_prev_tasks: "put_prev env c t p v = Inr v' \<Longrightarrow> tasks v' = tasks v"
  by (auto simp: put_prev_def bind_outcome_eq_Inr)

lemma put_task_wait_flag:
  "put_task_with_state env c t x p v = Inr (v', b) \<Longrightarrow> in_wait_queue (tasks v' u) = in_wait_queue (tasks v u)"
  by (auto simp: put_task_with_state_def transition_state_def in_wait_queue_def Let_def bind_outcome_eq_Inr
      split: if_splits dest!: put_prev_tasks)

lemma unblock_wait_flag:
  "unblock_task env t r d src v = Inr v' \<Longrightarrow> in_wait_queue (tasks v' u) = in_wait_queue (tasks v u)"
  by (auto simp: unblock_task_def bind_outcome_eq_Inr task_simps split: if_splits dest!: put_task_wait_flag)

lemma take_prev_wait_flag:
  "take_prev_task_and_clear_on_cpu c v = Inr (v', p) \<Longrightarrow> in_wait_queue (tasks v' u) = in_wait_queue (tasks v u)"
  by (auto simp: take_prev_task_and_clear_on_cpu_def bind_outcome_eq_Inr task_simps split: option.splits if_splits)

lemma spawn_tasks: "spawn env c t v = Inr v' \<Longrightarrow> tasks v' = tasks v"
  by (auto simp: spawn_def bind_outcome_eq_Inr)

subsection \<open>The invariant\<close>

definition waiting :: "('q, 'i, 'c, 'f, 'm) tm \<Rightarrow> tid \<Rightarrow> bool" where
  "waiting s t \<longleftrightarrow> (\<exists>w. t \<in> set (queues s w))"

definition wq_ok :: "('q, 'i, 'c, 'f, 'm) tm \<Rightarrow> bool" where
  "wq_ok s \<longleftrightarrow> (\<forall>w. distinct (queues s w)) \<and>
     (\<forall>w w' t. t \<in> set (queues s w) \<and> t \<in> set (queues s w') \<longrightarrow> w = w') \<and>
     (\<forall>t. waiting s t \<longrightarrow> state (tasks (vs s) t) = Inr Blocked \<and> in_wait_queue (tasks (vs s) t) \<and>
        \<not> is_idle (tasks (vs s) t) \<and> startable (tasks (vs s) t))"

text \<open>What an operation may change of the tasks that are \<^verbatim>\<open>Blocked\<close> or \<^verbatim>\<open>Exited\<close>: nothing the queues rely on.\<close>

definition tasks_kept :: "(tid \<Rightarrow> bool) \<Rightarrow> ('q, 'i, 'c) vsched \<Rightarrow> ('q, 'i, 'c) vsched \<Rightarrow> bool" where
  "tasks_kept P v v' \<longleftrightarrow> (\<forall>u. P u \<longrightarrow> state (tasks v' u) = state (tasks v u) \<and>
        in_wait_queue (tasks v' u) = in_wait_queue (tasks v u)) \<and>
     (\<forall>u. is_idle (tasks v' u) = is_idle (tasks v u) \<and> startable (tasks v' u) = startable (tasks v u))"

lemma wq_ok_kept:
  assumes "wq_ok s" "queues s' = queues s" "tasks_kept (waiting s) (vs s) (vs s')"
  shows "wq_ok s'"
  using assms by (simp add: wq_ok_def waiting_def tasks_kept_def)

text \<open>The tasks of \<open>T\<close> have been taken from their wait queues and woken.\<close>

definition woken :: "tid set \<Rightarrow> ('q, 'i, 'c) vsched \<Rightarrow> ('q, 'i, 'c) vsched \<Rightarrow> bool" where
  "woken T v v' \<longleftrightarrow> (\<forall>t \<in> T. state (tasks v' t) = Inr Ready \<and> \<not> in_wait_queue (tasks v' t)) \<and>
     (\<forall>u. is_idle (tasks v' u) = is_idle (tasks v u) \<and> startable (tasks v' u) = startable (tasks v u)) \<and>
     (\<forall>u. u \<notin> T \<longrightarrow> state (tasks v' u) = state (tasks v u) \<and>
        in_wait_queue (tasks v' u) = in_wait_queue (tasks v u))"

lemma woken_none: "woken {} v v"
  by (simp add: woken_def)

lemma woken_more: "woken A v v1 \<Longrightarrow> woken B v1 v2 \<Longrightarrow> woken (A \<union> B) v v2"
  unfolding woken_def by (metis Un_iff)

definition gap_free :: "cpu option \<Rightarrow> nat \<Rightarrow> ('q, 'i, 'c, 'f, 'm) tm \<Rightarrow> bool" where
  "gap_free gap n s \<longleftrightarrow> (\<forall>d < n. gap = Some d \<longrightarrow> state (tasks (vs s) (current_task (cpu_at (vs s) d))) \<noteq> Inr Blocked)"

context base_scheduler
begin

definition tm_good :: "cpu option \<Rightarrow> nat \<Rightarrow> ('q, 'i, 'c, 'f, 'm) tm \<Rightarrow> bool" where
  "tm_good gap n s \<longleftrightarrow> vs_ok qinv iok (vs s) \<and> view_inv gap {} (view_of queued bound (vs s)) \<and> wq_ok s \<and>
     length (percpus (vs s)) = n"

text \<open>The current task has given up the CPU: the CPU reschedules, and the next task finishes the switch.\<close>

lemma leave_and_finish:
  assumes env: "over ops env" and g: "tm_good (Some c) n s" and c: "c < n"
    and cur: "state (tasks (vs s) (current_task (cpu_at (vs s) c))) = Inr x"
      "x \<noteq> Ready \<or> (\<exists>v sw. resched env c (vs s) = Inr (v, Some sw))"
  shows "\<exists>v sw s'. resched env c (vs s) = Inr (v, Some sw) \<and> finish_switch c (s\<lparr>vs := v\<rparr>) = Inr s' \<and>
    tm_good None n s' \<and> queues s' = queues s \<and> exts s' = exts s \<and> stack_pool s' = stack_pool s \<and>
    tasks_kept (\<lambda>u. state (tasks (vs s) u) \<noteq> Inr Ready) (vs s) (vs s') \<and>
    released s' = (if x = Exited then current_task (cpu_at (vs s) c) # released s else released s)"
proof -
  let ?v = "view_of queued bound (vs s)" and ?p = "current_task (cpu_at (vs s) c)"
  have ok: "vs_ok qinv iok (vs s)" and inv: "view_inv (Some c) {} ?v" and len: "length (percpus (vs s)) = n"
    and wok: "wq_ok s" using g by (simp_all add: tm_good_def)
  have c': "c < length (percpus (vs s))" using c len by simp
  obtain v t w where v: "resched env c (vs s) = Inr (v, if ?p = t then None else Some (?p, t))"
    "vs_ok qinv iok v" "length (percpus v) = n" "a_pick c t ?v w" "view_of queued bound v = a_switch c t w"
    using resched_refines [OF env ok c' inv] len by blast
  have cv: "c < v_cpus ?v" using c' by simp
  have t: "state (tasks (vs s) t) = Inr Ready" using picked_facts(1) [OF inv cv v(4)] by simp
  have ne: "?p \<noteq> t" using t cur v(1) by auto
  have inv1: "view_inv None {c} (view_of queued bound v)"
    using switch_inv [OF inv cv _ v(4)] ne v(5) by simp
  note fr = a_pick_frame [OF v(4)]
  have vs1: "state (tasks v u) = (if u = t then Inr Running else state (tasks (vs s) u))"
      "is_idle (tasks v u) = is_idle (tasks (vs s) u)" "startable (tasks v u) = startable (tasks (vs s) u)" for u
    using arg_cong [OF v(5), of "\<lambda>v. v_state v u"] arg_cong [OF v(5), of "\<lambda>v. v_isidle v u"]
      arg_cong [OF v(5), of "\<lambda>v. v_startable v u"] ne fr by (auto simp: a_switch_def)
  have prev: "prev_task (cpu_at v c) = Some ?p"
    using arg_cong [OF v(5), of "\<lambda>v. v_prev v c"] ne fr by (auto simp: a_switch_def)
  have cc: "c < length (percpus v)" using c v(3) by simp
  obtain v' where v': "take_prev_task_and_clear_on_cpu c v = Inr (v', ?p)" "vs_ok qinv iok v'"
    "length (percpus v') = n" "view_of queued bound v' = a_clear c ?p (view_of queued bound v)"
    using clear_refines [OF v(2) cc prev] v(3) by auto
  have inv2: "view_inv None {} (view_of queued bound v')"
    using clear_inv [OF inv1, of c ?p] cc prev v'(4) by simp
  have vs2: "state (tasks v' u) = state (tasks v u)" "is_idle (tasks v' u) = is_idle (tasks v u)"
      "startable (tasks v' u) = startable (tasks v u)" for u
    using arg_cong [OF v'(4), of "\<lambda>v. v_state v u"] arg_cong [OF v'(4), of "\<lambda>v. v_isidle v u"]
      arg_cong [OF v'(4), of "\<lambda>v. v_startable v u"] by (simp_all add: a_clear_def)
  have kept: "tasks_kept (\<lambda>u. state (tasks (vs s) u) \<noteq> Inr Ready) (vs s) v'"
    unfolding tasks_kept_def vs2 using vs1 t resched_wait_flag [OF v(1)] take_prev_wait_flag [OF v'(1)] by auto
  let ?s = "s\<lparr>vs := v', released := if x = Exited then ?p # released s else released s\<rparr>"
  have "finish_switch c (s\<lparr>vs := v\<rparr>) = Inr ?s"
    using v'(1) vs2 vs1 ne cur(1) by (simp add: finish_switch_def)
  moreover have "wq_ok ?s"
  proof (rule wq_ok_kept [OF wok])
    show "tasks_kept (waiting s) (vs s) (vs ?s)"
      using kept wok by (auto simp: tasks_kept_def wq_ok_def)
  qed simp
  ultimately show ?thesis using v ne v'(2,3) inv2 kept
    by (intro exI [of _ v] exI [of _ "(?p, t)"] exI [of _ ?s]) (simp add: tm_good_def)
qed

lemma unblock_one_good:
  assumes env: "over ops env" and fr: "\<forall>q. fresh q" and g: "tm_good gap n s" and c: "c < n"
    and t: "state (tasks (vs s) t) = Inr Blocked" "\<not> is_idle (tasks (vs s) t)" "startable (tasks (vs s) t)"
      "\<not> waiting s t" "\<forall>d < n. gap = Some d \<longrightarrow> current_task (cpu_at (vs s) d) \<noteq> t"
  shows "\<exists>s'. unblock_one_task env c t r s = Inr s' \<and> tm_good gap n s' \<and> queues s' = queues s \<and> exts s' = exts s \<and>
    released s' = released s \<and> woken {t} (vs s) (vs s') \<and>
    (\<forall>d < n. current_task (cpu_at (vs s') d) = current_task (cpu_at (vs s) d)) \<and>
    view_of queued bound (vs s') = a_enqueue c t (a_state t Ready (view_of queued bound (vs s)))"
proof -
  let ?s1 = "on_vs (on_task t (set_in_wait_queue False)) s"
  let ?v = "view_of queued bound (vs s)"
  have ok: "vs_ok qinv iok (vs s)" and inv: "view_inv gap {} ?v" and len: "length (percpus (vs s)) = n"
    and wok: "wq_ok s" using g by (simp_all add: tm_good_def)
  have v1: "view_of queued bound (on_task t (set_in_wait_queue False) (vs s)) = ?v"
    by (auto simp: view_of_def fun_eq_iff task_simps)
  have ok1: "vs_ok qinv iok (vs ?s1)" using ok by simp
  have ncur: "current_task (cpu_at (vs s) e) \<noteq> t" if "e < n" for e
    using cur_running [OF inv, of e] t(1,5) that len by (cases "gap = Some e") auto
  have nq: "t \<notin># queued (scheduler (cpu_at (vs s) e))" if "e < n" for e
    using queued_ready [OF inv, of e t] that len t(1) by auto
  have oc: "\<not> on_cpu (tasks (vs s) t)" using oncpu_iff [OF inv, of t] ncur len by auto
  obtain v where v: "unblock_task env t r c c (vs ?s1) = Inr v" "vs_ok qinv iok v"
    "length (percpus v) = n" "view_of queued bound v = a_enqueue c t (a_state t Ready ?v)"
    using unblock_refines [OF env ok1, of c t r c] c len fr t oc by (auto simp: task_simps v1)
  have w: "view_inv gap {} (a_state t Ready ?v)" using wake_inv [OF inv, of t] ncur nq len by simp
  have "unplaced {} t (a_state t Ready ?v)" using ncur nq len by (simp add: unplaced_def)
  then have inv2: "view_inv gap {} (view_of queued bound v)"
    unfolding v(4) using enqueue_inv [OF w, of c t] c len t by simp
  have vs1: "state (tasks v u) = (if u = t then Inr Ready else state (tasks (vs s) u))"
      "is_idle (tasks v u) = is_idle (tasks (vs s) u)" "startable (tasks v u) = startable (tasks (vs s) u)"
      "current_task (cpu_at v d) = current_task (cpu_at (vs s) d)" for u d
    using arg_cong [OF v(4), of "\<lambda>v. v_state v u"] arg_cong [OF v(4), of "\<lambda>v. v_isidle v u"]
      arg_cong [OF v(4), of "\<lambda>v. v_startable v u"] arg_cong [OF v(4), of "\<lambda>v. v_cur v d"] by simp_all
  have wk: "woken {t} (vs s) v"
    unfolding woken_def using vs1 unblock_wait_flag [OF v(1)] by (simp add: task_simps)
  have "wq_ok (?s1\<lparr>vs := v\<rparr>)"
  proof (rule wq_ok_kept [OF wok])
    show "tasks_kept (waiting s) (vs s) (vs (?s1\<lparr>vs := v\<rparr>))"
      using wk t(4) unblock_wait_flag [OF v(1)] by (auto simp: tasks_kept_def woken_def task_simps)
  qed simp
  then show ?thesis using v inv2 wk vs1(4)
    by (intro exI [of _ "?s1\<lparr>vs := v\<rparr>"]) (simp add: tm_good_def unblock_one_task_def Let_def)
qed

lemma tm_good_shrink:
  assumes g: "tm_good gap n s" and ts: "set ts \<subseteq> set (queues s w)" "distinct ts"
  shows "tm_good gap n (put_queue w ts s)"
proof -
  have sub: "u \<in> set (queues s w')" if "u \<in> set (queues (put_queue w ts s) w')" for u w'
    using that ts(1) by (auto split: if_splits)
  have wok: "wq_ok s" using g by (simp add: tm_good_def)
  have "distinct (queues (put_queue w ts s) w')" for w' using wok ts(2) by (simp add: wq_ok_def)
  moreover have "waiting (put_queue w ts s) u \<Longrightarrow> waiting s u" for u using sub unfolding waiting_def by blast
  ultimately have "wq_ok (put_queue w ts s)"
    using wok sub unfolding wq_ok_def put_queue_simps(1) by blast
  then show ?thesis using g by (simp add: tm_good_def)
qed

text \<open>Taking a task out of its queue and waking it.\<close>

lemma take_and_wake:
  assumes env: "over ops env" and fr: "\<forall>q. fresh q" and g: "tm_good gap n s" and gf: "gap_free gap n s"
    and c: "c < n" and t: "queues s w = us @ t # ts"
  shows "\<exists>s'. unblock_one_task env c t r (put_queue w (us @ ts) s) = Inr s' \<and> tm_good gap n s' \<and> gap_free gap n s' \<and>
    queues s' = (queues s)(w := us @ ts) \<and> exts s' = exts s \<and> released s' = released s \<and>
    woken {t} (vs s) (vs s') \<and> (\<forall>d < n. current_task (cpu_at (vs s') d) = current_task (cpu_at (vs s) d)) \<and>
    view_of queued bound (vs s') = a_enqueue c t (a_state t Ready (view_of queued bound (vs s)))"
proof -
  let ?s = "put_queue w (us @ ts) s"
  have wok: "wq_ok s" using g by (simp add: tm_good_def)
  then have d: "distinct (us @ t # ts)" unfolding wq_ok_def t [symmetric] by blast
  have g1: "tm_good gap n ?s" using tm_good_shrink [OF g, of "us @ ts" w] d t by auto
  have only: "w' = w" if "t \<in> set (queues s w')" for w'
    using wok that t unfolding wq_ok_def by (metis in_set_conv_decomp)
  have nw: "\<not> waiting ?s t" using only d by (auto simp: waiting_def)
  have "waiting s t" unfolding waiting_def t [symmetric] by (intro exI [of _ w]) (simp add: t)
  then have bt: "state (tasks (vs s) t) = Inr Blocked" "\<not> is_idle (tasks (vs s) t)" "startable (tasks (vs s) t)"
    using wok by (auto simp: wq_ok_def)
  have ncur: "\<forall>d < n. gap = Some d \<longrightarrow> current_task (cpu_at (vs s) d) \<noteq> t"
    using gf bt(1) by (auto simp: gap_free_def)
  obtain s' where s': "unblock_one_task env c t r ?s = Inr s'" "tm_good gap n s'" "queues s' = queues ?s" "exts s' = exts ?s"
    "released s' = released ?s" "woken {t} (vs ?s) (vs s')"
    "\<forall>d < n. current_task (cpu_at (vs s') d) = current_task (cpu_at (vs ?s) d)"
    "view_of queued bound (vs s') = a_enqueue c t (a_state t Ready (view_of queued bound (vs ?s)))"
    using unblock_one_good [OF env fr g1 c _ _ _ nw, of r] bt ncur by auto
  have "gap_free gap n s'"
    using gf s'(6,7) ncur by (auto simp: gap_free_def woken_def)
  then show ?thesis using s' by (intro exI [of _ s']) simp
qed

lemma notify_one_good:
  assumes "over ops env" "\<forall>q. fresh q" "tm_good gap n s" "gap_free gap n s" "c < n"
  shows "\<exists>s'. notify_one env c w r s = Inr (s', queues s w \<noteq> []) \<and> tm_good gap n s' \<and> gap_free gap n s' \<and>
    queues s' = (queues s)(w := tl (queues s w)) \<and> exts s' = exts s \<and> released s' = released s \<and>
    woken (set (take 1 (queues s w))) (vs s) (vs s') \<and>
    (\<forall>d < n. current_task (cpu_at (vs s') d) = current_task (cpu_at (vs s) d)) \<and>
    view_of queued bound (vs s') = (case queues s w of [] \<Rightarrow> view_of queued bound (vs s)
      | t # ts \<Rightarrow> a_enqueue c t (a_state t Ready (view_of queued bound (vs s))))"
proof (cases "queues s w")
  case Nil
  then show ?thesis using assms woken_none by (intro exI [of _ s]) (auto simp: notify_one_def)
next
  case (Cons t ts)
  then show ?thesis using take_and_wake [OF assms, of w "[]" t ts r] by (auto simp: notify_one_def)
qed

lemma notify_task_good:
  assumes "over ops env" "\<forall>q. fresh q" "tm_good gap n s" "gap_free gap n s" "c < n"
  shows "\<exists>s'. notify_task env c w r t s = Inr (s', t \<in> set (queues s w)) \<and> tm_good gap n s' \<and> gap_free gap n s' \<and>
    queues s' = (queues s)(w := remove1 t (queues s w)) \<and>
    woken (if t \<in> set (queues s w) then {t} else {}) (vs s) (vs s')"
proof (cases "t \<in> set (queues s w)")
  case True
  then obtain us ts where q: "queues s w = us @ t # ts" "t \<notin> set us" using split_list_first by fastforce
  then have "remove1 t (queues s w) = us @ ts" by (simp add: remove1_append)
  then show ?thesis using take_and_wake [OF assms q(1), of r] True by (auto simp: notify_task_def)
next
  case False
  then show ?thesis using assms woken_none by (intro exI [of _ s]) (simp add: notify_task_def remove1_idem)
qed

lemma notify_all_good:
  assumes "over ops env" "\<forall>q. fresh q" "c < n"
  shows "tm_good gap n s \<Longrightarrow> gap_free gap n s \<Longrightarrow>
    \<exists>s'. notify_all env c w r s = Inr s' \<and> tm_good gap n s' \<and> gap_free gap n s' \<and>
    queues s' = (queues s)(w := []) \<and> exts s' = exts s \<and> released s' = released s \<and>
    woken (set (queues s w)) (vs s) (vs s') \<and>
    (\<forall>d < n. current_task (cpu_at (vs s') d) = current_task (cpu_at (vs s) d))"
proof (induction "length (queues s w)" arbitrary: s)
  case 0
  then show ?case using woken_none
    by (intro exI [of _ s]) (auto simp: notify_all.simps [of env c w r s] notify_one_def fun_upd_idem)
next
  case (Suc k)
  then obtain t ts where q: "queues s w = t # ts" by (cases "queues s w") auto
  obtain s1 where s1: "notify_one env c w r s = Inr (s1, True)" "tm_good gap n s1" "gap_free gap n s1"
    "queues s1 = (queues s)(w := ts)" "exts s1 = exts s" "released s1 = released s" "woken {t} (vs s) (vs s1)"
    "\<forall>d < n. current_task (cpu_at (vs s1) d) = current_task (cpu_at (vs s) d)"
    using notify_one_good [OF assms(1,2) Suc.prems assms(3), of w r] q by auto
  have k: "k = length (queues s1 w)" using Suc(2) q s1(4) by simp
  obtain s2 where s2: "notify_all env c w r s1 = Inr s2" "tm_good gap n s2" "gap_free gap n s2"
    "queues s2 = (queues s1)(w := [])" "exts s2 = exts s1" "released s2 = released s1"
    "woken (set (queues s1 w)) (vs s1) (vs s2)"
    "\<forall>d < n. current_task (cpu_at (vs s2) d) = current_task (cpu_at (vs s1) d)"
    using Suc(1) [OF k s1(2,3)] by blast
  have "woken (set (queues s w)) (vs s) (vs s2)"
    using woken_more [OF s1(7) s2(7)] q s1(4) by simp
  then show ?case using s1 s2 by (intro exI [of _ s2]) (simp add: notify_all.simps [of env c w r s])
qed

subsection \<open>Blocking, exiting and the rest\<close>

lemma cur_not_waiting:
  assumes "tm_good None n s" "c < n"
  shows "state (tasks (vs s) (current_task (cpu_at (vs s) c))) = Inr Running"
    "\<not> waiting s (current_task (cpu_at (vs s) c))"
proof -
  show run: "state (tasks (vs s) (current_task (cpu_at (vs s) c))) = Inr Running"
    using assms cur_running [of None "{}" "view_of queued bound (vs s)" c] by (simp add: tm_good_def)
  show "\<not> waiting s (current_task (cpu_at (vs s) c))"
    using assms(1) run by (auto simp: tm_good_def wq_ok_def)
qed

text \<open>A running task that gives up the CPU in state \<open>x\<close>, and is put into a queue or not.\<close>

lemma leave_good:
  assumes g: "tm_good None n s" and c: "c < n" and ni: "\<not> is_idle (tasks (vs s) (current_task (cpu_at (vs s) c)))"
    and x: "x \<noteq> Running"
  shows "tm_good (Some c) n (on_vs (on_task (current_task (cpu_at (vs s) c)) (set_state x)) s)"
proof -
  let ?p = "current_task (cpu_at (vs s) c)" and ?v = "view_of queued bound (vs s)"
  let ?s = "on_vs (on_task ?p (set_state x)) s"
  have ok: "vs_ok qinv iok (vs s)" and inv: "view_inv None {} ?v" and len: "length (percpus (vs s)) = n"
    and wok: "wq_ok s" using g by (simp_all add: tm_good_def)
  have "view_inv (Some c) {} (view_of queued bound (vs ?s))"
    using leave_inv [OF inv, of c x] c len x ni by (simp add: view_on_task)
  moreover have "wq_ok ?s"
    using cur_not_waiting(2) [OF g c]
    by (intro wq_ok_kept [OF wok]) (auto simp: tasks_kept_def task_simps)
  ultimately show ?thesis using ok len by (simp add: tm_good_def)
qed

lemma park_good:
  assumes g: "tm_good None n s" and c: "c < n" and ni: "\<not> is_idle (tasks (vs s) (current_task (cpu_at (vs s) c)))"
  shows "tm_good (Some c) n (park w (current_task (cpu_at (vs s) c)) s)"
proof -
  let ?p = "current_task (cpu_at (vs s) c)"
  let ?s1 = "on_vs (on_task ?p (set_state Blocked)) s" let ?s = "park w ?p s"
  have g1: "tm_good (Some c) n ?s1" using leave_good [OF g c ni, of Blocked] by simp
  have v: "view_of queued bound (vs ?s) = view_of queued bound (vs ?s1)"
    by (auto simp: park_def view_of_def fun_eq_iff task_simps)
  have nw: "?p \<notin> set (queues s w')" for w' using cur_not_waiting(2) [OF g c] by (auto simp: waiting_def)
  have st: "startable (tasks (vs s) ?p)"
    using cur_startable [of None "{}" "view_of queued bound (vs s)" c] g c by (simp add: tm_good_def)
  have wok: "wq_ok s" using g by (simp add: tm_good_def)
  have q: "queues ?s w' = (if w' = w then queues s w @ [?p] else queues s w')" for w' by (simp add: park_def)
  have "distinct (queues ?s w')" for w' unfolding q using wok nw by (simp add: wq_ok_def)
  moreover have "w1 = w2" if "u \<in> set (queues ?s w1)" "u \<in> set (queues ?s w2)" for u w1 w2
  proof (cases "u = ?p")
    case True
    then show ?thesis using that nw unfolding q by (auto split: if_splits)
  next
    case False
    then have "u \<in> set (queues s w1)" "u \<in> set (queues s w2)" using that unfolding q by (auto split: if_splits)
    then show ?thesis using wok unfolding wq_ok_def by blast
  qed
  moreover have "state (tasks (vs ?s) u) = Inr Blocked \<and> in_wait_queue (tasks (vs ?s) u) \<and>
      \<not> is_idle (tasks (vs ?s) u) \<and> startable (tasks (vs ?s) u)" if "waiting ?s u" for u
  proof (cases "u = ?p")
    case True
    then show ?thesis using ni st by (simp add: park_def task_simps)
  next
    case False
    then have "waiting s u" using that unfolding waiting_def q by (auto split: if_splits)
    then show ?thesis using wok False by (simp add: park_def wq_ok_def)
  qed
  ultimately have "wq_ok ?s" unfolding wq_ok_def by blast
  moreover have "vs_ok qinv iok (vs ?s)" using g by (simp add: park_def tm_good_def)
  moreover have "length (percpus (vs ?s)) = n" using g by (simp add: park_def tm_good_def)
  ultimately show ?thesis using g1 v by (simp add: tm_good_def)
qed

lemma block_good:
  assumes env: "over ops env" and g: "tm_good None n s" and c: "c < n"
    and ni: "\<not> is_idle (tasks (vs s) (current_task (cpu_at (vs s) c)))"
  shows "\<exists>s'. blocked_resched env c w s = Inr s' \<and> tm_good None n s' \<and> exts s' = exts s \<and> released s' = released s \<and>
    queues s' = (queues s)(w := queues s w @ [current_task (cpu_at (vs s) c)])"
proof -
  let ?p = "current_task (cpu_at (vs s) c)" let ?s = "park w ?p s"
  have p: "current_task (cpu_at (vs ?s) c) = ?p" "state (tasks (vs ?s) ?p) = Inr Blocked"
    "exts ?s = exts s" "released ?s = released s" "queues ?s = (queues s)(w := queues s w @ [?p])"
    by (simp_all add: park_def task_simps)
  obtain v sw s' where s': "resched env c (vs ?s) = Inr (v, Some sw)" "finish_switch c (?s\<lparr>vs := v\<rparr>) = Inr s'"
    "tm_good None n s'" "queues s' = queues ?s" "exts s' = exts ?s" "released s' = released ?s"
    using leave_and_finish [OF env park_good [OF g c ni, of w] c, of Blocked] p(1,2) by auto
  have "blocked_resched env c w s = Inr s'"
    using g vs_okD(1) [of qinv iok "vs s" c] c cur_not_waiting(1) [OF g c] ni s'(1,2)
    by (simp add: tm_good_def blocked_resched_def current_def task_simps Let_def)
  then show ?thesis using s' p by (intro exI [of _ s']) simp
qed

end

end
