(* ===== verification/Task_Mgmt_Run.thy ===== *)
theory Task_Mgmt_Run
  imports Task_Mgmt_Inv
begin

text \<open>
  The remaining operations of \<^verbatim>\<open>task_management\<close>, runs of all of them, and what holds in every state
  they reach.
\<close>

lemma timer_frame [task_simps]:
  "state (timer_ticket_expired i) = state i" "on_cpu (timer_ticket_expired i) = on_cpu i"
  "is_idle (timer_ticket_expired i) = is_idle i" "startable (timer_ticket_expired i) = startable i"
  "in_wait_queue (timer_ticket_expired i) = in_wait_queue i"
  by (simp_all add: timer_ticket_expired_def state_def on_cpu_def is_idle_def is_init_def startable_def in_wait_queue_def)

context base_scheduler
begin

subsection \<open>Exit, requeue, cancel, spawn and yield\<close>

lemma exit_good:
  assumes env: "over ops env" and fr: "\<forall>q. fresh q" and g: "tm_good None n s" and c: "c < n"
    and p: "p = current_task (cpu_at (vs s) c)" "\<not> is_idle (tasks (vs s) p)" "\<not> is_init (tasks (vs s) p)"
  shows "\<exists>s'. tm_exit env c x s = Inr (s', Gone) \<and> tm_good None n s' \<and> queues s' = (queues s)(ExitOf p := []) \<and>
    state (tasks (vs s') p) = Inr Exited \<and> exit_code p s' = x \<and> released s' = p # released s"
proof -
  let ?s1 = "on_vs (on_task p (set_state Exited)) s" let ?s2 = "set_exit_code p x ?s1"
  have g1: "tm_good (Some c) n ?s1" using leave_good [OF g c, of Exited] p by simp
  then have g2: "tm_good (Some c) n ?s2"
    by (simp add: tm_good_def set_exit_code_def put_ext_def wq_ok_def waiting_def)
  have s2: "vs ?s2 = vs ?s1" "queues ?s2 = queues s" "released ?s2 = released s" "ext_exit_code (exts ?s2 p) = x"
    by (simp_all add: set_exit_code_def put_ext_def)
  have ex: "state (tasks (vs ?s2) p) = Inr Exited" "current_task (cpu_at (vs ?s2) c) = p"
    using s2(1) p(1) by (simp_all add: task_simps)
  have gf: "gap_free (Some c) n ?s2" using ex by (simp add: gap_free_def)
  obtain s3 where s3: "notify_all env c (ExitOf p) False ?s2 = Inr s3" "tm_good (Some c) n s3"
    "queues s3 = (queues ?s2)(ExitOf p := [])" "exts s3 = exts ?s2" "released s3 = released ?s2"
    "woken (set (queues ?s2 (ExitOf p))) (vs ?s2) (vs s3)"
    "\<forall>d < n. current_task (cpu_at (vs s3) d) = current_task (cpu_at (vs ?s2) d)"
    using notify_all_good [OF env fr c g2 gf] by blast
  have nw: "\<not> waiting ?s2 p" using g2 ex(1) by (auto simp: tm_good_def wq_ok_def)
  then have "p \<notin> set (queues ?s2 (ExitOf p))" by (auto simp: waiting_def)
  then have ex3: "state (tasks (vs s3) p) = Inr Exited" "current_task (cpu_at (vs s3) c) = p"
    using s3(6,7) ex c by (auto simp: woken_def)
  obtain v sw s' where s': "resched env c (vs s3) = Inr (v, Some sw)" "finish_switch c (s3\<lparr>vs := v\<rparr>) = Inr s'"
    "tm_good None n s'" "queues s' = queues s3" "exts s' = exts s3"
    "tasks_kept (\<lambda>u. state (tasks (vs s3) u) \<noteq> Inr Ready) (vs s3) (vs s')" "released s' = p # released s3"
    using leave_and_finish [OF env s3(2) c, of Exited] ex3 by auto
  have "tm_exit env c x s = Inr (s', Gone)"
    using g vs_okD(1) [of qinv iok "vs s" c] c cur_not_waiting(1) [OF g c] p s3(1) s'(1,2)
    by (simp add: tm_good_def tm_exit_def current_def task_simps notify_exit_def)
  moreover have "state (tasks (vs s') p) = Inr Exited" using s'(6) ex3(1) by (simp add: tasks_kept_def)
  ultimately show ?thesis using s' s3 s2 by (intro exI [of _ s']) (simp add: exit_code_def)
qed

lemma requeue_good:
  assumes g: "tm_good gap n s"
  shows "tm_good gap n (fst (requeue k w w' s))" "vs (fst (requeue k w w' s)) = vs s"
proof -
  let ?s = "fst (requeue k w w' s)"
  define T D where "T = take (min k (length (queues s w))) (queues s w)"
    and "D = drop (min k (length (queues s w))) (queues s w)"
  have s: "?s = (if T = [] then put_queue w D s
      else put_queue w' (queues (put_queue w D s) w' @ T) (put_queue w D s))"
    by (simp only: requeue_def Let_def T_def D_def fst_conv)
  show vs: "vs ?s = vs s" by (simp add: s)
  have wok: "wq_ok s" using g by (simp add: tm_good_def)
  then have dq: "distinct (queues s u)" for u by (simp add: wq_ok_def)
  have split: "queues s w = T @ D" by (simp add: T_def D_def)
  then have td: "distinct T" "distinct D" "set T \<inter> set D = {}" "set D \<subseteq> set (queues s w)" "set T \<subseteq> set (queues s w)"
    using dq [of w] by auto
  have g1: "tm_good gap n (put_queue w D s)" using tm_good_shrink [OF g td(4,2)] .
  have ow: "u1 = u2" if "t \<in> set (queues s u1)" "t \<in> set (queues s u2)" for t u1 u2
    using wok that unfolding wq_ok_def by blast
  show "tm_good gap n ?s"
  proof (cases "T = []")
    case True
    then show ?thesis using g1 s by simp
  next
    case False
    define Q where "Q u = (if u = w then D else queues s u)" for u
    have q: "queues ?s u = (if u = w' then Q w' @ T else Q u)" for u using False by (simp add: s Q_def)
    have Q: "set (Q u) \<subseteq> set (queues s u)" "distinct (Q u)" for u
      using td dq by (simp_all add: Q_def)
    have "t \<notin> set (Q u)" if tT: "t \<in> set T" for t u
    proof (cases "u = w")
      case True
      then show ?thesis using td(3) tT by (auto simp: Q_def)
    next
      case False
      have "t \<in> set (queues s w)" using td(5) tT by (rule subsetD)
      then have "t \<notin> set (queues s u)" using ow [of t u w] False by blast
      then show ?thesis using False by (simp add: Q_def)
    qed
    then have Q: "set (Q u) \<subseteq> set (queues s u)" "distinct (Q u)" "set T \<inter> set (Q u) = {}" for u
      using Q by blast+
    have "distinct (queues ?s u)" for u unfolding q using Q(2) Q(3) [of w'] td(1) by (simp add: Int_commute)
    moreover have at: "t \<in> set T \<and> u = w' \<or> t \<notin> set T \<and> t \<in> set (Q u)" if "t \<in> set (queues ?s u)" for t u
      using that Q(3) [of u] unfolding q by (cases "u = w'") auto
    have "u1 = u2" if "t \<in> set (queues ?s u1)" "t \<in> set (queues ?s u2)" for t u1 u2
      using at [OF that(1)] at [OF that(2)] Q(1) ow by blast
    moreover have "waiting s t" if wt: "waiting ?s t" for t
    proof -
      obtain u where "t \<in> set (queues ?s u)" using wt unfolding waiting_def by blast
      then show ?thesis using at [of t u] Q(1) [of u] td(5) unfolding waiting_def by blast
    qed
    ultimately have "wq_ok ?s" using wok unfolding wq_ok_def vs by blast
    then show ?thesis using g vs by (simp add: tm_good_def)
  qed
qed

lemma cancel_good:
  assumes g: "tm_good gap n s" and me: "\<not> waiting s me"
  shows "tm_good gap n (cancel_events irq w me b s)" "queues (cancel_events irq w me b s) = queues s"
    "state (tasks (vs (cancel_events irq w me b s)) u) = state (tasks (vs s) u)"
proof -
  let ?s = "cancel_events irq w me b s"
  have "filter (\<lambda>t. me \<noteq> t) (queues s w) = queues s w"
    using me by (auto simp: waiting_def filter_id_conv)
  then have q: "queues ?s = queues s" by (simp add: cancel_events_def Let_def)
  then show "queues ?s = queues s" .
  have v: "view_of queued bound (vs ?s) = view_of queued bound (vs s)"
    by (auto simp: cancel_events_def view_of_def fun_eq_iff task_simps Let_def)
  have ok: "vs_ok qinv iok (vs ?s) = vs_ok qinv iok (vs s)" "length (percpus (vs ?s)) = length (percpus (vs s))"
    by (simp_all add: cancel_events_def Let_def)
  have "tasks_kept (waiting s) (vs s) (vs ?s)"
    using me by (auto simp: tasks_kept_def cancel_events_def task_simps Let_def)
  then have "wq_ok ?s" using wq_ok_kept [OF _ q] g by (simp add: tm_good_def)
  then show "tm_good gap n ?s" using g v ok by (simp add: tm_good_def)
  show "state (tasks (vs ?s) u) = state (tasks (vs s) u)"
    by (auto simp: cancel_events_def task_simps Let_def)
qed

lemma tm_spawn_good:
  assumes env: "over ops env" and fr: "\<forall>q. fresh q" and g: "tm_good None n s" and c: "c < n"
    and t: "state (tasks (vs s) t) = Inr Ready" "\<not> is_idle (tasks (vs s) t)" "startable (tasks (vs s) t)"
      "unplaced {} t (view_of queued bound (vs s))"
  shows "\<exists>s'. tm_spawn env c t s = Inr s' \<and> tm_good None n s' \<and> queues s' = queues s"
proof -
  have ok: "good (vs s, {})" and len: "length (percpus (vs s)) = n" and wok: "wq_ok s"
    using g by (simp_all add: tm_good_def good_def)
  have "enabled queued bound fresh (Spawn c t) (vs s, {})" using c len fr t by simp
  then obtain v where v: "spawn env c t (vs s) = Inr v" "good (v, {})" "length (percpus v) = n"
    using spawn_good [OF env ok] len by blast
  have "wq_ok (s\<lparr>vs := v\<rparr>)"
    by (rule wq_ok_kept [OF wok]) (simp_all add: tasks_kept_def spawn_tasks [OF v(1)])
  then show ?thesis using v by (simp add: tm_spawn_def tm_good_def good_def)
qed

text \<open>The first half of a yield: the task is \<^verbatim>\<open>Ready\<close> and back in the ready queue.\<close>

lemma yield_with_tm:
  assumes env: "over ops env" and fr: "\<forall>q. fresh q" and g: "tm_good None n s" and c: "c < n"
  shows "\<exists>v1. yield_with False env c (vs s) = Inr v1 \<and> tm_good (Some c) n (s\<lparr>vs := v1\<rparr>) \<and>
    state (tasks v1 (current_task (cpu_at (vs s) c))) = Inr Ready \<and>
    (\<forall>d. current_task (cpu_at v1 d) = current_task (cpu_at (vs s) d))"
proof -
  let ?p = "current_task (cpu_at (vs s) c)"
  have ok: "good (vs s, {})" and ok': "vs_ok qinv iok (vs s)" and len: "length (percpus (vs s)) = n" and wok: "wq_ok s"
    using g by (simp_all add: tm_good_def good_def)
  have c': "c < length (percpus (vs s))" using c len by simp
  have f: "fresh (scheduler (cpu_at (vs s) c))" using fr by blast
  note run = good_running [OF ok c']
  obtain v1 where v1: "yield_with False env c (vs s) = Inr v1" "vs_ok qinv iok v1" "length (percpus v1) = n"
    "view_inv (Some c) {} (view_of queued bound v1)"
    using yield_with_good [OF env ok c' _ f, of False] len by auto
  have vw: "view_of queued bound v1 = a_put c (view_of queued bound (vs s))"
    using yield_with_refines [OF env ok' c' f run, of False] v1(1) by (auto simp: a_put_def Let_def)
  have st: "state (tasks v1 u) = (if u = ?p then Inr Ready else state (tasks (vs s) u))"
      "is_idle (tasks v1 u) = is_idle (tasks (vs s) u)" "startable (tasks v1 u) = startable (tasks (vs s) u)"
      "current_task (cpu_at v1 d) = current_task (cpu_at (vs s) d)" for u d
    using arg_cong [OF vw, of "\<lambda>v. v_state v u"] arg_cong [OF vw, of "\<lambda>v. v_isidle v u"]
      arg_cong [OF vw, of "\<lambda>v. v_startable v u"] arg_cong [OF vw, of "\<lambda>v. v_cur v d"]
    by (simp_all add: a_put_def Let_def split: if_splits)
  have fl: "in_wait_queue (tasks v1 u) = in_wait_queue (tasks (vs s) u)" for u
    using v1(1) by (auto simp: yield_with_def bind_outcome_eq_Inr dest!: put_task_wait_flag)
  have "wq_ok (s\<lparr>vs := v1\<rparr>)"
  proof (rule wq_ok_kept [OF wok])
    show "tasks_kept (waiting s) (vs s) (vs (s\<lparr>vs := v1\<rparr>))"
      using st fl cur_not_waiting(2) [OF g c] by (auto simp: tasks_kept_def)
  qed simp
  then show ?thesis using v1 st by (intro exI [of _ v1]) (simp add: tm_good_def)
qed

text \<open>A yield that switches to another task.\<close>

lemma tm_yield_good:
  assumes env: "over ops env" and fr: "\<forall>q. fresh q" and g: "tm_good None n s" and c: "c < n"
    and sw: "yield_now env c (vs s) = Inr (v, Some sw)"
  shows "\<exists>s'. tm_yield_now env c s = Inr s' \<and> tm_good None n s' \<and> queues s' = queues s \<and> released s' = released s"
proof -
  obtain v1 where v1: "yield_with False env c (vs s) = Inr v1" "tm_good (Some c) n (s\<lparr>vs := v1\<rparr>)"
    "state (tasks v1 (current_task (cpu_at v1 c))) = Inr Ready"
    using yield_with_tm [OF env fr g c] by auto
  have r: "resched env c v1 = Inr (v, Some sw)" using sw v1(1) by (simp add: yield_now_def)
  obtain v2 sw' s' where s': "resched env c v1 = Inr (v2, Some sw')" "finish_switch c (s\<lparr>vs := v2\<rparr>) = Inr s'"
    "tm_good None n s'" "queues s' = queues s" "released s' = released s"
    using leave_and_finish [OF env v1(2) c, of Ready] v1(3) r by auto
  then show ?thesis using sw r by (intro exI [of _ s']) (simp add: tm_yield_now_def)
qed

end

subsection \<open>Runs\<close>

text \<open>\<open>TResume\<close>: the end of \<^verbatim>\<open>wait\<close> by the task that waited. \<open>TJoin\<close>: one pass of \<^verbatim>\<open>join\<close> by the current task.\<close>

datatype tm_event =
  TSpawn cpu tid
| TYield cpu
| TBlock cpu wq
| TNotifyOne cpu wq bool
| TNotifyAll cpu wq bool
| TNotifyTask cpu wq bool tid
| TRequeue nat wq wq
| TResume bool wq cpu
| TExit cpu i32
| TJoin bool cpu tid

fun tm_perform :: "('q, 'i, 'c) platform \<Rightarrow> tm_event \<Rightarrow> ('q, 'i, 'c, 'f, 'm) tm \<Rightarrow> ('q, 'i, 'c, 'f, 'm) tm outcome" where
  "tm_perform env (TSpawn c t) s = tm_spawn env c t s"
| "tm_perform env (TYield c) s = tm_yield_now env c s"
| "tm_perform env (TBlock c w) s = blocked_resched env c w s"
| "tm_perform env (TNotifyOne c w r) s = bind_outcome (notify_one env c w r s) (\<lambda>(s', b). Inr s')"
| "tm_perform env (TNotifyAll c w r) s = notify_all env c w r s"
| "tm_perform env (TNotifyTask c w r t) s = bind_outcome (notify_task env c w r t s) (\<lambda>(s', b). Inr s')"
| "tm_perform env (TRequeue k w w') s = Inr (fst (requeue k w w' s))"
| "tm_perform env (TResume irq w c) s = bind_outcome (current c (vs s)) (\<lambda>me. Inr (wait_resume irq w me s))"
| "tm_perform env (TExit c x) s = bind_outcome (tm_exit env c x s) (\<lambda>(s', e). Inr s')"
| "tm_perform env (TJoin irq c t) s = bind_outcome (current c (vs s)) (\<lambda>me.
     bind_outcome (join_pass irq env c t me s) (\<lambda>(s', r). Inr s'))"

text \<open>When the callers may make a call: as for the run queues; a yield switches to another task; the main
  task's exit ends the system.\<close>

fun tm_enabled :: "('q \<Rightarrow> tid multiset) \<Rightarrow> ('q \<Rightarrow> nat) \<Rightarrow> ('q, 'i, 'c) platform \<Rightarrow> tm_event \<Rightarrow>
    ('q, 'i, 'c, 'f, 'm) tm \<Rightarrow> bool" where
  "tm_enabled queued bound env (TSpawn c t) s \<longleftrightarrow> c < length (percpus (vs s)) \<and> state (tasks (vs s) t) = Inr Ready \<and>
     \<not> is_idle (tasks (vs s) t) \<and> startable (tasks (vs s) t) \<and> unplaced {} t (view_of queued bound (vs s))"
| "tm_enabled queued bound env (TYield c) s \<longleftrightarrow> c < length (percpus (vs s)) \<and>
     (case yield_now env c (vs s) of Inr (v, Some sw) \<Rightarrow> True | _ \<Rightarrow> False)"
| "tm_enabled queued bound env (TBlock c w) s \<longleftrightarrow> c < length (percpus (vs s)) \<and>
     \<not> is_idle (tasks (vs s) (current_task (cpu_at (vs s) c)))"
| "tm_enabled queued bound env (TNotifyOne c w r) s \<longleftrightarrow> c < length (percpus (vs s))"
| "tm_enabled queued bound env (TNotifyAll c w r) s \<longleftrightarrow> c < length (percpus (vs s))"
| "tm_enabled queued bound env (TNotifyTask c w r t) s \<longleftrightarrow> c < length (percpus (vs s))"
| "tm_enabled queued bound env (TRequeue k w w') s \<longleftrightarrow> True"
| "tm_enabled queued bound env (TResume irq w c) s \<longleftrightarrow> c < length (percpus (vs s))"
| "tm_enabled queued bound env (TExit c x) s \<longleftrightarrow> c < length (percpus (vs s)) \<and>
     \<not> is_idle (tasks (vs s) (current_task (cpu_at (vs s) c))) \<and>
     \<not> is_init (tasks (vs s) (current_task (cpu_at (vs s) c)))"
| "tm_enabled queued bound env (TJoin irq c t) s \<longleftrightarrow> c < length (percpus (vs s)) \<and>
     \<not> is_idle (tasks (vs s) (current_task (cpu_at (vs s) c))) \<and>
     state (tasks (vs s) t) \<in> {Inr Running, Inr Ready, Inr Blocked, Inr Exited}"

fun tm_run :: "('q, 'i, 'c) platform \<Rightarrow> tm_event list \<Rightarrow> ('q, 'i, 'c, 'f, 'm) tm \<Rightarrow> ('q, 'i, 'c, 'f, 'm) tm outcome" where
  "tm_run env [] s = Inr s"
| "tm_run env (e # es) s = bind_outcome (tm_perform env e s) (tm_run env es)"

fun tm_allowed :: "('q \<Rightarrow> tid multiset) \<Rightarrow> ('q \<Rightarrow> nat) \<Rightarrow> ('q, 'i, 'c) platform \<Rightarrow> tm_event list \<Rightarrow>
    ('q, 'i, 'c, 'f, 'm) tm \<Rightarrow> bool" where
  "tm_allowed queued bound env [] s = True"
| "tm_allowed queued bound env (e # es) s = (tm_enabled queued bound env e s \<and>
     (case tm_perform env e s of Inl x \<Rightarrow> True | Inr s' \<Rightarrow> tm_allowed queued bound env es s'))"

context base_scheduler
begin

lemma join_condition_eq: "state (tasks (vs s) t) = Inr x \<Longrightarrow> join_condition t s = Inr (x = Exited)"
  by (simp add: join_condition_def)

lemma current_good: "tm_good gap n s \<Longrightarrow> c < n \<Longrightarrow> current c (vs s) = Inr (current_task (cpu_at (vs s) c))"
  using vs_okD(1) [of qinv iok "vs s" c] by (simp add: tm_good_def current_def)

lemma tm_perform_good:
  assumes env: "over ops env" and fr: "\<forall>q. fresh q" and g: "tm_good None n s" and en: "tm_enabled queued bound env e s"
  shows "\<exists>s'. tm_perform env e s = Inr s' \<and> tm_good None n s'"
proof -
  have len: "length (percpus (vs s)) = n" using g by (simp add: tm_good_def)
  have gf: "gap_free None n s" by (simp add: gap_free_def)
  show ?thesis
  proof (cases e)
    case (TSpawn c t)
    then show ?thesis using tm_spawn_good [OF env fr g, of c t] en len by auto
  next
    case (TYield c)
    then obtain v sw where "yield_now env c (vs s) = Inr (v, Some sw)"
      using en by (auto split: sum.splits prod.splits option.splits)
    then show ?thesis using tm_yield_good [OF env fr g, of c v sw] TYield en len by auto
  next
    case (TBlock c w)
    then show ?thesis using block_good [OF env g, of c w] en len by auto
  next
    case (TNotifyOne c w r)
    then show ?thesis using notify_one_good [OF env fr g gf, of c w r] en len by auto
  next
    case (TNotifyAll c w r)
    then show ?thesis using notify_all_good [OF env fr _ g gf, of c w r] en len by auto
  next
    case (TNotifyTask c w r t)
    then show ?thesis using notify_task_good [OF env fr g gf, of c w r t] en len by auto
  next
    case (TRequeue k w w')
    then show ?thesis using requeue_good(1) [OF g] by simp
  next
    case (TResume irq w c)
    then have c: "c < n" using en len by simp
    then show ?thesis using cancel_good(1) [OF g cur_not_waiting(2) [OF g c]] current_good [OF g c] TResume
      by (simp add: wait_resume_def)
  next
    case (TExit c x)
    then show ?thesis using exit_good [OF env fr g _ refl, of c x] en len by auto
  next
    case (TJoin irq c t)
    then have c: "c < n" and ni: "\<not> is_idle (tasks (vs s) (current_task (cpu_at (vs s) c)))"
      and x: "\<exists>x. state (tasks (vs s) t) = Inr x" using en len by auto
    obtain x where x: "state (tasks (vs s) t) = Inr x" using x by blast
    obtain s' where "blocked_resched env c (ExitOf t) s = Inr s'" "tm_good None n s'"
      using block_good [OF env g c ni, of "ExitOf t"] by blast
    then show ?thesis
      using cancel_good(1) [OF g cur_not_waiting(2) [OF g c]] current_good [OF g c] TJoin join_condition_eq [OF x]
      by (cases "x = Exited") (simp_all add: join_pass_def wait_until_pass_def)
  qed
qed

lemma tm_run_good:
  assumes "over ops env" "\<forall>q. fresh q"
  shows "tm_good None n s \<Longrightarrow> tm_allowed queued bound env es s \<Longrightarrow>
    \<exists>s'. tm_run env es s = Inr s' \<and> tm_good None n s'"
proof (induction es arbitrary: s)
  case (Cons e es)
  then obtain s1 where "tm_perform env e s = Inr s1" "tm_good None n s1"
    using tm_perform_good [OF assms Cons.prems(1)] by auto
  then show ?case using Cons by simp
qed simp

end

end
