(* ===== verification/Coroutine.thy ===== *)
theory Coroutine
  imports Task_Mgmt
begin

text \<open>
  Coroutines: the futures of \<^verbatim>\<open>task_management/src/sched.rs\<close>, the waker queue of \<^verbatim>\<open>waker_queue.rs\<close>, the
  pool of coroutine stacks and the scheduling loop of \<^verbatim>\<open>task.rs\<close>. A call of \<^verbatim>\<open>poll\<close> is one operation
  on the future's own state and the state of the system.
\<close>

subsection \<open>Futures\<close>

datatype poll = PollReady | PollPending

text \<open>The flag of \<^verbatim>\<open>YieldFuture\<close> tells whether it was polled before.\<close>

definition yield_poll :: "('q, 'i, 'c) platform \<Rightarrow> cpu \<Rightarrow> bool \<Rightarrow> ('q, 'i, 'c, 'f, 'm) tm \<Rightarrow>
    (bool \<times> ('q, 'i, 'c, 'f, 'm) tm \<times> poll) outcome" where
  "yield_poll env c flag s =
     (if \<not> flag then
        bind_outcome (current c (vs s)) (\<lambda>t.
        bind_outcome (is_running (tasks (vs s) t)) (\<lambda>r.
        bind_outcome (assert_outcome r) (\<lambda>_.
        bind_outcome (yield_f env c (vs s)) (\<lambda>(v, sw).
          Inr (True, s\<lparr>vs := v\<rparr>, if sw then PollPending else PollReady)))))
      else Inr (flag, s, PollReady))"

definition exit_poll :: "('q, 'i, 'c) platform \<Rightarrow> cpu \<Rightarrow> i32 \<Rightarrow> ('q, 'i, 'c, 'f, 'm) tm \<Rightarrow>
    (('q, 'i, 'c, 'f, 'm) tm \<times> poll) outcome" where
  "exit_poll env c x s =
     bind_outcome (current c (vs s)) (\<lambda>t.
     bind_outcome (is_running (tasks (vs s) t)) (\<lambda>r.
     bind_outcome (assert_outcome r) (\<lambda>_.
     bind_outcome (assert_outcome (\<not> is_idle (tasks (vs s) t))) (\<lambda>_.
     bind_outcome (notify_exit env c t x (on_vs (on_task t (set_state Exited)) s)) (\<lambda>s1.
     bind_outcome (resched_f env c (vs s1)) (\<lambda>(v, sw).
     bind_outcome (assert_outcome sw) (\<lambda>_. Inr (s1\<lparr>vs := v\<rparr>, PollPending))))))))"

text \<open>\<open>preempt\<close>: the build feature of that name.\<close>

definition blocked_poll :: "bool \<Rightarrow> ('q, 'i, 'c) platform \<Rightarrow> cpu \<Rightarrow> wq \<Rightarrow> bool \<Rightarrow> ('q, 'i, 'c, 'f, 'm) tm \<Rightarrow>
    (bool \<times> ('q, 'i, 'c, 'f, 'm) tm \<times> poll) outcome" where
  "blocked_poll preempt env c w flag s =
     (if \<not> flag then
        bind_outcome (current c (vs s)) (\<lambda>t.
        bind_outcome (is_running (tasks (vs s) t)) (\<lambda>r.
        bind_outcome (assert_outcome r) (\<lambda>_.
        bind_outcome (assert_outcome (\<not> is_idle (tasks (vs s) t))) (\<lambda>_.
        bind_outcome (assert_outcome (preempt \<longrightarrow> can_preempt 2 (tasks (vs s) t))) (\<lambda>_.
        let s1 = park w t s in
        bind_outcome (resched_f env c (vs s1)) (\<lambda>(v, sw).
          Inr (True, s1\<lparr>vs := v\<rparr>, if sw then PollPending else PollReady)))))))
      else Inr (flag, s, PollReady))"

text \<open>
  The state of the future of \<^verbatim>\<open>wait_until_f\<close>: at the head of its loop, or inside \<^verbatim>\<open>.await\<close>. One step runs
  up to the next such point; \<open>None\<close>: the future is finished.
\<close>

datatype wait_state = LoopHead | Awaiting bool

definition wait_until_f_step :: "bool \<Rightarrow> bool \<Rightarrow> ('q, 'i, 'c) platform \<Rightarrow> cpu \<Rightarrow> wq \<Rightarrow>
    (('q, 'i, 'c, 'f, 'm) tm \<Rightarrow> bool outcome) \<Rightarrow> tid \<Rightarrow> wait_state \<Rightarrow> ('q, 'i, 'c, 'f, 'm) tm \<Rightarrow>
    (wait_state option \<times> ('q, 'i, 'c, 'f, 'm) tm \<times> poll) outcome" where
  "wait_until_f_step irq preempt env c w condition me ws s =
     (case ws of
        LoopHead \<Rightarrow> bind_outcome (condition s) (\<lambda>b.
          if b then Inr (None, cancel_events irq w me False s, PollReady)
          else Inr (Some (Awaiting False), s, PollReady))
      | Awaiting flag \<Rightarrow> bind_outcome (blocked_poll preempt env c w flag s) (\<lambda>(flag', s', p).
          Inr (Some (if p = PollReady then LoopHead else Awaiting flag'), s', p)))"

text \<open>\<^verbatim>\<open>wait_f\<close>: the same around one \<^verbatim>\<open>.await\<close>.\<close>

definition wait_f_step :: "bool \<Rightarrow> bool \<Rightarrow> ('q, 'i, 'c) platform \<Rightarrow> cpu \<Rightarrow> wq \<Rightarrow> tid \<Rightarrow> bool \<Rightarrow>
    ('q, 'i, 'c, 'f, 'm) tm \<Rightarrow> (bool \<times> ('q, 'i, 'c, 'f, 'm) tm \<times> poll) outcome" where
  "wait_f_step irq preempt env c w me flag s =
     bind_outcome (blocked_poll preempt env c w flag s) (\<lambda>(flag', s', p).
       Inr (flag', if p = PollReady then cancel_events irq w me False s' else s', p))"

definition join_f_step :: "bool \<Rightarrow> bool \<Rightarrow> ('q, 'i, 'c) platform \<Rightarrow> cpu \<Rightarrow> tid \<Rightarrow> tid \<Rightarrow> wait_state \<Rightarrow>
    ('q, 'i, 'c, 'f, 'm) tm \<Rightarrow> (wait_state option \<times> ('q, 'i, 'c, 'f, 'm) tm \<times> i32 option) outcome" where
  "join_f_step irq preempt env c t me ws s =
     bind_outcome (wait_until_f_step irq preempt env c (ExitOf t) (join_condition t) me ws s) (\<lambda>(ws', s', p).
       Inr (ws', s', if ws' = None then Some (exit_code t s') else None))"

subsection \<open>Wakers and the waker queue\<close>

text \<open>A waker is the task it wakes.\<close>

definition wake :: "('q, 'i, 'c) platform \<Rightarrow> cpu \<Rightarrow> tid \<Rightarrow> ('q, 'i, 'c, 'f, 'm) tm \<Rightarrow>
    ('q, 'i, 'c, 'f, 'm) tm outcome" where
  "wake env c t s = bind_outcome (unblock_task env t True c c (vs s)) (\<lambda>v. Inr (s\<lparr>vs := v\<rparr>))"

definition put_wakers :: "nat \<Rightarrow> tid list \<Rightarrow> ('q, 'i, 'c, 'f, 'm) tm \<Rightarrow> ('q, 'i, 'c, 'f, 'm) tm" where
  "put_wakers w ts s = s\<lparr>waker_queues := (waker_queues s)(w := ts)\<rparr>"

text \<open>\<^verbatim>\<open>WakerBlockFuture\<close>: \<open>me\<close> is the task of the context's waker.\<close>

definition waker_poll :: "nat \<Rightarrow> tid \<Rightarrow> bool \<Rightarrow> ('q, 'i, 'c, 'f, 'm) tm \<Rightarrow> bool \<times> ('q, 'i, 'c, 'f, 'm) tm \<times> poll" where
  "waker_poll w me flag s =
     (if \<not> flag then (True, put_wakers w (waker_queues s w @ [me]) s, PollPending) else (flag, s, PollReady))"

definition waker_wait_until_f_step :: "nat \<Rightarrow> (('q, 'i, 'c, 'f, 'm) tm \<Rightarrow> bool outcome) \<Rightarrow> tid \<Rightarrow> wait_state \<Rightarrow>
    ('q, 'i, 'c, 'f, 'm) tm \<Rightarrow> (wait_state option \<times> ('q, 'i, 'c, 'f, 'm) tm \<times> poll) outcome" where
  "waker_wait_until_f_step w condition me ws s =
     (case ws of
        LoopHead \<Rightarrow> bind_outcome (condition s) (\<lambda>b.
          Inr (if b then None else Some (Awaiting False), s, PollReady))
      | Awaiting flag \<Rightarrow> (case waker_poll w me flag s of (flag', s', p) \<Rightarrow>
          Inr (Some (if p = PollReady then LoopHead else Awaiting flag'), s', p)))"

definition waker_notify_one :: "('q, 'i, 'c) platform \<Rightarrow> cpu \<Rightarrow> nat \<Rightarrow> ('q, 'i, 'c, 'f, 'm) tm \<Rightarrow>
    (('q, 'i, 'c, 'f, 'm) tm \<times> bool) outcome" where
  "waker_notify_one env c w s =
     (case waker_queues s w of
        [] \<Rightarrow> Inr (s, False)
      | t # ts \<Rightarrow> bind_outcome (wake env c t (put_wakers w ts s)) (\<lambda>s'. Inr (s', True)))"

lemma put_wakers_simps [simp]:
  "vs (put_wakers w ts s) = vs s" "waker_queues (put_wakers w ts s) = (waker_queues s)(w := ts)"
  by (simp_all add: put_wakers_def)

lemma waker_notify_one_shrinks:
  "waker_notify_one env c w s = Inr (s', True) \<Longrightarrow> length (waker_queues s' w) < length (waker_queues s w)"
  by (auto simp: waker_notify_one_def wake_def bind_outcome_eq_Inr split: list.splits)

function waker_notify_all :: "('q, 'i, 'c) platform \<Rightarrow> cpu \<Rightarrow> nat \<Rightarrow> ('q, 'i, 'c, 'f, 'm) tm \<Rightarrow>
    ('q, 'i, 'c, 'f, 'm) tm outcome" where
  "waker_notify_all env c w s =
     (case waker_notify_one env c w s of
        Inl x \<Rightarrow> Inl x
      | Inr (s', b) \<Rightarrow> if b then waker_notify_all env c w s' else Inr s')"
  by pat_completeness auto
termination by (relation "measure (\<lambda>(env, c, w, s). length (waker_queues s w))") (auto dest: waker_notify_one_shrinks)

declare waker_notify_all.simps [simp del]

definition waker_requeue :: "nat \<Rightarrow> nat \<Rightarrow> nat \<Rightarrow> ('q, 'i, 'c, 'f, 'm) tm \<Rightarrow> ('q, 'i, 'c, 'f, 'm) tm \<times> nat" where
  "waker_requeue n w target s =
     (let k = min n (length (waker_queues s w));
          ts = take k (waker_queues s w);
          s1 = put_wakers w (drop k (waker_queues s w)) s
      in (if ts = [] then s1 else put_wakers target (waker_queues s1 target @ ts) s1, k))"

definition waker_len :: "nat \<Rightarrow> ('q, 'i, 'c, 'f, 'm) tm \<Rightarrow> nat" where
  "waker_len w s = length (waker_queues s w)"

definition waker_is_empty :: "nat \<Rightarrow> ('q, 'i, 'c, 'f, 'm) tm \<Rightarrow> bool" where
  "waker_is_empty w s \<longleftrightarrow> waker_queues s w = []"

subsection \<open>The scheduling loop of coroutines\<close>

text \<open>The pool of a CPU, the stack pushed last first.\<close>

definition alloc_stack_for_coroutine :: "(usize \<Rightarrow> usize) \<Rightarrow> usize \<Rightarrow> cpu \<Rightarrow> ('q, 'i, 'c, 'f, 'm) tm \<Rightarrow>
    (('q, 'i, 'c, 'f, 'm) tm \<times> task_stack) outcome" where
  "alloc_stack_for_coroutine malloc sz c s =
     (case stack_pool s c of
        k # ks \<Rightarrow> Inr (s\<lparr>stack_pool := (stack_pool s)(c := ks)\<rparr>, k)
      | [] \<Rightarrow> bind_outcome (stack_alloc malloc sz) (\<lambda>k. Inr (s, k)))"

definition recycle_stack_of_coroutine :: "cpu \<Rightarrow> task_stack \<Rightarrow> ('q, 'i, 'c, 'f, 'm) tm \<Rightarrow> ('q, 'i, 'c, 'f, 'm) tm" where
  "recycle_stack_of_coroutine c k s = s\<lparr>stack_pool := (stack_pool s)(c := k # stack_pool s c)\<rparr>"

definition put_stack :: "tid \<Rightarrow> task_stack option \<Rightarrow> ('q, 'i, 'c, 'f, 'm) tm \<Rightarrow> ('q, 'i, 'c, 'f, 'm) tm" where
  "put_stack t k s = on_vs (on_task t (\<lambda>i. i\<lparr>kstack := k\<rparr>)) s"

text \<open>
  The end of a pass, after the poll of task \<open>me\<close>: a coroutine that is still running waits for a waker.
  \<open>True\<close>: the next task is a coroutine without a stack, it takes over this one and the loop goes on;
  \<open>False\<close>: the CPU has switched to the context of the next task.
\<close>

definition after_poll :: "('q, 'i, 'c) platform \<Rightarrow> cpu \<Rightarrow> tid \<Rightarrow> ('q, 'i, 'c, 'f, 'm) tm \<Rightarrow>
    (('q, 'i, 'c, 'f, 'm) tm \<times> bool) outcome" where
  "after_poll env c me s =
     bind_outcome (is_running (tasks (vs s) me)) (\<lambda>r.
     bind_outcome (if r then bind_outcome (resched_f env c (on_task me (set_state Blocked) (vs s)))
                       (\<lambda>(v, sw). Inr (s\<lparr>vs := v\<rparr>))
                   else Inr s) (\<lambda>s1.
     case kstack (tasks (vs s1) me) of
       None \<Rightarrow> Inl Panic
     | Some stack \<Rightarrow>
         let s2 = put_stack me None s1 in
         bind_outcome (current c (vs s2)) (\<lambda>next.
         let ti = tasks (vs s2) next in
         if kstack ti = None \<and> \<not> is_init ti \<and> \<not> is_idle ti
         then Inr (put_stack next (Some stack) s2, True)
         else Inr (recycle_stack_of_coroutine c stack s2, False))))"

text \<open>One pass: \<open>pollf f c s\<close> polls the future \<open>f\<close> of the current task on CPU \<open>c\<close>.\<close>

definition coroutine_pass :: "('q, 'i, 'c) platform \<Rightarrow>
    ('f \<Rightarrow> cpu \<Rightarrow> ('q, 'i, 'c, 'f, 'm) tm \<Rightarrow> ('q, 'i, 'c, 'f, 'm) tm outcome) \<Rightarrow> cpu \<Rightarrow>
    ('q, 'i, 'c, 'f, 'm) tm \<Rightarrow> (('q, 'i, 'c, 'f, 'm) tm \<times> bool) outcome" where
  "coroutine_pass env pollf c s =
     bind_outcome (finish_switch c s) (\<lambda>s1.
     bind_outcome (current c (vs s1)) (\<lambda>me.
     case ext_future (exts s1 me) of
       None \<Rightarrow> Inl Panic
     | Some f \<Rightarrow> bind_outcome (pollf f c s1) (after_poll env c me)))"

text \<open>The loop; it may not end.\<close>

partial_function (option) coroutine_schedule :: "('q, 'i, 'c) platform \<Rightarrow>
    ('f \<Rightarrow> cpu \<Rightarrow> ('q, 'i, 'c, 'f, 'm) tm \<Rightarrow> ('q, 'i, 'c, 'f, 'm) tm outcome) \<Rightarrow> cpu \<Rightarrow>
    ('q, 'i, 'c, 'f, 'm) tm \<Rightarrow> ('q, 'i, 'c, 'f, 'm) tm outcome option" where
  "coroutine_schedule env pollf c s =
     (case coroutine_pass env pollf c s of
        Inl x \<Rightarrow> Some (Inl x)
      | Inr (s', b) \<Rightarrow> if b then coroutine_schedule env pollf c s' else Some (Inr s'))"

end
