(* ===== verification/Coroutine_Stacks.thy ===== *)
theory Coroutine_Stacks
  imports Task_Mgmt_Run Coroutine
begin

text \<open>
  Who has a stack: every task that runs has one (init and idle tasks run on the stack of the boot), and
  no operation of the run queues or of \<^verbatim>\<open>task_management\<close> takes a stack from a task; only the
  coroutine loop does, from the coroutine it has just left.
\<close>

definition has_stack :: "'c task_inner \<Rightarrow> bool" where
  "has_stack i \<longleftrightarrow> kstack i \<noteq> None \<or> is_init i \<or> is_idle i"

lemma has_stack_frame [task_simps]:
  "has_stack (set_on_cpu b t) = has_stack t" "has_stack (set_in_wait_queue b t) = has_stack t"
  "has_stack (set_preempt_pending b t) = has_stack t" "has_stack (set_state s t) = has_stack t"
  "has_stack (timer_ticket_expired t) = has_stack t"
  by (simp_all add: has_stack_def is_idle_def is_init_def set_on_cpu_def set_in_wait_queue_def
      set_preempt_pending_def set_state_def timer_ticket_expired_def)

lemma set_kstack_has_stack: "set_kstack ci ca t = Inr t' \<Longrightarrow> has_stack t'"
  by (auto simp: set_kstack_def has_stack_def is_idle_def is_init_def Let_def split: if_splits option.splits)

text \<open>The currents of \<open>v'\<close> are those of \<open>v\<close> or have a stack, and no one lost a stack.\<close>

definition stacks_kept :: "('q, 'i, 'c) vsched \<Rightarrow> ('q, 'i, 'c) vsched \<Rightarrow> bool" where
  "stacks_kept v v' \<longleftrightarrow> (\<forall>u. has_stack (tasks v u) \<longrightarrow> has_stack (tasks v' u)) \<and>
     (\<forall>c. current_task (cpu_at v' c) = current_task (cpu_at v c) \<or> has_stack (tasks v' (current_task (cpu_at v' c))))"

lemma stacks_kept_refl [simp]: "stacks_kept v v"
  by (simp add: stacks_kept_def)

lemma stacks_kept_trans: "stacks_kept v v1 \<Longrightarrow> stacks_kept v1 v2 \<Longrightarrow> stacks_kept v v2"
  unfolding stacks_kept_def by metis

lemma get_run_queue_SomeD: "get_run_queue c s = Inr p \<Longrightarrow> c < length (percpus s) \<and> p = cpu_at s c"
  by (auto simp: get_run_queue_def cpu_at_def split: if_splits option.splits)

lemma stacks_kept_on_task:
  "(has_stack (tasks v t) \<Longrightarrow> has_stack (f (tasks v t))) \<Longrightarrow> stacks_kept v (on_task t f v)"
  by (simp add: stacks_kept_def)

lemma stacks_kept_on_task_eq:
  assumes "\<And>i. has_stack (f i) = has_stack i"
  shows "stacks_kept (on_task t f v) v' = stacks_kept v v'" "stacks_kept v (on_task t f v') = stacks_kept v v'"
  using assms by (auto simp: stacks_kept_def)

lemmas stacks_kept_flags [simp] =
  stacks_kept_on_task_eq [OF has_stack_frame(1)] stacks_kept_on_task_eq [OF has_stack_frame(2)]
  stacks_kept_on_task_eq [OF has_stack_frame(3)] stacks_kept_on_task_eq [OF has_stack_frame(4)]
  stacks_kept_on_task_eq [OF has_stack_frame(5)]

lemma stacks_kept_sched: "get_run_queue c v = Inr p \<Longrightarrow> stacks_kept v (set_sched c p qi v)"
  by (auto simp: stacks_kept_def dest: get_run_queue_SomeD)

lemma stacks_kept_percpu:
  "get_run_queue c v = Inr p \<Longrightarrow> current_task p' = current_task p \<Longrightarrow> stacks_kept v (set_percpu c p' v)"
  by (auto simp: stacks_kept_def dest: get_run_queue_SomeD)

lemma put_prev_stacks: "put_prev env c t p v = Inr v' \<Longrightarrow> stacks_kept v v'"
  by (auto simp: put_prev_def bind_outcome_eq_Inr intro: stacks_kept_sched)

lemma spawn_stacks: "spawn env c t v = Inr v' \<Longrightarrow> stacks_kept v v'"
  by (auto simp: spawn_def bind_outcome_eq_Inr intro: stacks_kept_sched)

lemma pick_stacks: "pick_or_idle env c v = Inr (v', t) \<Longrightarrow> stacks_kept v v'"
  by (auto simp: pick_or_idle_def bind_outcome_eq_Inr intro: stacks_kept_sched)

lemma put_task_stacks: "put_task_with_state env c t x p v = Inr (v', b) \<Longrightarrow> stacks_kept v v'"
proof -
  let ?ti = "fst (transition_state x Ready (tasks v t))"
  have "has_stack ?ti = has_stack (tasks v t)"
    by (simp add: transition_state_def has_stack_def is_init_def is_idle_def)
  then have "stacks_kept v (on_task t (\<lambda>_. ?ti) v)" by (intro stacks_kept_on_task) simp
  moreover assume "put_task_with_state env c t x p v = Inr (v', b)"
  ultimately show ?thesis
    by (auto simp: put_task_with_state_def Let_def bind_outcome_eq_Inr split: prod.splits if_splits
        intro: stacks_kept_trans dest!: put_prev_stacks)
qed

lemma unblock_stacks: "unblock_task env t r d src v = Inr v' \<Longrightarrow> stacks_kept v v'"
  by (auto simp: unblock_task_def bind_outcome_eq_Inr task_simps split: if_splits
      intro: stacks_kept_trans dest!: put_task_stacks)

lemma take_prev_stacks: "take_prev_task_and_clear_on_cpu c v = Inr (v', p) \<Longrightarrow> stacks_kept v v'"
  by (auto simp: take_prev_task_and_clear_on_cpu_def bind_outcome_eq_Inr split: option.splits
      intro!: stacks_kept_trans [OF stacks_kept_percpu stacks_kept_on_task] simp: task_simps)

lemma switch_to_stacks: "switch_to env c p t v = Inr (v', sw) \<Longrightarrow> stacks_kept v v'"
  by (auto simp: switch_to_def Let_def bind_outcome_eq_Inr task_simps stacks_kept_def
      split: if_splits dest!: set_kstack_has_stack get_run_queue_SomeD)

lemma resched_stacks: "resched env c v = Inr (v', sw) \<Longrightarrow> stacks_kept v v'"
  by (auto simp: resched_def bind_outcome_eq_Inr intro: stacks_kept_trans dest!: switch_to_stacks pick_stacks)

lemma yield_with_stacks: "yield_with p env c v = Inr v' \<Longrightarrow> stacks_kept v v'"
  by (auto simp: yield_with_def bind_outcome_eq_Inr dest!: put_task_stacks)

lemma finish_stacks: "finish_switch c s = Inr s' \<Longrightarrow> stacks_kept (vs s) (vs s')"
  by (auto simp: finish_switch_def bind_outcome_eq_Inr dest: take_prev_stacks)

lemma park_stacks [simp]:
  "stacks_kept (vs (park w t s)) v = stacks_kept (vs s) v" "stacks_kept v (vs (park w t s)) = stacks_kept v (vs s)"
  by (auto simp: park_def stacks_kept_def task_simps)

lemma unblock_one_stacks: "unblock_one_task env c t r s = Inr s' \<Longrightarrow> stacks_kept (vs s) (vs s')"
  by (auto simp: unblock_one_task_def Let_def bind_outcome_eq_Inr task_simps
      intro: stacks_kept_trans dest!: unblock_stacks)

lemma notify_one_stacks: "notify_one env c w r s = Inr (s', b) \<Longrightarrow> stacks_kept (vs s) (vs s')"
  by (auto simp: notify_one_def bind_outcome_eq_Inr split: list.splits dest!: unblock_one_stacks)

lemma notify_all_stacks: "notify_all env c w r s = Inr s' \<Longrightarrow> stacks_kept (vs s) (vs s')"
proof (induction env c w r s rule: notify_all.induct)
  case (1 env c w r s)
  obtain s1 b where n: "notify_one env c w r s = Inr (s1, b)"
    using 1(2) by (auto simp: notify_all.simps [of env c w r s] split: sum.splits)
  then show ?case using 1 notify_one_stacks [OF n]
    by (auto simp: notify_all.simps [of env c w r s] split: if_splits intro: stacks_kept_trans)
qed

lemma notify_task_stacks: "notify_task env c w r t s = Inr (s', b) \<Longrightarrow> stacks_kept (vs s) (vs s')"
  by (auto simp: notify_task_def bind_outcome_eq_Inr split: if_splits dest!: unblock_one_stacks)

lemma blocked_stacks: "blocked_resched env c w s = Inr s' \<Longrightarrow> stacks_kept (vs s) (vs s')"
  by (auto simp: blocked_resched_def Let_def bind_outcome_eq_Inr
      intro: stacks_kept_trans dest!: finish_stacks resched_stacks)

lemma cancel_stacks: "stacks_kept (vs s) (vs (cancel_events irq w me b s))"
  by (auto simp: cancel_events_def Let_def stacks_kept_def task_simps)

lemma exit_stacks: "tm_exit env c x s = Inr (s', e) \<Longrightarrow> stacks_kept (vs s) (vs s')"
  by (auto simp: tm_exit_def notify_exit_def set_exit_code_def put_ext_def bind_outcome_eq_Inr task_simps
      split: if_splits option.splits dest!: finish_stacks resched_stacks notify_all_stacks)
    (blast intro: stacks_kept_trans)

lemma tm_perform_stacks: "tm_perform env e s = Inr s' \<Longrightarrow> stacks_kept (vs s) (vs s')"
proof (cases e)
  case (TYield c)
  then show "tm_perform env e s = Inr s' \<Longrightarrow> ?thesis"
    by (auto simp: tm_yield_now_def yield_now_def bind_outcome_eq_Inr intro: stacks_kept_trans
        dest!: finish_stacks resched_stacks yield_with_stacks)
next
  case (TRequeue k w w')
  then show "tm_perform env e s = Inr s' \<Longrightarrow> ?thesis" by (auto simp: requeue_def Let_def)
next
  case (TJoin irq c t)
  then show "tm_perform env e s = Inr s' \<Longrightarrow> ?thesis"
    by (auto simp: join_pass_def wait_until_pass_def bind_outcome_eq_Inr split: if_splits
        intro: cancel_stacks dest!: blocked_stacks)
qed (auto simp: tm_spawn_def wait_resume_def bind_outcome_eq_Inr intro: cancel_stacks
    dest!: spawn_stacks blocked_stacks notify_one_stacks notify_all_stacks notify_task_stacks exit_stacks)

end
