(* ===== verification/Coroutine_Run.thy ===== *)
theory Coroutine_Run
  imports Coroutine_Stacks
begin

text \<open>
  Coroutines on the run queues: a coroutine that yields, blocks, exits or waits for a waker gives up
  the CPU in \<^verbatim>\<open>resched_f\<close>, hands its stack on in \<^verbatim>\<open>coroutine_schedule\<close>, and the next task finishes the
  switch at its resume point. These passes, in any order with the calls of threads, keep the
  invariant of the wait queues and run queues, and no task runs without a stack.
\<close>

subsection \<open>The end of a pass\<close>

text \<open>The lines of \<^verbatim>\<open>coroutine_schedule\<close> after the rescheduling: the stack goes on.\<close>

definition hand_stack :: "cpu \<Rightarrow> tid \<Rightarrow> ('q, 'i, 'c, 'f, 'm) tm \<Rightarrow> (('q, 'i, 'c, 'f, 'm) tm \<times> bool) outcome" where
  "hand_stack c me s =
     (case kstack (tasks (vs s) me) of
        None \<Rightarrow> Inl Panic
      | Some stack \<Rightarrow>
          let s2 = put_stack me None s in
          bind_outcome (current c (vs s2)) (\<lambda>next.
          let ti = tasks (vs s2) next in
          if kstack ti = None \<and> \<not> is_init ti \<and> \<not> is_idle ti
          then Inr (put_stack next (Some stack) s2, True)
          else Inr (recycle_stack_of_coroutine c stack s2, False)))"

lemma after_poll_left:
  "is_running (tasks (vs s) me) = Inr False \<Longrightarrow> after_poll env c me s = hand_stack c me s"
  by (simp add: after_poll_def hand_stack_def)

lemma after_poll_running:
  "is_running (tasks (vs s) me) = Inr True \<Longrightarrow>
    after_poll env c me s = bind_outcome (resched_f env c (on_task me (set_state Blocked) (vs s)))
      (\<lambda>(v, sw). hand_stack c me (s\<lparr>vs := v\<rparr>))"
  by (cases "resched_f env c (on_task me (set_state Blocked) (vs s))")
    (auto simp: after_poll_def hand_stack_def)

definition is_coroutine :: "'c task_inner \<Rightarrow> bool" where
  "is_coroutine i \<longleftrightarrow> alloc_stack i \<noteq> None \<and> coroutine_entry i \<noteq> None \<and> \<not> is_init i \<and> \<not> is_idle i"

lemma is_coroutine_frame [task_simps]:
  "is_coroutine (set_on_cpu b t) = is_coroutine t" "is_coroutine (set_in_wait_queue b t) = is_coroutine t"
  "is_coroutine (set_preempt_pending b t) = is_coroutine t" "is_coroutine (set_state s t) = is_coroutine t"
  "is_coroutine (t\<lparr>kstack := k\<rparr>) = is_coroutine t"
  by (simp_all add: is_coroutine_def is_idle_def is_init_def set_on_cpu_def set_in_wait_queue_def
      set_preempt_pending_def set_state_def)

lemma coroutine_stack: "is_coroutine i \<Longrightarrow> has_stack i \<longleftrightarrow> kstack i \<noteq> None"
  by (auto simp: is_coroutine_def has_stack_def)

lemma coroutine_startable: "is_coroutine i \<Longrightarrow> startable i"
  by (simp add: is_coroutine_def startable_def)

text \<open>What \<^verbatim>\<open>resched_f\<close> and yielding leave alone.\<close>

definition same_stack :: "'c task_inner \<Rightarrow> 'c task_inner \<Rightarrow> bool" where
  "same_stack i j \<longleftrightarrow> kstack j = kstack i \<and> is_init j = is_init i \<and> is_idle j = is_idle i \<and>
     is_coroutine j = is_coroutine i \<and> in_wait_queue j = in_wait_queue i"

lemma same_stack_refl [simp]: "same_stack i i"
  by (simp add: same_stack_def)

lemma same_stack_has: "same_stack i j \<Longrightarrow> has_stack j = has_stack i"
  by (simp add: same_stack_def has_stack_def)

lemma same_stack_frame [simp]:
  "same_stack i (set_on_cpu b j) = same_stack i j" "same_stack i (set_preempt_pending b j) = same_stack i j"
  "same_stack i (set_state x j) = same_stack i j"
  by (simp_all add: same_stack_def is_coroutine_def is_idle_def is_init_def in_wait_queue_def set_on_cpu_def
      set_preempt_pending_def set_state_def)

lemma resched_f_same: "resched_f env c v = Inr (v', sw) \<Longrightarrow> same_stack (tasks v u) (tasks v' u)"
  by (auto simp: resched_f_def bind_outcome_eq_Inr Let_def split: if_splits dest!: pick_tasks)

lemma put_task_same: "put_task_with_state env c t x p v = Inr (v', b) \<Longrightarrow> same_stack (tasks v u) (tasks v' u)"
proof -
  have "same_stack (tasks v t) (fst (transition_state x Ready (tasks v t)))"
    by (simp add: transition_state_def same_stack_def is_coroutine_def is_idle_def is_init_def in_wait_queue_def)
  moreover assume "put_task_with_state env c t x p v = Inr (v', b)"
  ultimately show ?thesis
    by (auto simp: put_task_with_state_def Let_def bind_outcome_eq_Inr split: prod.splits if_splits
        dest!: put_prev_tasks)
qed

lemma yield_with_same: "yield_with p env c v = Inr v' \<Longrightarrow> same_stack (tasks v u) (tasks v' u)"
  by (auto simp: yield_with_def bind_outcome_eq_Inr dest!: put_task_same)

text \<open>Every task that runs has a stack.\<close>

definition runners :: "nat \<Rightarrow> ('q, 'i, 'c, 'f, 'm) tm \<Rightarrow> bool" where
  "runners n s \<longleftrightarrow> (\<forall>d < n. has_stack (tasks (vs s) (current_task (cpu_at (vs s) d))))"

lemma runners_kept: "stacks_kept (vs s) (vs s') \<Longrightarrow> runners n s \<Longrightarrow> runners n s'"
  unfolding runners_def stacks_kept_def by metis

subsection \<open>Finishing a switch\<close>

context base_scheduler
begin

lemma finish_good:
  assumes ok: "vs_ok qinv iok (vs s)" and inv: "view_inv None {c} (view_of queued bound (vs s))"
    and len: "length (percpus (vs s)) = n" and wok: "wq_ok s" and c: "c < n"
    and p: "prev_task (cpu_at (vs s) c) = Some p" "state (tasks (vs s) p) = Inr x"
  shows "\<exists>s'. finish_switch c s = Inr s' \<and> tm_good None n s' \<and> queues s' = queues s \<and> exts s' = exts s \<and>
    stack_pool s' = stack_pool s \<and> released s' = (if x = Exited then p # released s else released s) \<and>
    (\<forall>u. state (tasks (vs s') u) = state (tasks (vs s) u))"
proof -
  have cc: "c < length (percpus (vs s))" using c len by simp
  obtain v' where v': "take_prev_task_and_clear_on_cpu c (vs s) = Inr (v', p)" "vs_ok qinv iok v'"
    "length (percpus v') = n" "view_of queued bound v' = a_clear c p (view_of queued bound (vs s))"
    using clear_refines [OF ok cc p(1)] len by auto
  have inv2: "view_inv None {} (view_of queued bound v')"
    using clear_inv [OF inv, of c p] cc p(1) v'(4) by simp
  have vs2: "state (tasks v' u) = state (tasks (vs s) u)" "is_idle (tasks v' u) = is_idle (tasks (vs s) u)"
      "startable (tasks v' u) = startable (tasks (vs s) u)" for u
    using arg_cong [OF v'(4), of "\<lambda>v. v_state v u"] arg_cong [OF v'(4), of "\<lambda>v. v_isidle v u"]
      arg_cong [OF v'(4), of "\<lambda>v. v_startable v u"] by (simp_all add: a_clear_def)
  let ?s = "s\<lparr>vs := v', released := if x = Exited then p # released s else released s\<rparr>"
  have "finish_switch c s = Inr ?s" using v'(1) vs2 p(2) by (simp add: finish_switch_def)
  moreover have "wq_ok ?s"
    by (rule wq_ok_kept [OF wok]) (simp_all add: tasks_kept_def vs2 take_prev_wait_flag [OF v'(1)])
  ultimately show ?thesis using v' inv2 vs2 by (intro exI [of _ ?s]) (simp add: tm_good_def)
qed

text \<open>Handing on the stack of the coroutine \<open>p\<close> that has been left for the task \<open>t\<close>.\<close>

lemma hand_stack_good:
  fixes s :: "('q, 'i, 'c, 'f, 'm) tm"
  assumes ok: "vs_ok qinv iok (vs s)" and c: "c < length (percpus (vs s))"
    and t: "current_task (cpu_at (vs s) c) = t" "t \<noteq> p" "startable (tasks (vs s) t)"
    and p: "is_coroutine (tasks (vs s) p)" "kstack (tasks (vs s) p) = Some k"
  shows "\<exists>s' b. hand_stack c p s = Inr (s', b) \<and> vs_ok qinv iok (vs s') \<and>
    view_of queued bound (vs s') = view_of queued bound (vs s) \<and> queues s' = queues s \<and> exts s' = exts s \<and>
    released s' = released s \<and> has_stack (tasks (vs s') t) \<and>
    (\<forall>u. u \<noteq> p \<longrightarrow> has_stack (tasks (vs s) u) \<longrightarrow> has_stack (tasks (vs s') u)) \<and>
    (\<forall>u. in_wait_queue (tasks (vs s') u) = in_wait_queue (tasks (vs s) u))"
proof -
  let ?s2 = "put_stack p None s"
  have cur: "current c (vs ?s2) = Inr t"
    using vs_okD(1) [OF ok c] t by (simp add: put_stack_def current_def)
  have st: "state (i\<lparr>kstack := x\<rparr>) = state i" "on_cpu (i\<lparr>kstack := x\<rparr>) = on_cpu i"
    "is_idle (i\<lparr>kstack := x\<rparr>) = is_idle i" "is_init (i\<lparr>kstack := x\<rparr>) = is_init i" for i x
    by (simp_all add: task_simps)
  let ?ti = "tasks (vs s) t"
  let ?free = "kstack ?ti = None \<and> \<not> is_init ?ti \<and> \<not> is_idle ?ti"
  let ?s' = "if ?free then put_stack t (Some k) ?s2 else recycle_stack_of_coroutine c k ?s2"
  have hs: "hand_stack c p s = Inr (?s', ?free)"
    using p t cur by (auto simp: hand_stack_def Let_def put_stack_def)
  have vs': "vs ?s' = (if ?free then on_task t (\<lambda>i. i\<lparr>kstack := Some k\<rparr>) else (\<lambda>v. v))
      (on_task p (\<lambda>i. i\<lparr>kstack := None\<rparr>) (vs s))"
    by (simp add: put_stack_def recycle_stack_of_coroutine_def)
  have "startable (tasks (vs ?s') u) = startable (tasks (vs s) u)" for u
  proof -
    have "startable ((tasks (vs s) p)\<lparr>kstack := None\<rparr>)" "startable (tasks (vs s) p)"
      using p(1) by (simp_all add: coroutine_startable task_simps)
    moreover have "startable (i\<lparr>kstack := Some k\<rparr>)" for i :: "'c task_inner" by (simp add: startable_def)
    ultimately show ?thesis unfolding vs' using t by auto
  qed
  then have "view_of queued bound (vs ?s') = view_of queued bound (vs s)"
    unfolding vs' by (auto simp: view_of_def fun_eq_iff task_simps)
  moreover have "vs_ok qinv iok (vs ?s')" unfolding vs' using ok by simp
  moreover have "queues ?s' = queues s" "exts ?s' = exts s" "released ?s' = released s"
    by (simp_all add: put_stack_def recycle_stack_of_coroutine_def)
  moreover have "has_stack (tasks (vs ?s') t)" unfolding vs' using t by (auto simp: has_stack_def st)
  moreover have "has_stack (tasks (vs ?s') u)" if "u \<noteq> p" "has_stack (tasks (vs s) u)" for u
    unfolding vs' using that by (auto simp: has_stack_def st)
  moreover have "in_wait_queue (tasks (vs ?s') u) = in_wait_queue (tasks (vs s) u)" for u
    unfolding vs' by (auto simp: task_simps)
  ultimately show ?thesis using hs by blast
qed

text \<open>A coroutine that has given up the CPU: the CPU reschedules, the stack goes on, the switch is finished.\<close>

lemma co_leave:
  assumes env: "over ops env" and g: "tm_good (Some c) n s" and rn: "runners n s" and c: "c < n"
    and p: "current_task (cpu_at (vs s) c) = p" "is_coroutine (tasks (vs s) p)" "state (tasks (vs s) p) = Inr x"
    and x: "x \<noteq> Ready \<or> (\<exists>v. resched_f env c (vs s) = Inr (v, True))"
  shows "\<exists>v s1 b s'. resched_f env c (vs s) = Inr (v, True) \<and> state (tasks v p) = Inr x \<and>
    hand_stack c p (s\<lparr>vs := v\<rparr>) = Inr (s1, b) \<and> finish_switch c s1 = Inr s' \<and>
    tm_good None n s' \<and> runners n s' \<and> queues s' = queues s \<and> exts s' = exts s \<and>
    released s' = (if x = Exited then p # released s else released s)"
proof -
  let ?v = "view_of queued bound (vs s)"
  have ok: "vs_ok qinv iok (vs s)" and inv: "view_inv (Some c) {} ?v" and len: "length (percpus (vs s)) = n"
    and wok: "wq_ok s" using g by (simp_all add: tm_good_def)
  have c': "c < length (percpus (vs s))" and cv: "c < v_cpus ?v" using c len by simp_all
  obtain v t w where v: "resched_f env c (vs s) = Inr (v, p \<noteq> t)" "vs_ok qinv iok v" "length (percpus v) = n"
    "a_pick c t ?v w" "view_of queued bound v = a_switch c t w"
    using resched_f_refines [OF env ok c' inv] len p(1) by blast
  have t: "state (tasks (vs s) t) = Inr Ready" using picked_facts(1) [OF inv cv v(4)] by simp
  have ne: "p \<noteq> t" using t p(3) x v(1) by auto
  have inv1: "view_inv None {c} (view_of queued bound v)"
    using switch_inv [OF inv cv _ v(4)] ne v(5) p(1) by simp
  note fr = a_pick_frame [OF v(4)]
  have vs1: "state (tasks v u) = (if u = t then Inr Running else state (tasks (vs s) u))"
      "is_idle (tasks v u) = is_idle (tasks (vs s) u)" "startable (tasks v u) = startable (tasks (vs s) u)"
      "current_task (cpu_at v d) = (if d = c then t else current_task (cpu_at (vs s) d))"
      "prev_task (cpu_at v c) = Some p" for u d
    using arg_cong [OF v(5), of "\<lambda>v. v_state v u"] arg_cong [OF v(5), of "\<lambda>v. v_isidle v u"]
      arg_cong [OF v(5), of "\<lambda>v. v_startable v u"] arg_cong [OF v(5), of "\<lambda>v. v_cur v d"]
      arg_cong [OF v(5), of "\<lambda>v. v_prev v c"] ne fr p(1) by (auto simp: a_switch_def)
  note same = resched_f_same [OF v(1)]
  have pv: "is_coroutine (tasks v p)" "has_stack (tasks v p)"
    using same [of p] p(1,2) rn c same_stack_has [OF same [of p]] by (auto simp: same_stack_def runners_def)
  then obtain k where k: "kstack (tasks v p) = Some k" using coroutine_stack by blast
  have tst: "startable (tasks v t)"
    using cur_startable [OF inv1, of c] c v(3) vs1(4) [of c] by simp
  let ?s = "s\<lparr>vs := v\<rparr>"
  have wok1: "wq_ok ?s"
  proof (rule wq_ok_kept [OF wok])
    show "tasks_kept (waiting s) (vs s) (vs ?s)"
      unfolding tasks_kept_def using vs1(1-3) same t wok by (auto simp: wq_ok_def same_stack_def)
  qed simp
  obtain s1 b where s1: "hand_stack c p ?s = Inr (s1, b)" "vs_ok qinv iok (vs s1)"
    "view_of queued bound (vs s1) = view_of queued bound v" "queues s1 = queues s" "exts s1 = exts s"
    "released s1 = released s" "has_stack (tasks (vs s1) t)"
    "\<forall>u. u \<noteq> p \<longrightarrow> has_stack (tasks v u) \<longrightarrow> has_stack (tasks (vs s1) u)"
    "\<forall>u. in_wait_queue (tasks (vs s1) u) = in_wait_queue (tasks v u)"
    using hand_stack_good [of ?s c t p k] v(2,3) c vs1(4) [of c] ne tst pv(1) k by auto
  have len1: "length (percpus (vs s1)) = n" using arg_cong [OF s1(3), of v_cpus] v(3) by simp
  have eq1: "state (tasks (vs s1) u) = state (tasks v u)" "is_idle (tasks (vs s1) u) = is_idle (tasks v u)"
      "startable (tasks (vs s1) u) = startable (tasks v u)"
      "current_task (cpu_at (vs s1) d) = current_task (cpu_at v d)" "prev_task (cpu_at (vs s1) d) = prev_task (cpu_at v d)"
    for u d
    using arg_cong [OF s1(3), of "\<lambda>v. v_state v u"] arg_cong [OF s1(3), of "\<lambda>v. v_isidle v u"]
      arg_cong [OF s1(3), of "\<lambda>v. v_startable v u"] arg_cong [OF s1(3), of "\<lambda>v. v_cur v d"]
      arg_cong [OF s1(3), of "\<lambda>v. v_prev v d"] by simp_all
  have wok2: "wq_ok s1"
    by (rule wq_ok_kept [OF wok1]) (use s1(4,9) eq1 in \<open>simp_all add: tasks_kept_def\<close>)
  have inv2: "view_inv None {c} (view_of queued bound (vs s1))" using inv1 s1(3) by simp
  obtain s' where s': "finish_switch c s1 = Inr s'" "tm_good None n s'" "queues s' = queues s1" "exts s' = exts s1"
    "released s' = (if x = Exited then p # released s1 else released s1)"
    using finish_good [OF s1(2) inv2 len1 wok2 c, of p x] eq1 vs1 ne p(3) by auto
  have "runners n s1"
    unfolding runners_def
  proof (intro allI impI)
    fix d assume d: "d < n"
    show "has_stack (tasks (vs s1) (current_task (cpu_at (vs s1) d)))"
    proof (cases "d = c")
      case True
      then show ?thesis using eq1(4) vs1(4) s1(7) by simp
    next
      case False
      let ?q = "current_task (cpu_at (vs s) d)"
      have "?q \<noteq> p" using cur_distinct [OF inv, of d c] d c len p(1) False by auto
      moreover have "has_stack (tasks v ?q)" using rn d same_stack_has [OF same [of ?q]] by (simp add: runners_def)
      ultimately show ?thesis using s1(8) eq1(4) vs1(4) False by simp
    qed
  qed
  then have "runners n s'" using runners_kept finish_stacks [OF s'(1)] by blast
  then show ?thesis using v(1) s1(1) s' s1(4-6) ne vs1(1) p(3) by auto
qed

end

subsection \<open>Passes of coroutines\<close>

text \<open>
  The rest of a pass, given the poll of task \<open>me\<close>: if the future goes on, nothing happens; if it is
  pending, the loop gives up the CPU, and the next task finishes the switch at its resume point.
\<close>

definition co_end :: "('q, 'i, 'c) platform \<Rightarrow> cpu \<Rightarrow> tid \<Rightarrow> (('q, 'i, 'c, 'f, 'm) tm \<times> poll) outcome \<Rightarrow>
    ('q, 'i, 'c, 'f, 'm) tm outcome" where
  "co_end env c me r = bind_outcome r (\<lambda>(s, p).
     case p of
       PollReady \<Rightarrow> Inr s
     | PollPending \<Rightarrow> bind_outcome (after_poll env c me s) (\<lambda>(s', b). finish_switch c s'))"

text \<open>\<open>CoPend\<close>: the poll ends in another future, which has kept the waker.\<close>

datatype co_event =
  Lib tm_event
| CoYield cpu
| CoBlock cpu wq bool
| CoExit cpu i32
| CoPend cpu

fun co_perform :: "('q, 'i, 'c) platform \<Rightarrow> co_event \<Rightarrow> ('q, 'i, 'c, 'f, 'm) tm \<Rightarrow> ('q, 'i, 'c, 'f, 'm) tm outcome" where
  "co_perform env (Lib e) s = tm_perform env e s"
| "co_perform env (CoYield c) s = bind_outcome (current c (vs s)) (\<lambda>me.
     co_end env c me (bind_outcome (yield_poll env c False s) (\<lambda>(flag, s', p). Inr (s', p))))"
| "co_perform env (CoBlock c w preempt) s = bind_outcome (current c (vs s)) (\<lambda>me.
     co_end env c me (bind_outcome (blocked_poll preempt env c w False s) (\<lambda>(flag, s', p). Inr (s', p))))"
| "co_perform env (CoExit c x) s = bind_outcome (current c (vs s)) (\<lambda>me. co_end env c me (exit_poll env c x s))"
| "co_perform env (CoPend c) s = bind_outcome (current c (vs s)) (\<lambda>me. co_end env c me (Inr (s, PollPending)))"

text \<open>A pass belongs to a coroutine; with the feature \<^verbatim>\<open>preempt\<close> it blocks at nesting depth 2.\<close>

fun co_enabled :: "('q \<Rightarrow> tid multiset) \<Rightarrow> ('q \<Rightarrow> nat) \<Rightarrow> ('q, 'i, 'c) platform \<Rightarrow> co_event \<Rightarrow>
    ('q, 'i, 'c, 'f, 'm) tm \<Rightarrow> bool" where
  "co_enabled queued bound env (Lib e) s = tm_enabled queued bound env e s"
| "co_enabled queued bound env (CoYield c) s \<longleftrightarrow> c < length (percpus (vs s)) \<and>
     is_coroutine (tasks (vs s) (current_task (cpu_at (vs s) c)))"
| "co_enabled queued bound env (CoBlock c w preempt) s \<longleftrightarrow> c < length (percpus (vs s)) \<and>
     is_coroutine (tasks (vs s) (current_task (cpu_at (vs s) c))) \<and>
     (preempt \<longrightarrow> can_preempt 2 (tasks (vs s) (current_task (cpu_at (vs s) c))))"
| "co_enabled queued bound env (CoExit c x) s \<longleftrightarrow> c < length (percpus (vs s)) \<and>
     is_coroutine (tasks (vs s) (current_task (cpu_at (vs s) c)))"
| "co_enabled queued bound env (CoPend c) s \<longleftrightarrow> c < length (percpus (vs s)) \<and>
     is_coroutine (tasks (vs s) (current_task (cpu_at (vs s) c)))"

fun co_run :: "('q, 'i, 'c) platform \<Rightarrow> co_event list \<Rightarrow> ('q, 'i, 'c, 'f, 'm) tm \<Rightarrow> ('q, 'i, 'c, 'f, 'm) tm outcome" where
  "co_run env [] s = Inr s"
| "co_run env (e # es) s = bind_outcome (co_perform env e s) (co_run env es)"

fun co_allowed :: "('q \<Rightarrow> tid multiset) \<Rightarrow> ('q \<Rightarrow> nat) \<Rightarrow> ('q, 'i, 'c) platform \<Rightarrow> co_event list \<Rightarrow>
    ('q, 'i, 'c, 'f, 'm) tm \<Rightarrow> bool" where
  "co_allowed queued bound env [] s = True"
| "co_allowed queued bound env (e # es) s = (co_enabled queued bound env e s \<and>
     (case co_perform env e s of Inl x \<Rightarrow> True | Inr s' \<Rightarrow> co_allowed queued bound env es s'))"

lemma unblock_same: "unblock_task env t r d src v = Inr v' \<Longrightarrow> same_stack (tasks v u) (tasks v' u)"
  by (auto simp: unblock_task_def bind_outcome_eq_Inr split: if_splits dest!: put_task_same [where u = u])

lemma notify_one_coroutine:
  "notify_one env c w r s = Inr (s', b) \<Longrightarrow> is_coroutine (tasks (vs s') u) = is_coroutine (tasks (vs s) u)"
  by (auto simp: notify_one_def unblock_one_task_def Let_def bind_outcome_eq_Inr same_stack_def task_simps
      split: list.splits if_splits dest!: unblock_same [where u = u])

lemma notify_all_coroutine:
  "notify_all env c w r s = Inr s' \<Longrightarrow> is_coroutine (tasks (vs s') u) = is_coroutine (tasks (vs s) u)"
proof (induction env c w r s rule: notify_all.induct)
  case (1 env c w r s)
  obtain s1 b where n: "notify_one env c w r s = Inr (s1, b)"
    using 1(2) by (auto simp: notify_all.simps [of env c w r s] split: sum.splits)
  then show ?case using 1 notify_one_coroutine [OF n]
    by (auto simp: notify_all.simps [of env c w r s] split: if_splits)
qed

context base_scheduler
begin

definition co_good :: "nat \<Rightarrow> ('q, 'i, 'c, 'f, 'm) tm \<Rightarrow> bool" where
  "co_good n s \<longleftrightarrow> tm_good None n s \<and> runners n s"

text \<open>Leaving the CPU after a poll that has rescheduled.\<close>

lemma co_end_left:
  assumes "resched_f env c (vs s) = Inr (v, True)" "state (tasks v p) = Inr x" "x \<noteq> Running"
    "hand_stack c p (s\<lparr>vs := v\<rparr>) = Inr (s1, b)" "finish_switch c s1 = Inr s'"
  shows "co_end env c p (Inr (s\<lparr>vs := v\<rparr>, PollPending)) = Inr s'"
  using assms by (simp add: co_end_def after_poll_left task_simps)

lemma co_block_good:
  assumes env: "over ops env" and g: "co_good n s" and c: "c < n"
    and p: "current_task (cpu_at (vs s) c) = p" "is_coroutine (tasks (vs s) p)"
    and pre: "preempt \<longrightarrow> can_preempt 2 (tasks (vs s) p)"
  shows "\<exists>s'. co_perform env (CoBlock c w preempt) s = Inr s' \<and> co_good n s' \<and>
    queues s' = (queues s)(w := queues s w @ [p]) \<and> released s' = released s"
proof -
  have g1: "tm_good None n s" and rn: "runners n s" using g by (simp_all add: co_good_def)
  let ?s = "park w p s"
  have ni: "\<not> is_idle (tasks (vs s) p)" using p(2) by (simp add: is_coroutine_def)
  have s: "current_task (cpu_at (vs ?s) c) = p" "is_coroutine (tasks (vs ?s) p)"
    "state (tasks (vs ?s) p) = Inr Blocked" "released ?s = released s" "queues ?s = (queues s)(w := queues s w @ [p])"
    using p by (simp_all add: park_def task_simps)
  have rn1: "runners n ?s" using runners_kept [OF _ rn, of ?s] by simp
  have g2: "tm_good (Some c) n ?s" using park_good [OF g1 c, of w] ni p(1) by simp
  obtain v s1 b s' where v: "resched_f env c (vs ?s) = Inr (v, True)" "state (tasks v p) = Inr Blocked"
    "hand_stack c p (?s\<lparr>vs := v\<rparr>) = Inr (s1, b)" "finish_switch c s1 = Inr s'" "tm_good None n s'" "runners n s'"
    "queues s' = queues ?s" "released s' = released ?s"
    using co_leave [OF env g2 rn1 c s(1,2,3)] by auto
  have "blocked_poll preempt env c w False s = Inr (True, ?s\<lparr>vs := v\<rparr>, PollPending)"
    using current_good [OF g1 c] cur_not_waiting(1) [OF g1 c] p(1) ni pre v(1)
    by (simp add: blocked_poll_def task_simps Let_def)
  then have "co_perform env (CoBlock c w preempt) s = Inr s'"
    using current_good [OF g1 c] p(1) co_end_left [OF v(1,2) _ v(3,4)] by simp
  then show ?thesis using v s by (simp add: co_good_def)
qed

lemma co_pend_good:
  assumes env: "over ops env" and g: "co_good n s" and c: "c < n"
    and p: "current_task (cpu_at (vs s) c) = p" "is_coroutine (tasks (vs s) p)"
  shows "\<exists>s'. co_perform env (CoPend c) s = Inr s' \<and> co_good n s' \<and> queues s' = queues s"
proof -
  have g1: "tm_good None n s" and rn: "runners n s" using g by (simp_all add: co_good_def)
  have ni: "\<not> is_idle (tasks (vs s) p)" using p(2) by (simp add: is_coroutine_def)
  let ?s = "on_vs (on_task p (set_state Blocked)) s"
  have g2: "tm_good (Some c) n ?s" using leave_good [OF g1 c, of Blocked] ni p(1) by simp
  have rn1: "runners n ?s" using runners_kept [OF _ rn, of ?s] by simp
  obtain v s1 b s' where v: "resched_f env c (vs ?s) = Inr (v, True)" "state (tasks v p) = Inr Blocked"
    "hand_stack c p (?s\<lparr>vs := v\<rparr>) = Inr (s1, b)" "finish_switch c s1 = Inr s'" "tm_good None n s'" "runners n s'"
    "queues s' = queues ?s"
    using co_leave [OF env g2 rn1 c, of p Blocked] p by (auto simp: task_simps)
  have "?s\<lparr>vs := v\<rparr> = s\<lparr>vs := v\<rparr>" by (simp add: on_vs_def)
  then have "co_perform env (CoPend c) s = Inr s'"
    using current_good [OF g1 c] cur_not_waiting(1) [OF g1 c] p(1) v(1,3,4)
    by (simp add: co_end_def after_poll_running task_simps)
  then show ?thesis using v by (simp add: co_good_def)
qed

lemma co_yield_good:
  assumes env: "over ops env" and fr: "\<forall>q. fresh q" and g: "co_good n s" and c: "c < n"
    and p: "current_task (cpu_at (vs s) c) = p" "is_coroutine (tasks (vs s) p)"
  shows "\<exists>s'. co_perform env (CoYield c) s = Inr s' \<and> co_good n s' \<and> queues s' = queues s"
proof -
  have g1: "tm_good None n s" and rn: "runners n s" using g by (simp_all add: co_good_def)
  obtain v1 where v1: "yield_with False env c (vs s) = Inr v1" "tm_good (Some c) n (s\<lparr>vs := v1\<rparr>)"
    "state (tasks v1 p) = Inr Ready" "\<And>d. current_task (cpu_at v1 d) = current_task (cpu_at (vs s) d)"
    using yield_with_tm [OF env fr g1 c] p(1) by auto
  let ?s = "s\<lparr>vs := v1\<rparr>"
  have rn1: "runners n ?s" using runners_kept [OF _ rn, of ?s] yield_with_stacks [OF v1(1)] by simp
  have co1: "is_coroutine (tasks v1 p)" using yield_with_same [OF v1(1), of p] p(2) by (simp add: same_stack_def)
  have ok: "vs_ok qinv iok v1" and inv: "view_inv (Some c) {} (view_of queued bound v1)" and len: "length (percpus v1) = n"
    and wok: "wq_ok ?s" using v1(2) by (simp_all add: tm_good_def)
  have c': "c < length (percpus v1)" and cv: "c < v_cpus (view_of queued bound v1)" using c len by simp_all
  obtain v t w where v: "resched_f env c v1 = Inr (v, p \<noteq> t)" "vs_ok qinv iok v" "length (percpus v) = n"
    "a_pick c t (view_of queued bound v1) w" "view_of queued bound v = a_switch c t w"
    using resched_f_refines [OF env ok c' inv] len p(1) v1(4) by force
  have poll: "yield_poll env c False s = Inr (True, s\<lparr>vs := v\<rparr>, if p \<noteq> t then PollPending else PollReady)"
    using current_good [OF g1 c] cur_not_waiting(1) [OF g1 c] p(1) v1(1) v(1)
    by (simp add: yield_poll_def yield_f_def task_simps)
  show ?thesis
  proof (cases "p = t")
    case True
    note fr' = a_pick_frame [OF v(4)]
    have inv1: "view_inv None {} (view_of queued bound v)"
      using switch_inv [OF inv cv _ v(4)] v(5) p(1) v1(4) True by simp
    have vs1: "state (tasks v u) = (if u = t then Inr Running else state (tasks v1 u))"
        "is_idle (tasks v u) = is_idle (tasks v1 u)" "startable (tasks v u) = startable (tasks v1 u)"
        "current_task (cpu_at v d) = current_task (cpu_at v1 d)" for u d
      using arg_cong [OF v(5), of "\<lambda>v. v_state v u"] arg_cong [OF v(5), of "\<lambda>v. v_isidle v u"]
        arg_cong [OF v(5), of "\<lambda>v. v_startable v u"] arg_cong [OF v(5), of "\<lambda>v. v_cur v d"] fr' True p(1) v1(4)
      by (auto simp: a_switch_def)
    note same = resched_f_same [OF v(1)]
    have "wq_ok (s\<lparr>vs := v\<rparr>)"
    proof (rule wq_ok_kept [OF wok])
      show "tasks_kept (waiting ?s) (vs ?s) (vs (s\<lparr>vs := v\<rparr>))"
        unfolding tasks_kept_def using vs1(1-3) same wok v1(3) True by (auto simp: wq_ok_def same_stack_def)
    qed simp
    then have "tm_good None n (s\<lparr>vs := v\<rparr>)" using v(2,3) inv1 by (simp add: tm_good_def)
    moreover have "runners n (s\<lparr>vs := v\<rparr>)"
      using rn1 vs1(4) same_stack_has [OF same] by (simp add: runners_def)
    moreover have "co_perform env (CoYield c) s = Inr (s\<lparr>vs := v\<rparr>)"
      using current_good [OF g1 c] p(1) poll True by (simp add: co_end_def)
    ultimately show ?thesis by (simp add: co_good_def)
  next
    case False
    then have rf: "resched_f env c v1 = Inr (v, True)" using v(1) by simp
    obtain v' s1 b s' where s': "resched_f env c v1 = Inr (v', True)" "state (tasks v' p) = Inr Ready"
      "hand_stack c p (s\<lparr>vs := v'\<rparr>) = Inr (s1, b)" "finish_switch c s1 = Inr s'" "tm_good None n s'" "runners n s'"
      "queues s' = queues s"
      using co_leave [OF env v1(2) rn1 c, of p Ready] p(1) co1 v1(3,4) rf by auto
    have "co_perform env (CoYield c) s = Inr s'"
      using current_good [OF g1 c] p(1) poll False rf s'(1) co_end_left [of env c s v p Ready s1 b s'] s'(2,3,4)
        resched_f_same
      by (auto simp: co_end_def after_poll_left task_simps)
    then show ?thesis using s' by (auto simp: co_good_def)
  qed
qed

lemma co_exit_good:
  assumes env: "over ops env" and fr: "\<forall>q. fresh q" and g: "co_good n s" and c: "c < n"
    and p: "current_task (cpu_at (vs s) c) = p" "is_coroutine (tasks (vs s) p)"
  shows "\<exists>s'. co_perform env (CoExit c x) s = Inr s' \<and> co_good n s' \<and> queues s' = (queues s)(ExitOf p := []) \<and>
    released s' = p # released s \<and> exit_code p s' = x"
proof -
  have g0: "tm_good None n s" and rn: "runners n s" using g by (simp_all add: co_good_def)
  have ni: "\<not> is_idle (tasks (vs s) p)" using p(2) by (simp add: is_coroutine_def)
  let ?s1 = "on_vs (on_task p (set_state Exited)) s" let ?s2 = "set_exit_code p x ?s1"
  have g1: "tm_good (Some c) n ?s1" using leave_good [OF g0 c, of Exited] ni p(1) by simp
  then have g2: "tm_good (Some c) n ?s2"
    by (simp add: tm_good_def set_exit_code_def put_ext_def wq_ok_def waiting_def)
  have s2: "vs ?s2 = vs ?s1" "queues ?s2 = queues s" "released ?s2 = released s" "ext_exit_code (exts ?s2 p) = x"
    by (simp_all add: set_exit_code_def put_ext_def)
  have ex: "state (tasks (vs ?s2) p) = Inr Exited" "current_task (cpu_at (vs ?s2) c) = p"
    using s2(1) p(1) by (simp_all add: task_simps)
  have gf: "gap_free (Some c) n ?s2" using ex by (simp add: gap_free_def)
  obtain s3 where s3: "notify_all env c (ExitOf p) False ?s2 = Inr s3" "tm_good (Some c) n s3"
    "queues s3 = (queues ?s2)(ExitOf p := [])" "exts s3 = exts ?s2" "released s3 = released ?s2"
    "woken (set (queues ?s2 (ExitOf p))) (vs ?s2) (vs s3)"
    "\<forall>d < n. current_task (cpu_at (vs s3) d) = current_task (cpu_at (vs ?s2) d)"
    using notify_all_good [OF env fr c g2 gf] by blast
  have nw: "\<not> waiting ?s2 p" using g2 ex(1) by (auto simp: tm_good_def wq_ok_def)
  then have "p \<notin> set (queues ?s2 (ExitOf p))" by (auto simp: waiting_def)
  then have ex3: "state (tasks (vs s3) p) = Inr Exited" "current_task (cpu_at (vs s3) c) = p"
    using s3(6,7) ex c by (auto simp: woken_def)
  have co3: "is_coroutine (tasks (vs s3) p)"
    using notify_all_coroutine [OF s3(1), of p] p(2) s2(1) by (simp add: task_simps)
  have "stacks_kept (vs s) (vs s3)" using notify_all_stacks [OF s3(1)] s2(1) by simp
  then have rn3: "runners n s3" using runners_kept rn by blast
  obtain v s4 b s' where v: "resched_f env c (vs s3) = Inr (v, True)" "state (tasks v p) = Inr Exited"
    "hand_stack c p (s3\<lparr>vs := v\<rparr>) = Inr (s4, b)" "finish_switch c s4 = Inr s'" "tm_good None n s'" "runners n s'"
    "queues s' = queues s3" "exts s' = exts s3" "released s' = p # released s3"
    using co_leave [OF env s3(2) rn3 c ex3(2) co3 ex3(1)] by auto
  have "exit_poll env c x s = Inr (s3\<lparr>vs := v\<rparr>, PollPending)"
    using current_good [OF g0 c] cur_not_waiting(1) [OF g0 c] p(1) ni s3(1) v(1)
    by (simp add: exit_poll_def notify_exit_def task_simps)
  then have "co_perform env (CoExit c x) s = Inr s'"
    using current_good [OF g0 c] p(1) co_end_left [OF v(1,2) _ v(3,4)] by simp
  then show ?thesis using v s3 s2 by (simp add: co_good_def exit_code_def)
qed

lemma co_perform_good:
  assumes env: "over ops env" and fr: "\<forall>q. fresh q" and g: "co_good n s" and en: "co_enabled queued bound env e s"
  shows "\<exists>s'. co_perform env e s = Inr s' \<and> co_good n s'"
proof -
  have len: "length (percpus (vs s)) = n" using g by (simp add: co_good_def tm_good_def)
  show ?thesis
  proof (cases e)
    case (Lib te)
    then obtain s' where s': "tm_perform env te s = Inr s'" "tm_good None n s'"
      using tm_perform_good [OF env fr, of n s te] g en by (auto simp: co_good_def)
    then show ?thesis using Lib g runners_kept tm_perform_stacks [OF s'(1)] by (auto simp: co_good_def)
  next
    case (CoYield c)
    then show ?thesis using co_yield_good [OF env fr g, of c] en len by auto
  next
    case (CoBlock c w preempt)
    then show ?thesis using co_block_good [OF env g, of c _ preempt w] en len by auto
  next
    case (CoExit c x)
    then show ?thesis using co_exit_good [OF env fr g, of c] en len by auto
  next
    case (CoPend c)
    then show ?thesis using co_pend_good [OF env g, of c] en len by auto
  qed
qed

lemma co_run_good:
  assumes "over ops env" "\<forall>q. fresh q"
  shows "co_good n s \<Longrightarrow> co_allowed queued bound env es s \<Longrightarrow>
    \<exists>s'. co_run env es s = Inr s' \<and> co_good n s'"
proof (induction es arbitrary: s)
  case (Cons e es)
  then obtain s1 where "co_perform env e s = Inr s1" "co_good n s1"
    using co_perform_good [OF assms Cons.prems(1)] by auto
  then show ?case using Cons by simp
qed simp

end

end
