(* ===== verification/Task_Mgmt_Props.thy ===== *)
theory Task_Mgmt_Props
  imports Task_Mgmt_Run Coroutine
begin

text \<open>
  The guarantees of \<^verbatim>\<open>task_management\<close> from boot on, and the handing on of coroutine stacks.
\<close>

context base_scheduler
begin

lemma boot_tm_good:
  assumes "bootable xs (vs s0)" "qinv (scheduler_new env)" "queued (scheduler_new env) = {#}"
    "\<forall>u. iok (sched_info (vs s0) u)" "boot_cpus env 0 xs (vs s0) = Inr v1" "\<forall>w. queues s0 w = []"
  shows "tm_good None (length xs) (s0\<lparr>vs := v1\<rparr>)"
proof -
  have "good (v1, {})" "length (percpus v1) = length xs"
    using boot_good [OF assms(1-4)] assms(5) by auto
  then show ?thesis using assms(6) by (simp add: tm_good_def good_def wq_ok_def waiting_def)
qed

lemma tm_boot_run:
  assumes "over ops env" "\<forall>q. fresh q" "bootable xs (vs s0)" "qinv (scheduler_new env)"
    "queued (scheduler_new env) = {#}" "\<forall>u. iok (sched_info (vs s0) u)" "boot_cpus env 0 xs (vs s0) = Inr v1"
    "\<forall>w. queues s0 w = []" "tm_allowed queued bound env es (s0\<lparr>vs := v1\<rparr>)"
  shows "\<exists>s. tm_run env es (s0\<lparr>vs := v1\<rparr>) = Inr s \<and> tm_good None (length xs) s"
  by (rule tm_run_good [OF assms(1,2) boot_tm_good [OF assms(3-8)] assms(9)])

lemma waiting_placed:
  assumes g: "tm_good None n s" and t: "t \<in> set (queues s w)" and c: "c < n"
  shows "state (tasks (vs s) t) = Inr Blocked" "in_wait_queue (tasks (vs s) t)" "\<not> on_cpu (tasks (vs s) t)"
    "current_task (cpu_at (vs s) c) \<noteq> t" "t \<notin># queued (scheduler (cpu_at (vs s) c))"
proof -
  have inv: "view_inv None {} (view_of queued bound (vs s))" and len: "length (percpus (vs s)) = n"
    and wok: "wq_ok s" using g by (simp_all add: tm_good_def)
  have "waiting s t" using t by (auto simp: waiting_def)
  then show b: "state (tasks (vs s) t) = Inr Blocked" "in_wait_queue (tasks (vs s) t)"
    using wok by (auto simp: wq_ok_def)
  have nc: "current_task (cpu_at (vs s) d) \<noteq> t" if "d < n" for d
    using cur_not_waiting(1) [OF g that] b(1) by auto
  show "current_task (cpu_at (vs s) c) \<noteq> t" using nc [OF c] .
  show "\<not> on_cpu (tasks (vs s) t)" using oncpu_iff [OF inv, of t] nc len by auto
  show "t \<notin># queued (scheduler (cpu_at (vs s) c))" using queued_ready [OF inv, of c t] b(1) c len by auto
qed

lemma wq_okD:
  assumes "tm_good gap n s"
  shows "distinct (queues s w)" "t \<in> set (queues s w) \<Longrightarrow> t \<in> set (queues s w') \<Longrightarrow> w = w'"
proof -
  have wok: "wq_ok s" using assms by (simp add: tm_good_def)
  then show "distinct (queues s w)" by (simp add: wq_ok_def)
  show "t \<in> set (queues s w) \<Longrightarrow> t \<in> set (queues s w') \<Longrightarrow> w = w'" using wok unfolding wq_ok_def by blast
qed

end

subsection \<open>Two CPUs\<close>

text \<open>The system of \<open>Vsched_Props\<close>: coroutine 3 is spawned and the main task blocks on a wait queue.\<close>

definition demo_tm :: "(tid deque, rr_task, nat, nat, nat set) tm" where
  "demo_tm = \<lparr>vs = demo_state, exts = (\<lambda>t. ext_new_common {0, 1} ''task''), queues = (\<lambda>_. []),
     waker_queues = (\<lambda>_. []), stack_pool = (\<lambda>_. []), released = [], id_counter = 6, rq_index = 0\<rparr>"

definition demo_tm_events :: "tm_event list" where
  "demo_tm_events = [TSpawn 0 3, TBlock 0 (WaitQueue 0)]"

definition demo_tm_final :: "(tid deque, rr_task, nat, nat, nat set) tm" where
  "demo_tm_final = (case tm_run demo_env demo_tm_events (demo_tm\<lparr>vs := demo_booted\<rparr>) of Inr s \<Rightarrow> s | Inl f \<Rightarrow> demo_tm)"

lemma demo_tm_run: "tm_run demo_env demo_tm_events (demo_tm\<lparr>vs := demo_booted\<rparr>) = Inr demo_tm_final"
proof -
  have "case tm_run demo_env demo_tm_events (demo_tm\<lparr>vs := demo_booted\<rparr>) of Inl f \<Rightarrow> False | Inr s \<Rightarrow> True" by code_simp
  then show ?thesis by (auto simp: demo_tm_final_def split: sum.splits)
qed

lemma demo_tm_allowed: "tm_allowed demo_queued demo_bound demo_env demo_tm_events (demo_tm\<lparr>vs := demo_booted\<rparr>)"
  by code_simp

lemma demo_tm_start:
  "bootable demo_boot (vs demo_tm)" "\<forall>u. (\<lambda>_. True) (sched_info (vs demo_tm) u)"
  "boot_cpus demo_env 0 demo_boot (vs demo_tm) = Inr demo_booted" "\<forall>w. queues demo_tm w = []"
  "\<forall>q. (\<lambda>_. True) (q :: tid deque)" "0 < length demo_boot"
  using demo_boot_ok demo_boot_run by (simp_all add: demo_tm_def demo_boot_def)

lemma demo_tm_values:
  "queues demo_tm_final (WaitQueue 0) = [0]" "current_task (cpu_at (vs demo_tm_final) 0) = 3"
  "\<not> is_idle (tasks (vs demo_tm_final) 3)" "\<not> is_init (tasks (vs demo_tm_final) 3)" "released demo_tm_final = []"
  by code_simp+

lemmas demo_tm_facts = rr.base_scheduler_axioms demo_boot_ok(6) demo_tm_start(5,1) demo_boot_ok(2,4)
  demo_tm_start(2,3,4) demo_tm_allowed

subsection \<open>The guarantees\<close>

text \<open>From boot on, every run of calls of \<^verbatim>\<open>task_management\<close> (spawning, yielding to another task,
  blocking, notifying one, all or a given task, requeueing, resuming, exiting, joining) returns
  without a panic, undefined behaviour or endless wait, and in the state it reaches every task in a
  wait queue is \<^verbatim>\<open>Blocked\<close>, marked as waiting, off every CPU and in no ready queue, and waits once, in
  one queue.\<close>

theorem tm_waiting_tasks_safe:
  assumes "base_scheduler ops queued qinv iok bound fresh" "over ops env" "\<forall>q. fresh q" "bootable xs (vs s0)"
    "qinv (scheduler_new env)" "queued (scheduler_new env) = {#}" "\<forall>u. iok (sched_info (vs s0) u)"
    "boot_cpus env 0 xs (vs s0) = Inr v1" "\<forall>w. queues s0 w = []"
    "tm_allowed queued bound env es (s0\<lparr>vs := v1\<rparr>)"
  shows "\<exists>s. tm_run env es (s0\<lparr>vs := v1\<rparr>) = Inr s \<and>
    (\<forall>w. distinct (queues s w) \<and> (\<forall>t \<in> set (queues s w).
       state (tasks (vs s) t) = Inr Blocked \<and> in_wait_queue (tasks (vs s) t) \<and> (\<forall>w'. t \<in> set (queues s w') \<longrightarrow> w' = w) \<and>
       (\<forall>c < length xs. \<not> on_cpu (tasks (vs s) t) \<and> current_task (cpu_at (vs s) c) \<noteq> t \<and>
          t \<notin># queued (scheduler (cpu_at (vs s) c)))))"
proof -
  note bs = assms(1)
  obtain s where s: "tm_run env es (s0\<lparr>vs := v1\<rparr>) = Inr s" "base_scheduler.tm_good queued qinv iok bound None (length xs) s"
    using base_scheduler.tm_boot_run [OF assms] by blast
  have wb: "state (tasks (vs s) t) = Inr Blocked \<and> in_wait_queue (tasks (vs s) t)" if "t \<in> set (queues s w)" for t w
    using s(2) that unfolding base_scheduler.tm_good_def [OF bs] wq_ok_def waiting_def by blast
  show ?thesis
    using s(1) wb base_scheduler.wq_okD [OF bs s(2)] base_scheduler.waiting_placed(3-5) [OF bs s(2)]
    by (intro exI [of _ s]) blast
qed

theorem tm_waiting_tasks_safe_witness:
  "state (tasks (vs demo_tm_final) 0) = Inr Blocked \<and> current_task (cpu_at (vs demo_tm_final) 0) \<noteq> 0"
proof -
  have "0 \<in> set (queues demo_tm_final (WaitQueue 0))" by (simp add: demo_tm_values(1))
  then show ?thesis
    using tm_waiting_tasks_safe [OF demo_tm_facts] demo_tm_start(6) unfolding demo_tm_run by blast
qed

text \<open>C9: In every state so reached, \<^verbatim>\<open>notify_all\<close> ends, empties the queue, and leaves every task that
  waited in it \<^verbatim>\<open>Ready\<close> and unmarked; the other tasks and queues are as before.\<close>

theorem tm_notify_all_wakes:
  assumes "base_scheduler ops queued qinv iok bound fresh" "over ops env" "\<forall>q. fresh q" "bootable xs (vs s0)"
    "qinv (scheduler_new env)" "queued (scheduler_new env) = {#}" "\<forall>u. iok (sched_info (vs s0) u)"
    "boot_cpus env 0 xs (vs s0) = Inr v1" "\<forall>w. queues s0 w = []"
    "tm_allowed queued bound env es (s0\<lparr>vs := v1\<rparr>)" "tm_run env es (s0\<lparr>vs := v1\<rparr>) = Inr s" "c < length xs"
  shows "\<exists>s'. notify_all env c w r s = Inr s' \<and> queues s' = (queues s)(w := []) \<and>
    (\<forall>t. if t \<in> set (queues s w) then state (tasks (vs s') t) = Inr Ready \<and> \<not> in_wait_queue (tasks (vs s') t)
       else state (tasks (vs s') t) = state (tasks (vs s) t))"
proof -
  note bs = assms(1)
  have g: "base_scheduler.tm_good queued qinv iok bound None (length xs) s"
    using base_scheduler.tm_boot_run [OF assms(1-10)] assms(11) by auto
  have gf: "gap_free None (length xs) s" by (simp add: gap_free_def)
  show ?thesis using base_scheduler.notify_all_good [OF bs assms(2,3,12) g gf, of w r]
    by (auto simp: woken_def)
qed

theorem tm_notify_all_wakes_witness:
  "\<exists>s'. notify_all demo_env 1 (WaitQueue 0) False demo_tm_final = Inr s' \<and> queues s' (WaitQueue 0) = [] \<and>
    state (tasks (vs s') 0) = Inr Ready"
proof -
  have "1 < length demo_boot" by (simp add: demo_boot_def)
  from tm_notify_all_wakes [OF demo_tm_facts demo_tm_run this, of "WaitQueue 0" False]
  show ?thesis unfolding demo_tm_values(1) by (metis fun_upd_same list.set_intros(1))
qed

text \<open>C8: Exit and join: in every state so reached, the exit of the task running on CPU \<open>c\<close> (not idle, not
  the main task) returns with the CPU given to another task, the exited task's reference released
  once, and nobody left in its queue; from then on a join on it returns its exit code at once.\<close>

theorem tm_exit_then_join:
  assumes "base_scheduler ops queued qinv iok bound fresh" "over ops env" "\<forall>q. fresh q" "bootable xs (vs s0)"
    "qinv (scheduler_new env)" "queued (scheduler_new env) = {#}" "\<forall>u. iok (sched_info (vs s0) u)"
    "boot_cpus env 0 xs (vs s0) = Inr v1" "\<forall>w. queues s0 w = []"
    "tm_allowed queued bound env es (s0\<lparr>vs := v1\<rparr>)" "tm_run env es (s0\<lparr>vs := v1\<rparr>) = Inr s" "c < length xs"
    "p = current_task (cpu_at (vs s) c)" "\<not> is_idle (tasks (vs s) p)" "\<not> is_init (tasks (vs s) p)"
  shows "\<exists>s'. tm_exit env c x s = Inr (s', Gone) \<and> queues s' (ExitOf p) = [] \<and> released s' = p # released s \<and>
    current_task (cpu_at (vs s') c) \<noteq> p \<and>
    (\<exists>s2. join_pass irq env d p me s' = Inr (s2, Some x))"
proof -
  note bs = assms(1)
  have g: "base_scheduler.tm_good queued qinv iok bound None (length xs) s"
    using base_scheduler.tm_boot_run [OF assms(1-10)] assms(11) by auto
  obtain s' where s': "tm_exit env c x s = Inr (s', Gone)" "base_scheduler.tm_good queued qinv iok bound None (length xs) s'"
    "queues s' = (queues s)(ExitOf p := [])" "state (tasks (vs s') p) = Inr Exited" "exit_code p s' = x"
    "released s' = p # released s"
    using base_scheduler.exit_good [OF bs assms(2,3) g assms(12-15), of x] by blast
  have "current_task (cpu_at (vs s') c) \<noteq> p"
    using base_scheduler.cur_not_waiting(1) [OF bs s'(2) assms(12)] s'(4) by auto
  moreover have "join_pass irq env d p me s' = Inr (cancel_events irq (ExitOf p) me False s', Some x)"
    using s'(4,5) by (simp add: join_pass_def wait_until_pass_def join_condition_def exit_code_def cancel_events_def Let_def)
  ultimately show ?thesis using s' by auto
qed

theorem tm_exit_then_join_witness:
  "\<exists>s'. tm_exit demo_env 0 7 demo_tm_final = Inr (s', Gone) \<and> released s' = [3] \<and>
    (\<exists>s2. join_pass False demo_env 1 3 4 s' = Inr (s2, Some 7))"
  using tm_exit_then_join [OF demo_tm_facts demo_tm_run demo_tm_start(6) demo_tm_values(2) [symmetric] demo_tm_values(3,4),
      of 7 False 1 4] demo_tm_values(5) by auto

end
