(* ===== verification/Coroutine_Props.thy ===== *)
theory Coroutine_Props
  imports Coroutine_Run Task_Mgmt_Props
begin

text \<open>
  The guarantees of \<^verbatim>\<open>task_management\<close> for threads and coroutines together, from boot on.
\<close>

lemma boot_cpus_current:
  assumes "boot_cpus env 0 xs s = Inr v" "length (percpus s) = length xs" "c < length xs"
  shows "tasks v = tasks s" "current_task (cpu_at v c) = snd (xs ! c)"
  using boot_cpus_ok [of 0 xs s env] assms by (auto simp: cpu_at_def percpu_new_def)

context base_scheduler
begin

lemma boot_co_good:
  assumes "bootable xs (vs s0)" "qinv (scheduler_new env)" "queued (scheduler_new env) = {#}"
    "\<forall>u. iok (sched_info (vs s0) u)" "boot_cpus env 0 xs (vs s0) = Inr v1" "\<forall>w. queues s0 w = []"
    and st: "\<forall>b \<in> snd ` set xs. has_stack (tasks (vs s0) b)"
  shows "co_good (length xs) (s0\<lparr>vs := v1\<rparr>)"
proof -
  have "length (percpus (vs s0)) = length xs" using assms(1) by (simp add: bootable_def)
  then have "has_stack (tasks v1 (current_task (cpu_at v1 c)))" if "c < length xs" for c
    using boot_cpus_current [OF assms(5) _ that] st that by (simp add: image_iff)
  then show ?thesis using boot_tm_good [OF assms(1-6)] by (simp add: co_good_def runners_def)
qed

lemma co_boot_run:
  assumes "over ops env" "\<forall>q. fresh q" "bootable xs (vs s0)" "qinv (scheduler_new env)"
    "queued (scheduler_new env) = {#}" "\<forall>u. iok (sched_info (vs s0) u)" "boot_cpus env 0 xs (vs s0) = Inr v1"
    "\<forall>w. queues s0 w = []" "\<forall>b \<in> snd ` set xs. has_stack (tasks (vs s0) b)"
    "co_allowed queued bound env es (s0\<lparr>vs := v1\<rparr>)"
  shows "\<exists>s. co_run env es (s0\<lparr>vs := v1\<rparr>) = Inr s \<and> co_good (length xs) s"
  by (rule co_run_good [OF assms(1,2) boot_co_good [OF assms(3-9)] assms(10)])

end

subsection \<open>Two CPUs\<close>

text \<open>Coroutine 3 is spawned, the main task blocks, and coroutine 3 blocks on another queue.\<close>

definition demo_co_events :: "co_event list" where
  "demo_co_events = [Lib (TSpawn 0 3), Lib (TBlock 0 (WaitQueue 0)), CoBlock 0 (WaitQueue 1) False]"

definition demo_co_final :: "(tid deque, rr_task, nat, nat, nat set) tm" where
  "demo_co_final = (case co_run demo_env demo_co_events (demo_tm\<lparr>vs := demo_booted\<rparr>) of Inr s \<Rightarrow> s | Inl f \<Rightarrow> demo_tm)"

lemma demo_co_run: "co_run demo_env demo_co_events (demo_tm\<lparr>vs := demo_booted\<rparr>) = Inr demo_co_final"
proof -
  have "case co_run demo_env demo_co_events (demo_tm\<lparr>vs := demo_booted\<rparr>) of Inl f \<Rightarrow> False | Inr s \<Rightarrow> True" by code_simp
  then show ?thesis by (auto simp: demo_co_final_def split: sum.splits)
qed

lemma demo_co_allowed: "co_allowed demo_queued demo_bound demo_env demo_co_events (demo_tm\<lparr>vs := demo_booted\<rparr>)"
  by code_simp

lemma demo_co_stacks: "\<forall>b \<in> snd ` set demo_boot. has_stack (tasks (vs demo_tm) b)"
  by code_simp

lemma demo_co_values: "queues demo_co_final (WaitQueue 1) = [3]"
  by code_simp

lemmas demo_co_facts = rr.base_scheduler_axioms demo_boot_ok(6) demo_tm_start(5,1) demo_boot_ok(2,4)
  demo_tm_start(2,3,4) demo_co_stacks demo_co_allowed

subsection \<open>The guarantees\<close>



end
