(* ===== verification/Task_Mgmt_Limits.thy ===== *)
theory Task_Mgmt_Limits
  imports Task_Mgmt_Props
begin

text \<open>
  Where the guarantees of \<^verbatim>\<open>task_management\<close> end: a reschedule that switches to no other task, and
  operations of other CPUs between the steps of a wait or an exit. The handing on of the stack at
  the end of a coroutine's pass.
\<close>

subsection \<open>A yield that finds nothing else to run\<close>

text \<open>C37: When the idle task of a CPU yields, nothing is ready and the CPU has switched before (its
  \<^verbatim>\<open>prev_task\<close> was taken), the yield reads the uninitialised \<^verbatim>\<open>prev_task\<close>: \<^verbatim>\<open>switch_to\<close> returns early
  because the idle task is picked again, and \<^verbatim>\<open>yield_now\<close> takes the previous task all the same. The
  idle loop thus runs into undefined behaviour in its first pass with nothing to do.\<close>

theorem idle_yield_undefined:
  assumes "base_scheduler ops queued qinv iok bound fresh" "over ops env" "vs_ok qinv iok (vs s)"
    "c < length (percpus (vs s))" "p = current_task (cpu_at (vs s) c)" "p = idle_task (cpu_at (vs s) c)"
    "is_idle (tasks (vs s) p)" "state (tasks (vs s) p) = Inr Running"
    "queued (scheduler (cpu_at (vs s) c)) = {#}" "prev_task (cpu_at (vs s) c) = None"
  shows "tm_yield_now env c s = Inl Undefined"
proof -
  let ?v = "vs s"
  let ?v1 = "on_task p (\<lambda>_. set_state Ready (tasks ?v p)) ?v"
  have rq: "get_run_queue c ?v = Inr (cpu_at ?v c)" and q: "qinv (scheduler (cpu_at ?v c))"
    using vs_okD(1,3) [OF assms(3,4)] by simp_all
  have y: "yield_with False env c ?v = Inr ?v1"
    using rq assms(5,7,8) by (simp add: yield_with_def put_task_with_state_def task_simps)
  obtain q' where q': "pick_next_task ops (scheduler (cpu_at ?v c), sched_info ?v) = Inr ((q', sched_info ?v), None)"
    using base_scheduler.pick_none [OF assms(1) q assms(9)] by blast
  let ?v2 = "set_sched c (cpu_at ?v c) (q', sched_info ?v) ?v1"
  have pk: "pick_or_idle env c ?v1 = Inr (?v2, p)"
    using rq q' assms(2,6) by (simp add: pick_or_idle_def over_def)
  have rq2: "get_run_queue c ?v2 = Inr ((cpu_at ?v c)\<lparr>scheduler := q'\<rparr>)"
    using assms(4) by (simp add: get_run_queue_def set_sched_def set_percpu_def on_task_def)
  let ?v3 = "on_task p (set_state Running) (on_task p (set_preempt_pending False) ?v2)"
  have r: "resched env c ?v1 = Inr (?v3, None)"
    using pk rq2 assms(5) by (simp add: resched_def task_simps switch_to_def)
  have "take_prev_task_and_clear_on_cpu c ?v3 = Inl Undefined"
    using rq2 assms(10) by (simp add: take_prev_task_and_clear_on_cpu_def)
  then show ?thesis using y r by (simp add: tm_yield_now_def yield_now_def finish_switch_def)
qed

text \<open>The main task blocks before any other task is spawned, and the idle task takes over.\<close>

definition idle_run :: "(tid deque, rr_task, nat, nat, nat set) tm" where
  "idle_run = (case tm_run demo_env [TBlock 0 (WaitQueue 0)] (demo_tm\<lparr>vs := demo_booted\<rparr>) of Inr s \<Rightarrow> s | Inl f \<Rightarrow> demo_tm)"

theorem idle_yield_undefined_witness: "run_idle demo_env 0 1 idle_run = Inl Undefined"
proof -
  have "case tm_run demo_env [TBlock 0 (WaitQueue 0)] (demo_tm\<lparr>vs := demo_booted\<rparr>) of Inl f \<Rightarrow> False | Inr s \<Rightarrow> True"
    by code_simp
  then have run: "tm_run demo_env [TBlock 0 (WaitQueue 0)] (demo_tm\<lparr>vs := demo_booted\<rparr>) = Inr idle_run"
    by (auto simp: idle_run_def split: sum.splits)
  have al: "tm_allowed demo_queued demo_bound demo_env [TBlock 0 (WaitQueue 0)] (demo_tm\<lparr>vs := demo_booted\<rparr>)" by code_simp
  have "base_scheduler.tm_good demo_queued wf_deque (\<lambda>_. True) demo_bound None (length demo_boot) idle_run"
    using base_scheduler.tm_boot_run [OF rr.base_scheduler_axioms demo_boot_ok(6) demo_tm_start(5,1) demo_boot_ok(2,4)
        demo_tm_start(2,3,4) al] run by auto
  then have "vs_ok wf_deque (\<lambda>_. True) (vs idle_run)" "0 < length (percpus (vs idle_run))"
    unfolding base_scheduler.tm_good_def [OF rr.base_scheduler_axioms] by (simp_all add: demo_boot_def)
  moreover have "1 = current_task (cpu_at (vs idle_run) 0)" "1 = idle_task (cpu_at (vs idle_run) 0)"
    "is_idle (tasks (vs idle_run) 1)" "state (tasks (vs idle_run) 1) = Inr Running"
    "mset (dq_list (scheduler (cpu_at (vs idle_run) 0))) = {#}" "prev_task (cpu_at (vs idle_run) 0) = None"
    by code_simp+
  ultimately have "tm_yield_now demo_env 0 idle_run = Inl Undefined"
    by (rule idle_yield_undefined [OF rr.base_scheduler_axioms demo_boot_ok(6)])
  then show ?thesis by simp
qed

subsection \<open>Waking, exiting and joining, step by step\<close>

text \<open>Coroutine 3 runs on CPU 0, thread 4 on CPU 1.\<close>

definition both_run :: "(tid deque, rr_task, nat, nat, nat set) tm" where
  "both_run = (case tm_run demo_env [TSpawn 0 3, TSpawn 1 4, TYield 0, TYield 1] (demo_tm\<lparr>vs := demo_booted\<rparr>) of
     Inr s \<Rightarrow> s | Inl f \<Rightarrow> demo_tm)"

text \<open>C38: A wake-up by a waker can be lost. Coroutine 3 polls \<^verbatim>\<open>WakerBlockFuture\<close>, which queues its waker
  and returns \<^verbatim>\<open>Pending\<close>; before \<^verbatim>\<open>coroutine_schedule\<close> marks it \<^verbatim>\<open>Blocked\<close>, CPU 1 notifies the queue.
  The wake-up finds the task still \<^verbatim>\<open>Running\<close> and does nothing; then the task is marked \<^verbatim>\<open>Blocked\<close> and
  waits in no ready queue, no wait queue and no waker queue.\<close>

theorem waker_wakeup_lost:
  "\<exists>s1 s2 s3 b. waker_poll 5 3 False both_run = (True, s1, PollPending) \<and>
     waker_notify_one demo_env 1 5 s1 = Inr (s2, True) \<and> after_poll demo_env 0 3 s2 = Inr (s3, b) \<and>
     state (tasks (vs s3) 3) = Inr Blocked \<and> current_task (cpu_at (vs s3) 0) \<noteq> 3 \<and>
     3 \<notin> set (dq_list (scheduler (cpu_at (vs s3) 0))) \<and> 3 \<notin> set (dq_list (scheduler (cpu_at (vs s3) 1))) \<and>
     waker_queues s3 5 = [] \<and> queues s3 (ExitOf 3) = []"
proof -
  have "case waker_poll 5 3 False both_run of (f, s1, p) \<Rightarrow> f \<and> p = PollPending \<and>
    (case waker_notify_one demo_env 1 5 s1 of Inl x \<Rightarrow> False | Inr (s2, b2) \<Rightarrow> b2 \<and>
    (case after_poll demo_env 0 3 s2 of Inl x \<Rightarrow> False | Inr (s3, b) \<Rightarrow>
     state (tasks (vs s3) 3) = Inr Blocked \<and> current_task (cpu_at (vs s3) 0) \<noteq> 3 \<and>
     3 \<notin> set (dq_list (scheduler (cpu_at (vs s3) 0))) \<and> 3 \<notin> set (dq_list (scheduler (cpu_at (vs s3) 1))) \<and>
     waker_queues s3 5 = [] \<and> queues s3 (ExitOf 3) = []))"
    by code_simp
  then show ?thesis unfolding case_sum_ok by auto
qed

text \<open>C39: \<^verbatim>\<open>join_f\<close> can sleep for ever. The coroutine checks that thread 4 has not exited, without the lock
  of the queue; thread 4 exits on CPU 1 and notifies the queue, which is empty; the coroutine then
  queues itself and blocks. The thread has exited and its only notification is past.\<close>

theorem join_f_wakeup_lost:
  "\<exists>s1 s2 s3. join_f_step False False demo_env 0 4 3 LoopHead both_run = Inr (Some (Awaiting False), s1, None) \<and>
     tm_exit demo_env 1 7 s1 = Inr (s2, Gone) \<and>
     join_f_step False False demo_env 0 4 3 (Awaiting False) s2 = Inr (Some (Awaiting True), s3, None) \<and>
     state (tasks (vs s3) 4) = Inr Exited \<and> state (tasks (vs s3) 3) = Inr Blocked \<and> queues s3 (ExitOf 4) = [3]"
proof -
  have "case join_f_step False False demo_env 0 4 3 LoopHead both_run of Inl x \<Rightarrow> False | Inr (w1, s1, r1) \<Rightarrow>
     w1 = Some (Awaiting False) \<and> r1 = None \<and>
     (case tm_exit demo_env 1 7 s1 of Inl x \<Rightarrow> False | Inr (s2, e) \<Rightarrow> e = Gone \<and>
     (case join_f_step False False demo_env 0 4 3 (Awaiting False) s2 of Inl x \<Rightarrow> False | Inr (w3, s3, r3) \<Rightarrow>
     w3 = Some (Awaiting True) \<and> r3 = None \<and>
     state (tasks (vs s3) 4) = Inr Exited \<and> state (tasks (vs s3) 3) = Inr Blocked \<and> queues s3 (ExitOf 4) = [3]))"
    by code_simp
  then show ?thesis unfolding case_sum_ok by auto
qed


subsection \<open>The stack at the end of a coroutine's pass\<close>

lemma kstack_frame [task_simps]:
  "kstack (set_on_cpu b t) = kstack t" "kstack (set_state x t) = kstack t" "kstack (set_preempt_pending b t) = kstack t"
  by (simp_all add: set_on_cpu_def set_state_def set_preempt_pending_def)

lemma resched_f_kstack: "resched_f env c v = Inr (v', b) \<Longrightarrow> kstack (tasks v' u) = kstack (tasks v u)"
  by (auto simp: resched_f_def bind_outcome_eq_Inr Let_def task_simps split: if_splits dest!: pick_tasks)

lemma current_eq: "current c v = Inr t \<Longrightarrow> current_task (cpu_at v c) = t"
  by (auto simp: current_def bind_outcome_eq_Inr get_run_queue_def cpu_at_def split: if_splits option.splits)

text \<open>C36: At the end of its pass the coroutine's stack is handed on exactly once: the task the CPU goes on
  with gets it when it is a coroutine without a stack, and the loop continues on it; otherwise that
  task has a stack of its own (or is an init or idle task), and the stack goes to the CPU's pool. The
  coroutine keeps no stack unless it goes on itself, and no other task's stack changes.\<close>

theorem coroutine_stack_handed_on:
  assumes "after_poll env c me s = Inr (s', b)" "kstack (tasks (vs s) me) = Some k"
  shows "let n = current_task (cpu_at (vs s') c); ti = tasks (vs s') n in
    (if b then kstack ti = Some k \<and> \<not> is_init ti \<and> \<not> is_idle ti \<and> stack_pool s' = stack_pool s
     else (kstack ti \<noteq> None \<or> is_init ti \<or> is_idle ti) \<and> stack_pool s' = (stack_pool s)(c := k # stack_pool s c)) \<and>
    (n \<noteq> me \<or> \<not> b \<longrightarrow> kstack (tasks (vs s') me) = None) \<and>
    (\<forall>u. u \<noteq> me \<and> (u \<noteq> n \<or> \<not> b) \<longrightarrow> kstack (tasks (vs s') u) = kstack (tasks (vs s) u))"
proof -
  obtain r where r: "is_running (tasks (vs s) me) = Inr r"
    using assms(1) by (auto simp: after_poll_def bind_outcome_eq_Inr)
  obtain s1 where s1: "(if r then bind_outcome (resched_f env c (on_task me (set_state Blocked) (vs s)))
      (\<lambda>(v, sw). Inr (s\<lparr>vs := v\<rparr>)) else Inr s) = Inr s1"
    using assms(1) r by (auto simp: after_poll_def bind_outcome_eq_Inr)
  have k1: "kstack (tasks (vs s1) u) = kstack (tasks (vs s) u)" "stack_pool s1 = stack_pool s" for u
    using s1 by (auto simp: bind_outcome_eq_Inr task_simps split: if_splits dest!: resched_f_kstack)
  let ?s2 = "put_stack me None s1"
  have "bind_outcome (current c (vs ?s2)) (\<lambda>n. if kstack (tasks (vs ?s2) n) = None \<and>
        \<not> is_init (tasks (vs ?s2) n) \<and> \<not> is_idle (tasks (vs ?s2) n)
      then Inr (put_stack n (Some k) ?s2, True) else Inr (recycle_stack_of_coroutine c k ?s2, False)) = Inr (s', b)"
    using assms(1) unfolding after_poll_def r bind_outcome_Inr s1 k1(1) assms(2) option.case Let_def .
  then obtain n where n: "current c (vs ?s2) = Inr n"
    and fin: "(if kstack (tasks (vs ?s2) n) = None \<and> \<not> is_init (tasks (vs ?s2) n) \<and> \<not> is_idle (tasks (vs ?s2) n)
      then Inr (put_stack n (Some k) ?s2, True) else Inr (recycle_stack_of_coroutine c k ?s2, False)) = (Inr (s', b) :: (_ \<times> bool) outcome)"
    unfolding bind_outcome_eq_Inr by (elim exE conjE)
  have cur: "current_task (cpu_at (vs ?s2) c) = n" using current_eq [OF n] .
  have k2: "kstack (tasks (vs ?s2) u) = (if u = me then None else kstack (tasks (vs s) u))"
    "stack_pool ?s2 = stack_pool s" for u
    using k1 by (simp_all add: put_stack_def)
  show ?thesis
  proof (cases "kstack (tasks (vs ?s2) n) = None \<and> \<not> is_init (tasks (vs ?s2) n) \<and> \<not> is_idle (tasks (vs ?s2) n)")
    case True
    then have s': "s' = put_stack n (Some k) ?s2" "b" using fin by auto
    have "current_task (cpu_at (vs s') c) = n" "kstack (tasks (vs s') u) = (if u = n then Some k else kstack (tasks (vs ?s2) u))"
      "is_init (tasks (vs s') n) = is_init (tasks (vs ?s2) n)" "is_idle (tasks (vs s') n) = is_idle (tasks (vs ?s2) n)"
      "stack_pool s' = stack_pool s" for u
      using cur k2(2) by (simp_all add: s'(1) put_stack_def task_simps)
    then show ?thesis using True s'(2) k2(1) by simp
  next
    case False
    then have s': "s' = recycle_stack_of_coroutine c k ?s2" "\<not> b" using fin by (auto split: if_splits)
    then have "vs s' = vs ?s2" "stack_pool s' = (stack_pool s)(c := k # stack_pool s c)"
      using k2(2) by (simp_all add: recycle_stack_of_coroutine_def)
    then show ?thesis using False s'(2) k2(1) cur by simp
  qed
qed

theorem coroutine_stack_handed_on_witness:
  "\<exists>s'. after_poll demo_env 0 3 both_run = Inr (s', False) \<and> kstack (tasks (vs s') 3) = None \<and>
    stack_pool s' 0 = [\<lparr>stack_ptr = 64, stack_size = 4096\<rparr>]"
proof -
  have "case after_poll demo_env 0 3 both_run of Inl x \<Rightarrow> False | Inr (s', b) \<Rightarrow> \<not> b" by code_simp
  then obtain s' where s': "after_poll demo_env 0 3 both_run = Inr (s', False)"
    unfolding case_sum_ok by auto
  have k: "kstack (tasks (vs both_run) 3) = Some \<lparr>stack_ptr = 64, stack_size = 4096\<rparr>" "stack_pool both_run 0 = []"
    by code_simp+
  show ?thesis using coroutine_stack_handed_on [OF s' k(1)] s' k(2) by (simp add: Let_def)
qed

end
