(* ===== verification/Config.thy ===== *)
theory Config
  imports Round_Robin
begin

text \<open>
  The build script \<^verbatim>\<open>config/build.rs\<close>: it reads the capacity of the ready queues and the number of CPUs
  from the environment of the build and writes them as constants. What the capacity means for the ready
  queue of a built scheduler.
\<close>

subsection \<open>Integers and text\<close>

definition digit :: "char \<Rightarrow> int option" where
  "digit c = (if 48 \<le> (of_char c :: int) \<and> of_char c \<le> (57 :: int) then Some (of_char c - 48) else None)"

text \<open>\<^verbatim>\<open>usize::from_str\<close>: an optional plus sign and decimal digits; the multiplication and the addition are
  checked.\<close>

fun parse_digits :: "int \<Rightarrow> string \<Rightarrow> int option" where
  "parse_digits n [] = Some n"
| "parse_digits n (c # cs) = (case digit c of
     None \<Rightarrow> None
   | Some d \<Rightarrow> if 10 * n + d < 18446744073709551616 then parse_digits (10 * n + d) cs else None)"

definition parse_usize :: "string \<Rightarrow> usize option" where
  "parse_usize s =
     (let digits = (if 1 < length s \<and> hd s = CHR ''+'' then tl s else s) in
      if digits = [] then None else map_option word_of_int (parse_digits 0 digits))"

function decimal :: "int \<Rightarrow> string" where
  "decimal n = (if n < 10 then [char_of (48 + n)] else decimal (n div 10) @ [char_of (48 + n mod 10)])"
  by auto
termination by (relation "measure nat") auto

declare decimal.simps [simp del]

definition show_usize :: "usize \<Rightarrow> string" where
  "show_usize n = decimal (uint n)"

definition count_ones :: "usize \<Rightarrow> nat" where
  "count_ones n = length (filter (bit n) [0..<64])"

definition is_power_of_two :: "usize \<Rightarrow> bool" where
  "is_power_of_two n \<longleftrightarrow> count_ones n = 1"

subsection \<open>The script\<close>

definition mut_cfg :: "usize \<Rightarrow> usize \<Rightarrow> string" where
  "mut_cfg rq_cap smp = CHR 0x0A # ''pub const RQ_CAP: usize = '' @ show_usize rq_cap @ '';'' @
     CHR 0x0A # ''pub const SMP: usize = '' @ show_usize smp @ '';'' @ [CHR 0x0A]"

definition env_usize :: "string option \<Rightarrow> string \<Rightarrow> usize outcome" where
  "env_usize var default_text =
     (case parse_usize (case var of None \<Rightarrow> default_text | Some s \<Rightarrow> s) of None \<Rightarrow> Inl Panic | Some n \<Rightarrow> Inr n)"

text \<open>The arguments are the variables \<^verbatim>\<open>RQ_CAP\<close> and \<^verbatim>\<open>SMP\<close>, and whether the file can be written; the result
  is its content.\<close>

definition build_config :: "string option \<Rightarrow> string option \<Rightarrow> bool \<Rightarrow> string outcome" where
  "build_config rq_var smp_var can_write =
     bind_outcome (env_usize rq_var ''256'') (\<lambda>rq_cap.
     bind_outcome (env_usize smp_var ''1'') (\<lambda>smp.
     bind_outcome (assert_outcome (is_power_of_two rq_cap)) (\<lambda>_.
     bind_outcome (assert_outcome can_write) (\<lambda>_. Inr (mut_cfg rq_cap smp)))))"

subsection \<open>What it accepts\<close>

lemma power_of_two_iff: "is_power_of_two n \<longleftrightarrow> (\<exists>k < 64. n = 2 ^ k)"
proof
  assume "is_power_of_two n"
  then obtain k where k: "filter (bit n) [0..<64] = [k]"
    unfolding is_power_of_two_def count_ones_def by (auto simp: length_Suc_conv simp del: upt_rec_numeral)
  have "j < 64 \<and> bit n j \<longleftrightarrow> j = k" for j
    using arg_cong [OF k, of set] by (auto simp: set_eq_iff simp del: upt_rec_numeral)
  then have "n = 2 ^ k" by (intro bit_word_eqI) (auto simp: bit_exp_iff)
  moreover have "k < 64" using arg_cong [OF k, of set] by (auto simp del: upt_rec_numeral)
  ultimately show "\<exists>k < 64. n = 2 ^ k" by blast
next
  assume "\<exists>k < 64. n = 2 ^ k"
  then obtain k where k: "k < 64" "n = 2 ^ k" by blast
  then have "filter (bit n) [0..<64] = filter (\<lambda>j. j = k) [0..<64]"
    by (intro filter_cong) (auto simp: bit_exp_iff)
  moreover have "set (filter (\<lambda>j. j = k) [0..<64]) = {k}" using k(1) by (auto simp del: upt_rec_numeral)
  then have "length (filter (\<lambda>j. j = k) [0..<64]) = 1"
    using distinct_card [of "filter (\<lambda>j. j = k) [0..<64]"] by (simp del: upt_rec_numeral)
  ultimately show "is_power_of_two n" by (simp add: is_power_of_two_def count_ones_def)
qed

lemma digit_char: "0 \<le> n \<Longrightarrow> n < 10 \<Longrightarrow> digit (char_of (48 + n)) = Some n"
  by (simp add: digit_def)

lemma parse_digits_snoc:
  "parse_digits n (s @ [c]) = Option.bind (parse_digits n s) (\<lambda>m. parse_digits m [c])"
  by (induction n s rule: parse_digits.induct) (auto split: option.splits)

lemma parse_decimal:
  "0 \<le> n \<Longrightarrow> n < 18446744073709551616 \<Longrightarrow> parse_digits 0 (decimal n) = Some n"
proof (induction n rule: decimal.induct)
  case (1 n)
  show ?case
  proof (cases "n < 10")
    case True
    then show ?thesis using 1 by (simp add: decimal.simps [of n] digit_char)
  next
    case False
    then have "parse_digits 0 (decimal (n div 10)) = Some (n div 10)" using 1 by simp
    then show ?thesis using False 1
      by (simp add: decimal.simps [of n] parse_digits_snoc digit_char)
  qed
qed

lemma decimal_head: "0 \<le> n \<Longrightarrow> decimal n \<noteq> [] \<and> hd (decimal n) \<noteq> CHR ''+''"
proof (induction n rule: decimal.induct)
  case (1 n)
  have "hd (decimal n) \<noteq> CHR ''+''" if "n < 10"
  proof
    assume "hd (decimal n) = CHR ''+''"
    then have "digit (char_of (48 + n)) = digit (CHR ''+'')" using that by (simp add: decimal.simps [of n])
    then show False using digit_char [of n] 1 that by (simp add: digit_def split: if_splits)
  qed
  then show ?case using 1 by (cases "n < 10") (simp_all add: decimal.simps [of n] hd_append)
qed

lemma parse_show: "parse_usize (show_usize n) = Some n"
proof -
  have "uint n < 18446744073709551616" using uint_lt2p [of n] by simp
  then have "parse_digits 0 (show_usize n) = Some (uint n)"
    unfolding show_usize_def using parse_decimal [of "uint n"] by simp
  then show ?thesis using decimal_head [of "uint n"] by (simp add: parse_usize_def show_usize_def Let_def)
qed


text \<open>C24: a round-robin scheduler built with an accepted capacity \<open>2 ^ k\<close> keeps exactly the first \<open>2 ^ k - 1\<close>
  tasks it is given, in order, and loses the rest. So the default build loses the 256th waiting task, and
  a build with \<open>RQ_CAP = 1\<close>, which the script accepts, loses every task.\<close>

theorem built_scheduler_room:
  assumes "build_config (Some rq_var) smp_var True = Inr text"
  shows "\<exists>c k q q'. parse_usize rq_var = Some c \<and> unat c = 2 ^ k \<and>
    add_all (rr_ops S) ts (dq_new (unat c), st) = Inr (q, st) \<and>
    pick_all (rr_ops S) (length ts) (q, st) = Inr ((q', st), take (2 ^ k - 1) ts)"
proof -
  obtain c where c: "parse_usize rq_var = Some c" "is_power_of_two c"
    using assms by (auto simp: build_config_def env_usize_def bind_outcome_eq_Inr split: option.splits)
  then obtain k where k: "k < 64" "c = 2 ^ k" by (auto simp: power_of_two_iff)
  have "(2 :: nat) ^ k < 2 ^ 64" using k(1) by (intro power_strict_increasing) auto
  then have "unat (of_nat (2 ^ k) :: usize) = 2 ^ k" unfolding unat_of_nat by (intro mod_less) simp
  then have "unat (2 ^ k :: usize) = 2 ^ k" by simp
  then show ?thesis using rr_full_drops [of "2 ^ k" S ts st 0 False] c(1) k(2) by fastforce
qed

lemma config_one: "build_config (Some ''1'') None True = Inr (mut_cfg 1 1)" "parse_usize ''1'' = Some 1"
  by code_simp+

theorem built_scheduler_room_witness:
  "\<exists>q q'. add_all (rr_ops 5) [7, 8] (dq_new 1, \<lambda>_. rr_task_new 5) = Inr (q, \<lambda>_. rr_task_new 5) \<and>
    pick_all (rr_ops 5) 2 (q, \<lambda>_. rr_task_new 5) = Inr ((q', \<lambda>_. rr_task_new 5), [])"
proof -
  obtain c k q q' where r: "parse_usize ''1'' = Some c" "unat c = 2 ^ k"
    "add_all (rr_ops 5) [7, 8] (dq_new (unat c), \<lambda>_. rr_task_new 5) = Inr (q, \<lambda>_. rr_task_new 5)"
    "pick_all (rr_ops 5) (length [7, 8 :: nat]) (q, \<lambda>_. rr_task_new 5) = Inr ((q', \<lambda>_. rr_task_new 5), take (2 ^ k - 1) [7, 8])"
    using built_scheduler_room [OF config_one(1)] by blast
  have c: "c = 1" using r(1) config_one(2) by simp
  then have "k = 0" using r(2) by (cases k) auto
  then show ?thesis using r(3,4) c by (auto simp: numeral_2_eq_2 simp del: pick_all.simps add_all.simps)
qed

end
