(* ===== verification/User_Tests.thy ===== *)
theory User_Tests
  imports Coroutine_Run Round_Robin Config
begin

text \<open>
  The test programs of \<^verbatim>\<open>user_test/src/bin\<close> that run on one CPU, on the whole stack: the functions of
  \<^verbatim>\<open>task_management\<close> over the run queues over a scheduler. The body of the main task, of a
  thread and of a coroutine is a list of statements; a step is the next statement of the current task,
  or one poll of the future it awaits.
\<close>

subsection \<open>Programs\<close>

text \<open>A task of a program is known by the number under which its \<^verbatim>\<open>Arc\<close> is stored; \<open>YieldF\<close>, \<open>JoinF\<close>,
  \<open>WaitF\<close> and \<open>ExitF\<close> are the calls that a coroutine awaits.\<close>

datatype stmt =
  Println string
| New tid string "stmt list"
| NewF tid string "stmt list"
| SpawnTask tid
| YieldNow
| YieldF
| JoinTask tid
| JoinF tid
| WaitF nat
| NotifyAll nat
| ExitTask i32
| ExitF i32
| IdleLoop

text \<open>\<open>todo\<close>: what is left of the bodies; \<open>fut\<close>: the state of the future that a coroutine awaits;
  \<open>exited\<close>: the exit code of the program once the main task has called \<^verbatim>\<open>exit\<close>.\<close>

record ('q, 'i) machine =
  sys :: "('q, 'i, nat, stmt list, unit) tm"
  todo :: "tid \<Rightarrow> stmt list"
  fut :: "tid \<Rightarrow> wait_state"
  printed :: "string list"
  exited :: "i32 option"

definition advance :: "tid \<Rightarrow> ('q, 'i) machine \<Rightarrow> ('q, 'i) machine" where
  "advance t m = m\<lparr>todo := (todo m)(t := tl (todo m t)), fut := (fut m)(t := LoopHead)\<rparr>"

definition put_sys :: "('q, 'i, nat, stmt list, unit) tm \<Rightarrow> ('q, 'i) machine \<Rightarrow> ('q, 'i) machine" where
  "put_sys s m = m\<lparr>sys := s\<rparr>"

definition polled_before :: "wait_state \<Rightarrow> bool" where
  "polled_before w = (case w of LoopHead \<Rightarrow> False | Awaiting b \<Rightarrow> b)"

text \<open>A future of one \<^verbatim>\<open>.await\<close> after a poll of task \<open>t\<close>: it is over, or the pass of the coroutine ends.\<close>

definition after_await :: "('q, 'i, nat) platform \<Rightarrow> tid \<Rightarrow> ('q, 'i) machine \<Rightarrow>
    bool \<times> ('q, 'i, nat, stmt list, unit) tm \<times> poll \<Rightarrow> ('q, 'i) machine outcome" where
  "after_await env t m = (\<lambda>(flag, s, p).
     if p = PollReady then Inr (advance t (put_sys s m))
     else bind_outcome (co_end env 0 t (Inr (s, p))) (\<lambda>s'.
       Inr (put_sys s' (m\<lparr>fut := (fut m)(t := Awaiting flag)\<rparr>))))"

text \<open>The addresses handed to \<^verbatim>\<open>TaskInner::new\<close> and \<^verbatim>\<open>new_f\<close> and the stack size are arbitrary here.\<close>

definition exec_stmt :: "('q, 'i, nat) platform \<Rightarrow> 'i \<Rightarrow> tid \<Rightarrow> stmt \<Rightarrow> ('q, 'i) machine \<Rightarrow> ('q, 'i) machine outcome" where
  "exec_stmt env i0 t st m = (case st of
     Println x \<Rightarrow> Inr (advance t (m\<lparr>printed := printed m @ [x]\<rparr>))
   | New u name body \<Rightarrow>
       bind_outcome (tm_new () (ctx_init env) id (\<lambda>n. 4096) 0 i0 64 u body name 4096 (sys m)) (\<lambda>s.
         Inr (advance t (put_sys s (m\<lparr>todo := (todo m)(u := body @ [ExitTask 0])\<rparr>))))
   | NewF u name body \<Rightarrow>
       Inr (advance t (put_sys (tm_new_f () 0 i0 128 192 (\<lambda>f. f @ [ExitF 0]) u body name (sys m))
         (m\<lparr>todo := (todo m)(u := body @ [ExitF 0])\<rparr>)))
   | SpawnTask u \<Rightarrow> bind_outcome (tm_spawn env 0 u (sys m)) (\<lambda>s. Inr (advance t (put_sys s m)))
   | YieldNow \<Rightarrow> bind_outcome (tm_yield_now env 0 (sys m)) (\<lambda>s. Inr (advance t (put_sys s m)))
   | IdleLoop \<Rightarrow> bind_outcome (tm_yield_now env 0 (sys m)) (\<lambda>s. Inr (put_sys s m))
   | JoinTask u \<Rightarrow> bind_outcome (join_pass False env 0 u t (sys m)) (\<lambda>(s, r).
       Inr (if r = None then put_sys s m else advance t (put_sys s m)))
   | NotifyAll w \<Rightarrow> bind_outcome (waker_notify_all env 0 w (sys m)) (\<lambda>s. Inr (advance t (put_sys s m)))
   | YieldF \<Rightarrow> bind_outcome (yield_poll env 0 (polled_before (fut m t)) (sys m)) (after_await env t m)
   | WaitF w \<Rightarrow> after_await env t m (waker_poll w t (polled_before (fut m t)) (sys m))
   | JoinF u \<Rightarrow>
       bind_outcome (wait_until_f_step False False env 0 (ExitOf u) (join_condition u) t (fut m t) (sys m)) (\<lambda>(ws, s, p).
         if p = PollReady then
           Inr (case ws of None \<Rightarrow> advance t (put_sys s m) | Some w \<Rightarrow> put_sys s (m\<lparr>fut := (fut m)(t := w)\<rparr>))
         else bind_outcome (co_end env 0 t (Inr (s, p))) (\<lambda>s'.
           Inr (put_sys s' (m\<lparr>fut := (fut m)(t := (case ws of None \<Rightarrow> LoopHead | Some w \<Rightarrow> w))\<rparr>))))
   | ExitTask x \<Rightarrow> bind_outcome (tm_exit env 0 x (sys m)) (\<lambda>(s, e).
       Inr (put_sys s (m\<lparr>exited := (case e of MainExit y \<Rightarrow> Some y | Gone \<Rightarrow> exited m)\<rparr>)))
   | ExitF x \<Rightarrow> bind_outcome (exit_poll env 0 x (sys m)) (\<lambda>(s, p).
       bind_outcome (co_end env 0 t (Inr (s, p))) (\<lambda>s'. Inr (put_sys s' m))))"

definition machine_step :: "('q, 'i, nat) platform \<Rightarrow> 'i \<Rightarrow> ('q, 'i) machine \<Rightarrow> ('q, 'i) machine outcome" where
  "machine_step env i0 m =
     bind_outcome (current 0 (vs (sys m))) (\<lambda>t.
       case todo m t of [] \<Rightarrow> Inl Undefined | st # rest \<Rightarrow> exec_stmt env i0 t st m)"

text \<open>At most \<open>n\<close> steps, up to the end of the program.\<close>

fun machine_run :: "('q, 'i, nat) platform \<Rightarrow> 'i \<Rightarrow> nat \<Rightarrow> ('q, 'i) machine \<Rightarrow> ('q, 'i) machine outcome" where
  "machine_run env i0 0 m = Inr m"
| "machine_run env i0 (Suc n) m =
     (if exited m = None then bind_outcome (machine_step env i0 m) (machine_run env i0 n) else Inr m)"

text \<open>\<^verbatim>\<open>main\<close>: the CPU is number 0, \<^verbatim>\<open>init_vsched\<close> makes the calling thread the main task (0) with an idle
  task (1).\<close>

definition boot_machine :: "('q, 'i, nat) platform \<Rightarrow> 'i \<Rightarrow> stmt list \<Rightarrow> ('q, 'i) machine outcome" where
  "boot_machine env i0 main =
     (let s0 = \<lparr>vs = \<lparr>percpus = [None], tasks = (\<lambda>_. snd (new_common 0 0)), sched_info = (\<lambda>_. i0)\<rparr>,
        exts = (\<lambda>_. ext_new_common () []), queues = (\<lambda>_. []), waker_queues = (\<lambda>_. []), stack_pool = (\<lambda>_. []),
        released = [], id_counter = 1, rq_index = 0\<rparr> in
      bind_outcome (tm_init_vsched env () (\<lambda>_. ()) id (\<lambda>n. 4096) 0 i0 64 [IdleLoop] 4096 0 1 0 s0) (\<lambda>s.
        Inr \<lparr>sys = s, todo = (\<lambda>t. if t = 0 then main else if t = 1 then [IdleLoop] else []), fut = (\<lambda>_. LoopHead),
          printed = [], exited = None\<rparr>))"

definition run_program :: "('q, 'i, nat) platform \<Rightarrow> 'i \<Rightarrow> nat \<Rightarrow> stmt list \<Rightarrow> (string list \<times> i32 option) outcome" where
  "run_program env i0 n main =
     bind_outcome (boot_machine env i0 main) (\<lambda>m.
     bind_outcome (machine_run env i0 n m) (\<lambda>m'. Inr (printed m', exited m')))"

subsection \<open>The programs\<close>

text \<open>\<^verbatim>\<open>yield.rs\<close>\<close>

definition yield_main :: "stmt list" where
  "yield_main =
     [New 2 ''task__1'' [Println ''(2) into thread1'', YieldNow, Println ''(6) back to thread1 after yield''],
      NewF 3 ''task__2'' [Println ''(3) into coroutine2'', YieldF, Println ''(7) back to coroutine2 after yield''],
      NewF 4 ''task__3'' [Println ''(4) into coroutine3'', YieldF, Println ''(8) back to coroutine3 after yield''],
      SpawnTask 2, SpawnTask 3, SpawnTask 4,
      Println ''(1) main task before yield'', YieldNow, Println ''(5) back to main task'', YieldNow, ExitTask 0]"

text \<open>\<^verbatim>\<open>wait.rs\<close>\<close>

definition wait_main :: "stmt list" where
  "wait_main =
     [New 2 ''task__1'' [Println ''(3) into spawned task inner''],
      New 3 ''task__2'' [Println ''(2) wait thread start'', JoinTask 2, Println ''(4) wait thread ok''],
      NewF 4 ''task__3'' [Println ''(1) wait coroutine start'', JoinF 3, Println ''(5) wait coroutine ok''],
      SpawnTask 4, SpawnTask 3, SpawnTask 2, YieldNow, JoinTask 2, JoinTask 3, JoinTask 4,
      Println ''back to idle task'', ExitTask 0]"

text \<open>\<^verbatim>\<open>coroutine_wait.rs\<close>\<close>

definition coroutine_wait_main :: "stmt list" where
  "coroutine_wait_main =
     [NewF 2 ''task__1'' [Println ''into spawned task inner''],
      NewF 3 ''task__2'' [Println ''wait task start'', JoinF 2, Println ''wait task ok''],
      SpawnTask 3, SpawnTask 2, YieldNow, Println ''back to idle task'', JoinTask 2, JoinTask 3, ExitTask 0]"

text \<open>\<^verbatim>\<open>waker_wait.rs\<close>: the waker queue is number 0.\<close>

definition waker_wait_main :: "stmt list" where
  "waker_wait_main =
     [NewF 2 ''task__1'' [Println ''task1: before wait'', WaitF 0, Println ''task1: after wait''],
      NewF 3 ''task__2'' [Println ''task2: before wait'', WaitF 0, Println ''task2: after wait''],
      NewF 4 ''task__3'' [Println ''task3: before wait'', WaitF 0, Println ''task3: after wait''],
      SpawnTask 4, SpawnTask 3, SpawnTask 2, YieldNow, Println ''notify all'', NotifyAll 0, YieldNow,
      JoinTask 2, JoinTask 3, JoinTask 4, Println ''back to idle task'', ExitTask 0]"

text \<open>\<^verbatim>\<open>all.rs\<close> on one CPU (\<^verbatim>\<open>SMP = 1\<close>), for any number of tasks: task \<open>i\<close> joins task \<open>i + 1\<close>; the later half are threads, the others coroutines.\<close>

definition number :: "nat \<Rightarrow> string" where
  "number n = decimal (int n)"

definition all_task :: "nat \<Rightarrow> nat \<Rightarrow> stmt" where
  "all_task task_num i =
     (if task_num div 2 \<le> i then
        New (i + 2) (''task__'' @ number i)
          ([Println (''into thread '' @ number i), YieldNow, Println (''thread '' @ number i @ '' after yield'')] @
           (if i + 1 < task_num then [JoinTask (i + 3)] else []) @
           [Println (''('' @ number (task_num - i) @ '') thread '' @ number i @ '' after join'')])
      else
        NewF (i + 2) (''task__'' @ number i)
          ([Println (''into coroutine '' @ number i), YieldF, Println (''coroutine '' @ number i @ '' after yield'')] @
           (if i + 1 < task_num then [JoinF (i + 3)] else []) @
           [Println (''('' @ number (task_num - i) @ '') coroutine '' @ number i @ '' after join'')]))"

definition all_main :: "nat \<Rightarrow> stmt list" where
  "all_main task_num = map (all_task task_num) (rev [0..<task_num]) @ map (\<lambda>i. SpawnTask (i + 2)) [0..<task_num] @
     [JoinTask 2, Println ''test ok!'', ExitTask 0]"

subsection \<open>A build\<close>

text \<open>The feature \<^verbatim>\<open>sched-rr\<close>, with \<open>cap\<close> slots in the ready queue.\<close>

definition rr_build :: "nat \<Rightarrow> (tid deque, rr_task, nat) platform" where
  "rr_build cap = \<lparr>sched_ops = rr_ops 5, scheduler_new = dq_new cap, ctx_init = (\<lambda>entry sp c. Suc c),
     call_alloc = (\<lambda>f. \<lparr>stack_ptr = f, stack_size = 4096\<rparr>)\<rparr>"

end
