(* ===== verification/User_Tests_Props.thy ===== *)
theory User_Tests_Props
  imports User_Tests
begin

text \<open>
  The runs of the test programs, by rewriting with the definitions of all the layers: the arguments of a
  sequence are evaluated before its continuation.
\<close>

lemma let_weak_cong: "a = b \<Longrightarrow> Let a f = Let b f"
  by simp

lemma bind_outcome_weak: "m = m' \<Longrightarrow> bind_outcome m f = bind_outcome m' f"
  by simp

lemma dq_exec_go: "\<not> is_finished p \<Longrightarrow> dq_exec q p = (case dq_step False q p of (q', p') \<Rightarrow> dq_exec q' p')"
  by (simp add: dq_exec.simps [of q p] split_beta)

lemma machine_run_numeral: "machine_run env i0 (numeral k) m =
    (if exited m = None then bind_outcome (machine_step env i0 m) (machine_run env i0 (pred_numeral k)) else Inr m)"
  by (simp add: numeral_eq_Suc)

lemmas run_congs = let_weak_cong bind_outcome_weak

lemmas run_defs =
  nth_list_update_if numeral_2_eq_2 [symmetric] dq_exec_go run_program_def boot_machine_def
  tm_init_vsched_def set_cpumask_def tm_new_init_def new_init_def new_common_def task_id_new_def
  set_on_cpu_def store_task_def put_queue_def put_ext_def on_vs_def on_task_def ext_new_common_def
  set_state_def tm_new_def task_new_def stack_alloc_def stack_top_def init_vsched_def set_percpu_def
  percpu_new_def Let_def machine_run_numeral machine_step_def exec_stmt_def current_def
  get_run_queue_def advance_def put_sys_def tm_spawn_def spawn_def is_ready_def is_running_def
  state_def task_state_from_def assert_outcome_def set_sched_def rr_build_def rr_add_task_def
  rr_pick_next_task_def rr_put_prev_task_def ignore_push_def popped_def push_back_def push_front_def
  pop_front_def tm_yield_now_def yield_now_def yield_with_def finish_switch_def
  take_prev_task_and_clear_on_cpu_def put_prev_def put_task_with_state_def transition_state_def
  is_idle_def on_cpu_def resched_def pick_or_idle_def switch_to_def set_kstack_def
  set_preempt_pending_def reset_time_slice_def rr_task_new_def dq_step_def dq_capacity_def
  dq_new_def set_slot_state_def set_slot_data_def ring_next_def ring_prev_def empty_slot_def
  yield_poll_def yield_f_def resched_f_def after_await_def co_end_def after_poll_def put_stack_def
  recycle_stack_of_coroutine_def is_init_def tm_exit_def notify_exit_def notify_all.simps
  notify_one_def unblock_one_task_def unblock_task_def set_exit_code_def exit_code_def join_pass_def
  join_condition_def wait_until_pass_def cancel_events_def in_wait_queue_def set_in_wait_queue_def
  blocked_resched_def park_def exit_poll_def wait_until_f_step_def blocked_poll_def waker_poll_def
  put_wakers_def waker_notify_all.simps waker_notify_one_def wake_def polled_before_def rr_ops_def
  tm_new_f_def set_coroutine_schedule_def set_alloc_stack_fn_def

lemma yield_run: "run_program (rr_build 8) (rr_task_new 5) 40 yield_main =
  Inr ([''(1) main task before yield'', ''(2) into thread1'', ''(3) into coroutine2'', ''(4) into coroutine3'',
    ''(5) back to main task'', ''(6) back to thread1 after yield'', ''(7) back to coroutine2 after yield'',
    ''(8) back to coroutine3 after yield''], Some 0)"
  by (simp add: run_defs yield_main_def cong: run_congs)

lemma wait_run: "run_program (rr_build 8) (rr_task_new 5) 40 wait_main =
  Inr ([''(1) wait coroutine start'', ''(2) wait thread start'', ''(3) into spawned task inner'',
    ''(4) wait thread ok'', ''(5) wait coroutine ok'', ''back to idle task''], Some 0)"
  by (simp add: run_defs wait_main_def cong: run_congs)

lemma coroutine_wait_run: "run_program (rr_build 8) (rr_task_new 5) 40 coroutine_wait_main =
  Inr ([''wait task start'', ''into spawned task inner'', ''back to idle task'', ''wait task ok''], Some 0)"
  by (simp add: run_defs coroutine_wait_main_def cong: run_congs)

lemma waker_wait_run: "run_program (rr_build 8) (rr_task_new 5) 40 waker_wait_main =
  Inr ([''task3: before wait'', ''task2: before wait'', ''task1: before wait'', ''notify all'',
    ''task1: after wait'', ''task2: after wait'', ''task3: after wait'', ''back to idle task''], Some 0)"
  by (simp add: run_defs waker_wait_main_def cong: run_congs)

lemma all_tasks_4: "all_main 4 =
  [New 5 ''task__3'' [Println ''into thread 3'', YieldNow, Println ''thread 3 after yield'',
     Println ''(1) thread 3 after join''],
   New 4 ''task__2'' [Println ''into thread 2'', YieldNow, Println ''thread 2 after yield'', JoinTask 5,
     Println ''(2) thread 2 after join''],
   NewF 3 ''task__1'' [Println ''into coroutine 1'', YieldF, Println ''coroutine 1 after yield'', JoinF 4,
     Println ''(3) coroutine 1 after join''],
   NewF 2 ''task__0'' [Println ''into coroutine 0'', YieldF, Println ''coroutine 0 after yield'', JoinF 3,
     Println ''(4) coroutine 0 after join''],
   SpawnTask 2, SpawnTask 3, SpawnTask 4, SpawnTask 5, JoinTask 2, Println ''test ok!'', ExitTask 0]"
  by code_simp

lemma all_run: "run_program (rr_build 8) (rr_task_new 5) 60 (all_main 4) =
  Inr ([''into coroutine 0'', ''into coroutine 1'', ''into thread 2'', ''into thread 3'',
    ''coroutine 0 after yield'', ''coroutine 1 after yield'', ''thread 2 after yield'', ''thread 3 after yield'',
    ''(1) thread 3 after join'', ''(2) thread 2 after join'', ''(3) coroutine 1 after join'',
    ''(4) coroutine 0 after join'', ''test ok!''], Some 0)"
  by (simp add: run_defs all_tasks_4 cong: run_congs)


end
