(* ===== verification/Vsched_Apis.thy ===== *)
theory Vsched_Apis
  imports Prelude "HOL-Library.Sublist"
begin

text \<open>
  The build script \<^verbatim>\<open>vsched_apis/build.rs\<close>: it reads \<^verbatim>\<open>vsched/src/api.rs\<close> and writes the bindings through
  which kernel and user code call the vDSO. A string is the list of its bytes. The matches of the two
  regular expressions (third-party crate) are parameters.
\<close>

subsection \<open>Strings of the standard library\<close>

definition nl :: char where
  "nl = CHR 0x0A"

definition quote :: char where
  "quote = CHR 0x22"

fun split_on :: "char \<Rightarrow> string \<Rightarrow> string list" where
  "split_on c [] = [[]]"
| "split_on c (x # xs) =
     (if x = c then [] # split_on c xs
      else (case split_on c xs of [] \<Rightarrow> [[x]] | p # ps \<Rightarrow> (x # p) # ps))"

definition white_space :: "char \<Rightarrow> bool" where
  "white_space c \<longleftrightarrow> c \<in> {CHR '' '', CHR 0x09, CHR 0x0A, CHR 0x0B, CHR 0x0C, CHR 0x0D}"

definition trim :: "string \<Rightarrow> string" where
  "trim s = rev (dropWhile white_space (rev (dropWhile white_space s)))"

function trim_end_matches :: "string \<Rightarrow> string \<Rightarrow> string" where
  "trim_end_matches pat s =
     (if pat \<noteq> [] \<and> suffix pat s then trim_end_matches pat (take (length s - length pat) s) else s)"
  by auto
termination
  by (relation "measure (length \<circ> snd)") (auto simp: suffix_def)

declare trim_end_matches.simps [simp del]

fun join :: "string \<Rightarrow> string list \<Rightarrow> string" where
  "join sep [] = []"
| "join sep [x] = x"
| "join sep (x # xs) = x @ sep @ join sep xs"

subsection \<open>The parts of the generated file\<close>

text \<open>
  \<open>fn_captures\<close>: the pairs (name, parameter list and result) that the first expression finds in the
  source, \<open>param_captures\<close>: what the second one finds between the parentheses of such a list.
\<close>

record regexes =
  fn_captures :: "string \<Rightarrow> (string \<times> string) list"
  param_captures :: "string \<Rightarrow> string list"

definition vsched_vtable_struct_str :: "(string \<times> string) list \<Rightarrow> string" where
  "vsched_vtable_struct_str fns =
     nl # ''struct VschedVTable {'' @ nl #
     concat (map (\<lambda>(name, args). ''    pub '' @ name @ '': Option<fn'' @ args @ ''>,'' @ [nl]) fns) @
     ''}'' @ [nl]"

definition static_vsched_vtable_str :: "(string \<times> string) list \<Rightarrow> string" where
  "static_vsched_vtable_str fns =
     nl # ''static mut VSCHED_VTABLE: VschedVTable = VschedVTable {'' @ nl #
     concat (map (\<lambda>(name, _). ''    '' @ name @ '': None,'' @ [nl]) fns) @ ''};'' @ [nl]"

definition INIT_VSCHED_VTABLE_STR :: string where
  "INIT_VSCHED_VTABLE_STR =
     nl # ''pub unsafe fn init_vsched_vtable(base: u64, vsched_elf: &ElfFile) {'' @
     nl # ''    if let Some(dyn_sym_table) = vsched_elf.find_section_by_name('' @
       quote # ''.dynsym'' @ quote # '') {'' @
     nl # ''        let dyn_sym_table = match dyn_sym_table.get_data(&vsched_elf) {'' @
     nl # ''            Ok(xmas_elf::sections::SectionData::DynSymbolTable64(dyn_sym_table)) => dyn_sym_table,'' @
     nl # ''            _ => panic!('' @ quote # ''Invalid data in .dynsym section'' @ quote # ''),'' @
     nl # ''        };'' @
     nl # ''        for dynsym in dyn_sym_table {'' @
     nl # ''            let name = dynsym.get_name(&vsched_elf).unwrap();'' @ [nl]"

definition init_branch :: "string \<times> string \<Rightarrow> string" where
  "init_branch = (\<lambda>(name, args).
     ''            if name == '' @ quote # name @ quote # '' {'' @
     nl # ''                let fn_ptr = base + dynsym.value();'' @
     nl # ''                log::debug!('' @ quote # ''{}: {:x}'' @ quote # '', name, fn_ptr);'' @
     nl # ''                let f: fn'' @ args @ '' = unsafe { core::mem::transmute(fn_ptr) };'' @
     nl # ''                unsafe { VSCHED_VTABLE.'' @ name @ ''  = Some(f); }'' @
     nl # ''            }'' @ [nl])"

definition fn_init_vsched_vtable_str :: "(string \<times> string) list \<Rightarrow> string" where
  "fn_init_vsched_vtable_str fns = INIT_VSCHED_VTABLE_STR @ concat (map init_branch fns) @
     ''        }'' @ nl # ''    }'' @ nl # ''}'' @ nl # ''    ''"

text \<open>The arguments of the call in a wrapper: the parts of the parameter list before a colon.\<close>

definition param_ident :: "string \<Rightarrow> string" where
  "param_ident s = (if CHR '':'' \<in> set s then trim (takeWhile (\<lambda>c. c \<noteq> CHR '':'') s) else [])"

definition push_idents :: "string \<Rightarrow> string \<Rightarrow> string" where
  "push_idents ident_ty fn_args = trim_end_matches '', '' (fn_args @
     concat (map (\<lambda>ident. if 0 < length ident then ident @ '', '' else [])
       (map param_ident (split_on (CHR '','') ident_ty))))"

definition call_args :: "regexes \<Rightarrow> string \<Rightarrow> string" where
  "call_args rx args = fold push_idents (param_captures rx args) []"

definition wrapper_text :: "string \<Rightarrow> string \<Rightarrow> string \<Rightarrow> string" where
  "wrapper_text name args fn_args =
     nl # ''pub fn '' @ name @ args @ '' {'' @
     nl # ''    if let Some(f) = unsafe { VSCHED_VTABLE.'' @ name @ '' } {'' @
     nl # ''        log::trace!('' @ quote # ''calling '' @ name @ '' at {:#x}'' @ quote # '', f as usize);'' @
     nl # ''        let res = f('' @ fn_args @ '');'' @
     nl # ''        log::trace!('' @ quote # ''calling '' @ name @ '' finished'' @ quote # '');'' @
     nl # ''        res'' @
     nl # ''    } else {'' @
     nl # ''        panic!('' @ quote # name @ '' is not initialized'' @ quote # '')'' @
     nl # ''    }'' @
     nl # ''}'' @ [nl]"

definition api_wrapper :: "regexes \<Rightarrow> string \<times> string \<Rightarrow> string" where
  "api_wrapper rx = (\<lambda>(name, args). wrapper_text name args (call_args rx args))"

text \<open>The head of the file; its first line is a comment in Chinese.\<close>

definition VSCHED_SECTION :: string where
  "VSCHED_SECTION = ''/// '' @ map char_of
      ([232, 191, 153, 233, 135, 140, 231, 154, 132, 228, 184, 142, 32, 86, 115, 99, 104, 101,
      100, 32, 231, 155, 184, 229, 133, 179, 231, 154, 132, 229, 174, 158, 231, 142, 176, 229,
      143, 175, 228, 187, 165, 229, 156, 168, 32, 98, 117, 105, 108, 100, 32, 232, 132, 154,
      230, 156, 172, 228, 184, 173, 230, 157, 165, 232, 135, 170, 229, 138, 168, 229, 140,
      150, 230, 158, 132, 229, 187, 186, 239, 188, 140, 232, 128, 140, 228, 184, 141, 230,
      152, 175, 230, 137, 139, 229, 138, 168, 230, 158, 132, 229, 187, 186, 229, 135, 186,
      230, 157, 165] :: nat list) @ nl #
     nl # ''use base_task::*;'' @
     nl # ''use xmas_elf::symbol_table::Entry;'' @
     nl # ''use xmas_elf::ElfFile;'' @ [nl]"

text \<open>
  The whole script: \<open>source\<close> is the content of \<^verbatim>\<open>api.rs\<close> (\<open>None\<close>: it cannot be read), \<open>can_create\<close> whether
  the output file can be created and written, the result its content.
\<close>

definition build_vsched_api :: "regexes \<Rightarrow> string option \<Rightarrow> bool \<Rightarrow> string outcome" where
  "build_vsched_api rx source can_create =
     (case source of
        None \<Rightarrow> Inl Panic
      | Some text \<Rightarrow>
          let fns = fn_captures rx text in
          bind_outcome (assert_outcome can_create) (\<lambda>_.
            Inr (VSCHED_SECTION @ vsched_vtable_struct_str fns @ static_vsched_vtable_str fns @
              fn_init_vsched_vtable_str fns @ concat (map (api_wrapper rx) fns))))"

subsection \<open>What the generated code does\<close>

text \<open>
  The section \<^verbatim>\<open>.dynsym\<close> of the vDSO image as the ELF library (third-party) presents it: for each symbol
  its name, if it has one, and its value. The table of the generated code, by function name; additions
  wrap (release build).
\<close>

datatype dynsym_section =
  NoSection
| OtherData
| SymbolTable "(string option \<times> u64) list"

type_synonym vtable = "string \<Rightarrow> u64 option"

definition init_symbol :: "(string \<times> string) list \<Rightarrow> string \<Rightarrow> u64 \<Rightarrow> vtable \<Rightarrow> vtable" where
  "init_symbol fns nm fn_ptr vt = fold (\<lambda>(name, _) vt. if nm = name then vt(name \<mapsto> fn_ptr) else vt) fns vt"

fun init_symbols :: "(string \<times> string) list \<Rightarrow> u64 \<Rightarrow> (string option \<times> u64) list \<Rightarrow> vtable \<Rightarrow> vtable outcome" where
  "init_symbols fns base [] vt = Inr vt"
| "init_symbols fns base ((None, v) # syms) vt = Inl Panic"
| "init_symbols fns base ((Some nm, v) # syms) vt = init_symbols fns base syms (init_symbol fns nm (base + v) vt)"

definition init_vsched_vtable :: "(string \<times> string) list \<Rightarrow> u64 \<Rightarrow> dynsym_section \<Rightarrow> vtable \<Rightarrow> vtable outcome" where
  "init_vsched_vtable fns base section vt =
     (case section of
        NoSection \<Rightarrow> Inr vt
      | OtherData \<Rightarrow> Inl Panic
      | SymbolTable syms \<Rightarrow> init_symbols fns base syms vt)"

text \<open>A wrapper: the address it calls.\<close>

definition call_api :: "vtable \<Rightarrow> string \<Rightarrow> u64 outcome" where
  "call_api vt name = (case vt name of Some f \<Rightarrow> Inr f | None \<Rightarrow> Inl Panic)"

lemma init_symbol_apply:
  "init_symbol fns nm p vt f = (if f = nm \<and> f \<in> fst ` set fns then Some p else vt f)"
  unfolding init_symbol_def by (induction fns arbitrary: vt) auto

lemma init_symbols_apply:
  "init_symbols fns base syms vt = Inr vt' \<longleftrightarrow> (\<forall>s \<in> set syms. fst s \<noteq> None) \<and>
     vt' = (\<lambda>f. if f \<in> fst ` set fns
       then (case map_of (rev syms) (Some f) of None \<Rightarrow> vt f | Some v \<Rightarrow> Some (base + v)) else vt f)"
proof (induction fns base syms vt rule: init_symbols.induct)
  case (1 fns base vt)
  then show ?case by auto
next
  case (2 fns base v syms vt)
  then show ?case by auto
next
  case (3 fns base nm v syms vt)
  have "(\<lambda>f. if f \<in> fst ` set fns
       then (case map_of (rev syms) (Some f) of None \<Rightarrow> init_symbol fns nm (base + v) vt f | Some v \<Rightarrow> Some (base + v))
       else init_symbol fns nm (base + v) vt f) =
     (\<lambda>f. if f \<in> fst ` set fns
       then (case map_of (rev ((Some nm, v) # syms)) (Some f) of None \<Rightarrow> vt f | Some v \<Rightarrow> Some (base + v)) else vt f)"
    by (auto simp: fun_eq_iff init_symbol_apply map_add_def split: option.splits)
  then show ?case using 3 by simp
qed

lemma init_symbols_fails: "init_symbols fns base syms vt = Inl e \<longleftrightarrow> e = Panic \<and> (\<exists>s \<in> set syms. fst s = None)"
  by (induction fns base syms vt rule: init_symbols.induct) auto

text \<open>C23: after the initialisation from the image, each wrapper calls the address of the last symbol of its
  name, moved by the load address; a function without a symbol panics. The initialisation itself panics
  exactly when some symbol has no readable name.\<close>

theorem api_calls_symbol:
  assumes "name \<in> fst ` set fns"
  shows "case init_vsched_vtable fns base (SymbolTable syms) (\<lambda>_. None) of
      Inl e \<Rightarrow> e = Panic \<and> (\<exists>s \<in> set syms. fst s = None)
    | Inr vt \<Rightarrow> (\<forall>s \<in> set syms. fst s \<noteq> None) \<and>
        call_api vt name = (case map_of (rev syms) (Some name) of None \<Rightarrow> Inl Panic | Some v \<Rightarrow> Inr (base + v))"
  using assms
  by (auto simp: init_vsched_vtable_def init_symbols_apply init_symbols_fails call_api_def
      split: sum.splits option.splits)

definition demo_symbols :: "(string option \<times> u64) list" where
  "demo_symbols = [(Some ''spawn'', 4096), (Some ''memcpy'', 8), (Some ''resched'', 4608), (Some ''spawn'', 5120)]"

theorem api_calls_symbol_witness:
  "\<exists>vt. init_vsched_vtable [(''spawn'', ''()''), (''resched'', ''()'')] 65536 (SymbolTable demo_symbols) (\<lambda>_. None) = Inr vt \<and>
    call_api vt ''spawn'' = Inr 70656"
  using api_calls_symbol [where name = "''spawn''" and base = 65536 and syms = demo_symbols and
    fns = "[(''spawn'', ''()''), (''resched'', ''()'')]"]
  by (auto simp: demo_symbols_def init_vsched_vtable_def)

subsection \<open>The arguments the wrappers pass on\<close>

text \<open>A parameter list in the form of \<^verbatim>\<open>api.rs\<close>, with what follows it (nothing, or the result type).\<close>

definition params_text :: "(string \<times> string) list \<Rightarrow> string" where
  "params_text ps = join '', '' (map (\<lambda>(ident, ty). ident @ '': '' @ ty) ps)"

definition signature :: "(string \<times> string) list \<Rightarrow> string \<Rightarrow> string" where
  "signature ps ret = ''('' @ params_text ps @ '')'' @ ret"

definition plain_params :: "(string \<times> string) list \<Rightarrow> bool" where
  "plain_params ps \<longleftrightarrow> list_all (\<lambda>(ident, ty). ident \<noteq> [] \<and>
     list_all (\<lambda>c. \<not> white_space c \<and> c \<noteq> CHR '':'' \<and> c \<noteq> CHR '','') ident \<and> CHR '','' \<notin> set ty) ps"

text \<open>What the second expression does, by the documentation of the crate: \<^verbatim>\<open>.*\<close> is greedy and does not
  match a line break, so all up to the last closing parenthesis is captured.\<close>

definition captures_params :: "regexes \<Rightarrow> bool" where
  "captures_params rx \<longleftrightarrow> (\<forall>ps ret. nl \<notin> set ps \<and> CHR '')'' \<notin> set ret \<longrightarrow>
     param_captures rx (''('' @ ps @ '')'' @ ret) = [ps])"

lemma split_on_no: "c \<notin> set s \<Longrightarrow> split_on c s = [s]"
  by (induction s) auto

lemma split_on_cons: "c \<notin> set s \<Longrightarrow> split_on c (s @ c # t) = s # split_on c t"
  by (induction s) auto

lemma param_ident_text:
  assumes "ident \<noteq> []" "list_all (\<lambda>c. \<not> white_space c \<and> c \<noteq> CHR '':'' \<and> c \<noteq> CHR '','') ident"
  shows "param_ident (ident @ '': '' @ ty) = ident" "param_ident ('' '' @ ident @ '': '' @ ty) = ident"
proof -
  have w: "dropWhile white_space ident = ident" "dropWhile white_space (rev ident) = rev ident"
    using assms by (cases ident rule: rev_cases; simp add: dropWhile_eq_self_iff list_all_iff hd_append)+
  have t: "takeWhile (\<lambda>c. c \<noteq> CHR '':'') (ident @ CHR '':'' # r) = ident" for r
    using assms(2) by (simp add: takeWhile_append list_all_iff)
  have sp: "white_space (CHR '' '')" by (simp add: white_space_def)
  show "param_ident (ident @ '': '' @ ty) = ident" "param_ident ('' '' @ ident @ '': '' @ ty) = ident"
    using t w sp by (simp_all add: param_ident_def trim_def)
qed

lemma idents_of_params:
  assumes "plain_params ps" "ps \<noteq> []"
  shows "map param_ident (split_on (CHR '','') (params_text ps)) = map fst ps \<and>
    map param_ident (split_on (CHR '','') ('' '' @ params_text ps)) = map fst ps"
  using assms
proof (induction ps)
  case Nil
  then show ?case by simp
next
  case (Cons p ps)
  obtain ident ty where p: "p = (ident, ty)" by force
  have no: "CHR '','' \<notin> set (ident @ '': '' @ ty)" "CHR '','' \<notin> set ('' '' @ ident @ '': '' @ ty)"
    and ids: "param_ident (ident @ '': '' @ ty) = ident" "param_ident ('' '' @ ident @ '': '' @ ty) = ident"
    using Cons.prems(1) param_ident_text [of ident ty] by (auto simp: plain_params_def list_all_iff p)
  show ?case
  proof (cases ps)
    case Nil
    then show ?thesis using no ids by (simp add: params_text_def p split_on_no)
  next
    case (Cons q qs)
    then have "params_text (p # ps) = (ident @ '': '' @ ty) @ CHR '','' # '' '' @ params_text ps"
      by (simp add: params_text_def p)
    moreover have "map param_ident (split_on (CHR '','') ('' '' @ params_text ps)) = map fst ps"
      using Cons.IH Cons.prems Cons by (simp add: plain_params_def)
    ultimately show ?thesis
      using split_on_cons [OF no(1), of "'' '' @ params_text ps"] split_on_cons [OF no(2), of "'' '' @ params_text ps"] ids
      by (simp add: p)
  qed
qed

lemma trim_end_stop: "\<not> suffix pat s \<Longrightarrow> trim_end_matches pat s = s"
  by (simp add: trim_end_matches.simps [of pat s])

lemma trim_end_once: "pat \<noteq> [] \<Longrightarrow> trim_end_matches pat (s @ pat) = trim_end_matches pat s"
  by (simp add: trim_end_matches.simps [of pat "s @ pat"] suffix_def)

lemma join_snoc: "xs \<noteq> [] \<Longrightarrow> join sep (xs @ [x]) = join sep xs @ sep @ x"
  by (induction sep xs rule: join.induct) auto

lemma pushed_idents:
  assumes "plain_params ps"
  shows "concat (map (\<lambda>i. if 0 < length i then i @ '', '' else []) (map fst ps)) =
    (if ps = [] then [] else join '', '' (map fst ps) @ '', '')"
  using assms
proof (induction ps)
  case (Cons p ps)
  then show ?case by (cases ps) (auto simp: plain_params_def)
qed simp

lemma push_params:
  assumes "plain_params ps"
  shows "push_idents (params_text ps) [] = join '', '' (map fst ps)"
proof (cases ps rule: rev_cases)
  case Nil
  then show ?thesis
    by (simp add: push_idents_def params_text_def param_ident_def trim_end_stop)
next
  case (snoc qs q)
  have i: "fst q \<noteq> []" "last (fst q) \<noteq> CHR '' ''"
    using assms by (auto simp: snoc plain_params_def list_all_iff white_space_def split_beta)
  have "\<exists>r. join '', '' (map fst ps) = r @ fst q" using join_snoc [of "map fst qs" "'', ''" "fst q"] snoc
    by (cases "qs = []") auto
  then have "\<not> suffix '', '' (join '', '' (map fst ps))" using i by (auto simp: suffix_def dest: arg_cong [of _ _ last])
  then show ?thesis
    using idents_of_params [OF assms] pushed_idents [OF assms] snoc
    by (simp add: push_idents_def trim_end_once trim_end_stop)
qed


text \<open>A concrete instance of the two expressions, line by line, and two functions of \<^verbatim>\<open>api.rs\<close>.\<close>

fun exported_fns :: "string list \<Rightarrow> (string \<times> string) list" where
  "exported_fns (a # l # ls) =
     (let f = drop 18 l in
      (if a = ''#[unsafe(no_mangle)]'' \<and> take 11 l = ''pub extern '' \<and> l ! 11 = quote
       then [(takeWhile (\<lambda>c. c \<noteq> CHR ''('') f, take (length f - 2 - length (takeWhile (\<lambda>c. c \<noteq> CHR ''('') f))
         (dropWhile (\<lambda>c. c \<noteq> CHR ''('') f))]
       else []) @ exported_fns (l # ls))"
| "exported_fns _ = []"

definition demo_regexes :: regexes where
  "demo_regexes = \<lparr>fn_captures = exported_fns \<circ> split_on nl,
     param_captures = (\<lambda>s. [rev (tl (dropWhile (\<lambda>c. c \<noteq> CHR '')'') (rev (tl s))))])\<rparr>"

definition demo_source :: string where
  "demo_source = ''#[unsafe(no_mangle)]'' @
     nl # ''pub extern '' @ quote # ''C'' @ quote # '' fn current(cpu_id: usize) -> TaskRef {'' @
     nl # ''}'' @ nl # nl # ''#[unsafe(no_mangle)]'' @
     nl # ''pub extern '' @ quote # ''C'' @ quote # '' fn spawn(cpu_id: usize, task_ref: TaskRef) {'' @
     nl # ''}'' @ [nl]"

definition demo_decls :: "(string \<times> (string \<times> string) list \<times> string) list" where
  "demo_decls = [(''current'', [(''cpu_id'', ''usize'')], '' -> TaskRef''),
     (''spawn'', [(''cpu_id'', ''usize''), (''task_ref'', ''TaskRef'')], [])]"

lemma demo_captures: "captures_params demo_regexes"
proof -
  have "rev (tl (dropWhile (\<lambda>c. c \<noteq> CHR '')'') (rev ret @ CHR '')'' # rev ps))) = ps"
    if "CHR '')'' \<notin> set ret" for ps ret
    using that by (subst dropWhile_append2) auto
  then show ?thesis by (simp add: captures_params_def demo_regexes_def)
qed

lemma demo_fns: "fn_captures demo_regexes demo_source = map (\<lambda>(name, ps, ret). (name, signature ps ret)) demo_decls"
  by code_simp

lemma demo_plain: "list_all (\<lambda>(name, ps, ret). plain_params ps \<and> nl \<notin> set (params_text ps) \<and> CHR '')'' \<notin> set ret) demo_decls"
  by code_simp


end
