(* ===== verification/Spec2Isabelle.thy ===== *)
theory Spec2Isabelle
  imports Deque_Tests_Props BTreeMap_Conc_Props Sched_Tests Task_Data Vsched_Types
    Coroutine_Props Task_Mgmt_Limits User_Tests_Props Vsched_Apis
begin

text \<open>
  A verification development for vsched, a task scheduler that runs in a vDSO and is shared by kernel
  and user space.

  \<^bold>\<open>The program.\<close> A task is a control block (\<^verbatim>\<open>base_task/src/task.rs\<close>) with the fields of a scheduling
  policy around it (\<^verbatim>\<open>scheduler/src\<close>: FIFO, round robin, CFS). Each CPU has its own run queue
  (\<^verbatim>\<open>vsched/src/sched.rs\<close>): the running task, the idle task, the task just left and a ready queue. The
  ready queues are bounded and shared between CPUs without locks: a double-ended queue
  (\<^verbatim>\<open>utils/src/deque.rs\<close>) or an ordered map (\<^verbatim>\<open>utils/src/btreemap.rs\<close>). \<^verbatim>\<open>task_management/src\<close> builds
  threads, coroutines, wait queues, exit and join on the functions the vDSO exports.

  \<^bold>\<open>The theories\<close>, from the bottom up:

  \<^item> \<open>Prelude\<close>: machine integers, outcomes (\<open>Inl\<close> a fault: a panic, undefined behaviour, or a loop that
    waits for another CPU; \<open>Inr\<close> the result). \<open>Ring\<close>: index arithmetic of a ring.
  \<^item> \<open>Deque\<close>: \<^verbatim>\<open>LockFreeDeque\<close>. Every operation is a machine whose steps are the single shared memory
    accesses of the loop bodies (\<open>dq_push_step\<close>, \<open>dq_pop_step\<close>, \<open>dq_obs_step\<close>); \<open>push_front\<close> and so on run
    one machine alone. \<open>Deque_Seq\<close>: the contract \<open>bounded_deque\<close> of the operations run alone.
    \<open>Deque_Conc\<close>: any number of threads in any interleaving, their simulation by an atomic
    double-ended queue. \<open>Deque_Limits\<close>: the properties, and runs beyond the limit where they fail.
  \<^item> \<open>BTreeMap\<close>: \<^verbatim>\<open>LockFreeBTreeMap\<close> with its packed slot words, the two phases of \<^verbatim>\<open>insert\<close>, the candidate
    array and the retries of \<^verbatim>\<open>pop_first\<close>, run by one thread at a time. \<open>BTreeMap_Spec\<close>: the contract
    \<open>ordered_map\<close>, the functions as updates of a finite map. \<open>BTreeMap_Conc\<close>: \<^verbatim>\<open>insert\<close>, \<^verbatim>\<open>pop_first\<close> and
    \<^verbatim>\<open>clear\<close> as machines whose steps are the single shared accesses, run by \<open>N\<close> threads (\<open>bsys_reach\<close>).
    \<open>BTreeMap_Conc_Inv\<close>: ownership of slots, freshness of versions and conservation of pairs, kept by
    every step. \<open>BTreeMap_Conc_Props\<close>: the properties and the run where a key is inserted twice.
  \<^item> \<open>Deque_Tests\<close>: the tests of the deque with several threads; a tester is a thread of the system of
    \<open>Deque_Conc\<close> with the loop of its closure around it. \<open>Deque_Tests_Inv\<close>, \<open>Deque_Tests_Finish\<close>: where
    each item is at any moment, and how every thread can be run to its end. \<open>Deque_Tests_Props\<close>: the sums the tests
    assert, and the mixed test, which can fail. \<open>Scripts\<close>: sequences of calls on deque and map against
    lists, and the sequential unit tests of both as such sequences.
  \<^item> \<open>Sched_Spec\<close>: the trait \<^verbatim>\<open>BaseScheduler\<close> and its contract \<open>base_scheduler\<close>. \<open>Fifo\<close>, \<open>Round_Robin\<close>, \<open>Cfs\<close>:
    the three schedulers, each proved to meet the contract, and what is special to each. \<open>Sched_Tests\<close>: the tests of
    \<^verbatim>\<open>scheduler/src/tests.rs\<close>, over the locales \<open>turn_taking\<close> and \<open>yielding\<close>, for all three.
  \<^item> \<open>Task\<close>: \<^verbatim>\<open>TaskInner\<close>, its state byte, flags and kernel stack. \<open>Task_Data\<close>: the user data of a task
    (\<^verbatim>\<open>base_task/src/task_ext.rs\<close>) over a heap of blocks.
  \<^item> \<open>Vsched\<close>: the run queues and the exported functions over any scheduler. \<open>Vsched_Spec\<close>: the abstract
    scheduler (\<open>view\<close>), its invariant \<open>view_inv\<close> and its steps. \<open>Vsched_Inv\<close>: every function refines its
    abstract step. \<open>Vsched_Run\<close>, \<open>Vsched_Safe\<close>, \<open>Vsched_Boot\<close>: single calls, runs of calls, booting.
    \<open>Vsched_Props\<close>: the properties. \<open>Vsched_Types\<close>: states decode and follow the life cycle.
  \<^item> \<open>Task_Ext\<close>: the state and creation of tasks in \<^verbatim>\<open>task_management\<close> and the choice of a CPU.
    \<open>Task_Mgmt\<close>: resume points, blocking, waking, exit and join of threads. \<open>Coroutine\<close>: futures, wakers
    and the coroutine loop. \<open>Task_Mgmt_Inv\<close>, \<open>Task_Mgmt_Run\<close>: the invariant of the wait queues over that of
    the run queues, for single calls and runs of threads. \<open>Coroutine_Stacks\<close>, \<open>Coroutine_Run\<close>: who has a
    stack, and the passes of coroutines (poll, rescheduling, handing on of the stack, finishing the
    switch) in any order with the calls of threads. \<open>Task_Mgmt_Props\<close>, \<open>Coroutine_Props\<close>,
    \<open>Task_Mgmt_Limits\<close>: the properties, and the runs where the guarantees end.
  \<^item> \<open>User_Tests\<close>: the programs of \<^verbatim>\<open>user_test/src/bin\<close> for one CPU, as statements run on all the layers from
    boot. \<open>User_Tests_Props\<close>: their runs.
  \<^item> \<open>Config\<close>: \<^verbatim>\<open>config/build.rs\<close> and what the capacity it sets means for a scheduler. \<open>Vsched_Apis\<close>:
    \<^verbatim>\<open>vsched_apis/build.rs\<close>, the text it generates and what the generated code does.

  \<^bold>\<open>Interfaces.\<close> \<open>bounded_deque\<close> (interpreted on the deque), \<open>ordered_map\<close> (on the map), \<open>mpmc_queue\<close> (the
  documented behaviour of \<^verbatim>\<open>heapless::mpmc\<close>; interpreted on the deque), \<open>base_scheduler\<close>, \<open>turn_taking\<close>
  and \<open>yielding\<close> (on the three schedulers). The theorems on run queues and task management hold for every scheduler that meets
  \<open>base_scheduler\<close>; their witnesses use the round-robin scheduler on two CPUs.

  \<^bold>\<open>Atomicity.\<close> The deque and the changing operations of the map are modelled access by access under
  sequential consistency (a read of an entry that is being overwritten sees it before or after, one of
  a dropped entry anything; the versions are taken not to wrap, \<open>no_wrap\<close>). A call of a scheduler, of the run queues or of \<^verbatim>\<open>task_management\<close> is one step of the whole system; where a
  known race needs finer steps (\<open>Task_Mgmt_Limits\<close>), the call is cut at that point. A context switch
  continues with the resume point of the next task; all resume points begin with the same lines,
  \<open>finish_switch\<close>.

  \<^bold>\<open>Bounds and fuel.\<close> \<^verbatim>\<open>usize\<close>, \<^verbatim>\<open>isize\<close> and \<^verbatim>\<open>u64\<close> are 64-bit words and wrap as the atomics of the code do;
  deque indices are natural numbers below the capacity. \<open>insert_retry\<close> and \<open>pop_retry\<close> take the code's
  own retry bounds. \<open>dq_exec\<close>, \<open>select_loop\<close> and \<open>coroutine_schedule\<close> may run for ever and are
  \<open>None\<close> then; that the first two return is proved.

  \<^bold>\<open>Not modelled.\<close> Memory orderings weaker than sequential consistency;
  machine contexts, the allocator, CPU masks, spin locks and reference counts (parameters, or the list
  of released tasks); the matching of regular expressions by the build script (a parameter); the tests
  named in the manifest; of \<^verbatim>\<open>user_test\<close> the loading of the vDSO image and the programs \<^verbatim>\<open>init_vsched\<close>, \<^verbatim>\<open>spawn\<close> and
  \<^verbatim>\<open>multi_thread\<close>; \<^verbatim>\<open>all\<close> is run on one CPU with four tasks. The counters and
  sums of the modelled tests are natural numbers and integers.
\<close>

end
